(* ===== verification/Prelude.thy ===== *)
theory Prelude
  imports Main "HOL-Library.Word"
begin

unbundle bit_operations_syntax

text \<open>
  Shared vocabulary of the development: the machine types of the C sources, byte strings, the
  little-endian view of memory that the word-at-a-time loops of \<open>bitops.c\<close> and \<open>xxhash.c\<close> rely on,
  the effect of writing a byte run into a file image, and the collections of rewrite rules the
  component theories fill.
\<close>

section \<open>Machine types and byte strings\<close>

type_synonym byte = "8 word"
type_synonym u32 = "32 word"
type_synonym u64 = "64 word"

named_theorems mem_simps \<open>memory reads and writes\<close>
named_theorems io_simps \<open>calls of the C library on a fault-free world\<close>
named_theorems frame_simps \<open>fields an operation leaves alone\<close>

text \<open>A C string literal as the bytes it denotes (without the terminating NUL).\<close>

definition str :: "string \<Rightarrow> byte list" where
  "str s = map of_char s"

text \<open>What a \<open>char *\<close> argument denotes: the bytes before the first NUL.\<close>

definition cstr :: "byte list \<Rightarrow> byte list" where
  "cstr bs = takeWhile (\<lambda>b. b \<noteq> 0) bs"

lemma length_str [simp]: "length (str s) = length s"
  by (simp add: str_def)

lemma str_Nil [simp]: "str [] = []"
  by (simp add: str_def)

lemma str_append [simp]: "str (s @ t) = str s @ str t"
  by (simp add: str_def)

lemma cstr_id: "0 \<notin> set bs \<Longrightarrow> cstr bs = bs"
  by (auto simp: cstr_def takeWhile_eq_all_conv)

lemma length_cstr: "length (cstr bs) \<le> length bs"
  by (simp add: cstr_def length_takeWhile_le)

lemma zero_notin_cstr [simp]: "0 \<notin> set (cstr bs)"
  by (auto simp: cstr_def dest: set_takeWhileD)

text \<open>The C conversions between \<open>long\<close>, \<open>size_t\<close> and \<open>off_t\<close>, and truncation to \<open>int\<close>.\<close>

definition to_size :: "int \<Rightarrow> nat" where
  "to_size x = nat (x mod 2 ^ 64)"

definition to_off :: "nat \<Rightarrow> int" where
  "to_off n = (int n + 2 ^ 63) mod 2 ^ 64 - 2 ^ 63"

definition to_int32 :: "int \<Rightarrow> int" where
  "to_int32 x = (x + 2 ^ 31) mod 2 ^ 32 - 2 ^ 31"

lemma to_size_id: "0 \<le> x \<Longrightarrow> x < 2 ^ 64 \<Longrightarrow> to_size x = nat x"
  by (simp add: to_size_def)

lemma to_off_id: "n < 2 ^ 63 \<Longrightarrow> to_off n = int n"
  by (simp add: to_off_def)

lemma to_int32_id: "- (2 ^ 31) \<le> x \<Longrightarrow> x < 2 ^ 31 \<Longrightarrow> to_int32 x = x"
  by (simp add: to_int32_def)

lemma to_int32_range: "- (2 ^ 31) \<le> to_int32 x \<and> to_int32 x < 2 ^ 31"
proof -
  have "0 \<le> (x + 2 ^ 31) mod 2 ^ 32" "(x + 2 ^ 31) mod 2 ^ 32 < (2::int) ^ 32"
    by simp_all
  then show ?thesis by (simp add: to_int32_def)
qed

section \<open>Little-endian words in memory\<close>

text \<open>
  \<open>le_load n p\<close> is the integer that a load of \<open>n\<close> bytes at address \<open>p\<close> yields on a little-endian
  machine; a pointer is modelled by the bytes from it on, so \<open>p + k\<close> is \<open>drop k p\<close>.
\<close>

fun le_load :: "nat \<Rightarrow> byte list \<Rightarrow> nat" where
  "le_load 0 p = 0"
| "le_load (Suc n) p = (case p of [] \<Rightarrow> 0 | b # bs \<Rightarrow> unat b + 256 * le_load n bs)"

lemma le_load_numeral [simp]:
  "le_load (numeral k) (b # bs) = unat b + 256 * le_load (pred_numeral k) bs"
  by (simp add: numeral_eq_Suc [of k])

text \<open>The big-endian load, for the host-order reads of \<open>xxhash.c\<close> on such a machine.\<close>

definition be_load :: "nat \<Rightarrow> byte list \<Rightarrow> nat" where
  "be_load n p = le_load n (rev (take n p))"

lemma unat_byte_less: "unat (b :: byte) < 256"
  using unsigned_less [where 'a = nat, of b] by simp

lemma unat_of_nat_small: "n < 2 ^ LENGTH('a) \<Longrightarrow> unat (of_nat n :: 'a::len word) = n"
  by (simp add: unat_of_nat take_bit_nat_eq_self)

lemma le_load_less: "le_load n p < 256 ^ n"
proof (induction n arbitrary: p)
  case (Suc n)
  show ?case
  proof (cases p)
    case (Cons b bs)
    have "unat b < 256" by (rule unat_byte_less)
    moreover have "le_load n bs < 256 ^ n" by (rule Suc.IH)
    ultimately show ?thesis using Cons by simp
  qed simp
qed simp

lemma le_load_take: "le_load n (take n p) = le_load n p"
  by (induction n arbitrary: p) (auto split: list.splits)

lemma take_drop_append [simp]: "take n a @ drop n a @ b = a @ b"
  by (metis append_assoc append_take_drop_id)

section \<open>Writing a run of bytes into a file image\<close>

text \<open>
  POSIX: a write past the end extends the file, and the gap reads as zero bytes.
\<close>

definition write_at :: "byte list \<Rightarrow> nat \<Rightarrow> byte list \<Rightarrow> byte list" where
  "write_at cs off bs =
     (if bs = [] then cs
      else take off (cs @ replicate (off - length cs) 0) @ bs @ drop (off + length bs) cs)"

text \<open>What a byte of a file image reads as; past the end it is zero.\<close>

definition byte_at :: "byte list \<Rightarrow> nat \<Rightarrow> byte" where
  "byte_at cs i = (if i < length cs then cs ! i else 0)"

lemma length_write_at [simp]:
  "length (write_at cs off bs) =
     (if bs = [] then length cs else max (length cs) (off + length bs))"
  by (auto simp: write_at_def)

lemma byte_at_write_at:
  "byte_at (write_at cs off bs) i =
     (if off \<le> i \<and> i < off + length bs then bs ! (i - off) else byte_at cs i)"
  by (auto simp: byte_at_def write_at_def nth_append min_def)

lemma write_at_nth_inside:
  "k < length bs \<Longrightarrow> write_at cs off bs ! (off + k) = bs ! k"
  by (cases bs) (auto simp: write_at_def nth_append nth_Cons' min_def)

lemma byte_at_beyond [simp]: "length cs \<le> i \<Longrightarrow> byte_at cs i = 0"
  by (simp add: byte_at_def)

lemma byte_at_inside [simp]: "i < length cs \<Longrightarrow> byte_at cs i = cs ! i"
  by (simp add: byte_at_def)

lemma image_eqI:
  assumes "length cs = length ds" and "\<And>i. i < length cs \<Longrightarrow> byte_at cs i = byte_at ds i"
  shows "cs = ds"
  using assms by (intro nth_equalityI) (auto simp: byte_at_def)

lemmas [mem_simps] = length_write_at byte_at_write_at

end
