(* ===== verification/XXHSpec.thy ===== *)
theory XXHSpec
  imports Prelude
begin

text \<open>
  The hash functions XXH32 and XXH64 as their specification describes them, on lists of bytes and
  independent of the program: its constants, its rotations (\<open>word_rotl\<close> of the library), its lanes, and
  the order of its steps. Nothing here refers to \<open>xxhash.c\<close>; published values of both functions are
  checked at the end. \<open>XXHAgree\<close> shows that the model of the C code computes these functions.
\<close>

unbundle bit_operations_syntax

section \<open>XXH64\<close>

definition p64_1 :: u64 where "p64_1 = 0x9E3779B185EBCA87"
definition p64_2 :: u64 where "p64_2 = 0xC2B2AE3D27D4EB4F"
definition p64_3 :: u64 where "p64_3 = 0x165667B19E3779F9"
definition p64_4 :: u64 where "p64_4 = 0x85EBCA77C2B2AE63"
definition p64_5 :: u64 where "p64_5 = 0x27D4EB2F165667C5"

lemmas p64_defs = p64_1_def p64_2_def p64_3_def p64_4_def p64_5_def

text \<open>The number that some bytes are, the least significant first.\<close>

definition number :: "byte list \<Rightarrow> nat" where
  "number bs = horner_sum unat 256 bs"

definition mix64 :: "u64 \<Rightarrow> u64 \<Rightarrow> u64" where
  "mix64 acc lane = word_rotl 31 (acc + lane * p64_2) * p64_1"

definition merge64 :: "u64 \<Rightarrow> u64 \<Rightarrow> u64" where
  "merge64 acc accn = (acc XOR mix64 0 accn) * p64_1 + p64_4"

text \<open>The input in blocks of four lanes, one for each accumulator.\<close>

fun blocks64 :: "u64 list \<Rightarrow> byte list \<Rightarrow> u64 list" where
  "blocks64 accs bs =
     (if 32 \<le> length bs
      then blocks64 (map2 mix64 accs (map (\<lambda>k. of_nat (number (take 8 (drop (8 * k) bs)))) [0, 1, 2, 3])) (drop 32 bs)
      else accs)"

declare blocks64.simps [simp del]

definition start64 :: "u64 \<Rightarrow> byte list \<Rightarrow> u64" where
  "start64 seed bs =
     (if length bs < 32 then seed + p64_5
      else let accs = blocks64 [seed + p64_1 + p64_2, seed + p64_2, seed, seed - p64_1] bs
           in foldl merge64 (sum_list (map2 word_rotl [1, 7, 12, 18] accs)) accs)"

text \<open>The bytes after the last block: eight at a time, then four, then one.\<close>

fun rest64 :: "u64 \<Rightarrow> byte list \<Rightarrow> u64" where
  "rest64 acc bs =
     (if 8 \<le> length bs
      then rest64 (word_rotl 27 (acc XOR mix64 0 (of_nat (number (take 8 bs)))) * p64_1 + p64_4) (drop 8 bs)
      else if 4 \<le> length bs
      then rest64 (word_rotl 23 (acc XOR of_nat (number (take 4 bs)) * p64_1) * p64_2 + p64_3) (drop 4 bs)
      else if bs = [] then acc
      else rest64 (word_rotl 11 (acc XOR of_nat (unat (hd bs)) * p64_5) * p64_1) (tl bs))"

declare rest64.simps [simp del]

definition final64 :: "u64 \<Rightarrow> u64" where
  "final64 acc =
     (let acc = (acc XOR drop_bit 33 acc) * p64_2;
          acc = (acc XOR drop_bit 29 acc) * p64_3
      in acc XOR drop_bit 32 acc)"

definition xxh64_spec :: "u64 \<Rightarrow> byte list \<Rightarrow> u64" where
  "xxh64_spec seed bs =
     final64 (rest64 (start64 seed bs + of_nat (length bs)) (drop (length bs - length bs mod 32) bs))"

section \<open>XXH32\<close>

definition p32_1 :: u32 where "p32_1 = 0x9E3779B1"
definition p32_2 :: u32 where "p32_2 = 0x85EBCA77"
definition p32_3 :: u32 where "p32_3 = 0xC2B2AE3D"
definition p32_4 :: u32 where "p32_4 = 0x27D4EB2F"
definition p32_5 :: u32 where "p32_5 = 0x165667B1"

lemmas p32_defs = p32_1_def p32_2_def p32_3_def p32_4_def p32_5_def

definition mix32 :: "u32 \<Rightarrow> u32 \<Rightarrow> u32" where
  "mix32 acc lane = word_rotl 13 (acc + lane * p32_2) * p32_1"

fun blocks32 :: "u32 list \<Rightarrow> byte list \<Rightarrow> u32 list" where
  "blocks32 accs bs =
     (if 16 \<le> length bs
      then blocks32 (map2 mix32 accs (map (\<lambda>k. of_nat (number (take 4 (drop (4 * k) bs)))) [0, 1, 2, 3])) (drop 16 bs)
      else accs)"

declare blocks32.simps [simp del]

definition start32 :: "u32 \<Rightarrow> byte list \<Rightarrow> u32" where
  "start32 seed bs =
     (if length bs < 16 then seed + p32_5
      else sum_list (map2 word_rotl [1, 7, 12, 18]
        (blocks32 [seed + p32_1 + p32_2, seed + p32_2, seed, seed - p32_1] bs)))"

fun rest32 :: "u32 \<Rightarrow> byte list \<Rightarrow> u32" where
  "rest32 acc bs =
     (if 4 \<le> length bs
      then rest32 (word_rotl 17 (acc + of_nat (number (take 4 bs)) * p32_3) * p32_4) (drop 4 bs)
      else if bs = [] then acc
      else rest32 (word_rotl 11 (acc + of_nat (unat (hd bs)) * p32_5) * p32_1) (tl bs))"

declare rest32.simps [simp del]

definition final32 :: "u32 \<Rightarrow> u32" where
  "final32 acc =
     (let acc = (acc XOR drop_bit 15 acc) * p32_2;
          acc = (acc XOR drop_bit 13 acc) * p32_3
      in acc XOR drop_bit 16 acc)"

definition xxh32_spec :: "u32 \<Rightarrow> byte list \<Rightarrow> u32" where
  "xxh32_spec seed bs =
     final32 (rest32 (start32 seed bs + of_nat (length bs)) (drop (length bs - length bs mod 16) bs))"

section \<open>Published values\<close>

lemma rotl_shifts:
  assumes "n < LENGTH('a)"
  shows "word_rotl n (w :: 'a::len word) = push_bit n w OR drop_bit (LENGTH('a) - n) w"
proof (rule bit_word_eqI)
  fix k assume "k < LENGTH('a)"
  then show "bit (word_rotl n w) k = bit (push_bit n w OR drop_bit (LENGTH('a) - n) w) k"
    using assms
    by (cases "n \<le> k") (auto simp: bit_word_rotl_iff bit_or_iff bit_push_bit_iff bit_drop_bit_eq mod_if add.commute
        dest: bit_imp_le_length)
qed

lemmas xxh64_values =
  xxh64_spec_def start64_def blocks64.simps rest64.simps final64_def mix64_def merge64_def number_def
  p64_defs rotl_shifts Let_def

lemmas xxh32_values =
  xxh32_spec_def start32_def blocks32.simps rest32.simps final32_def mix32_def number_def
  p32_defs rotl_shifts Let_def

lemma xxh64_published:
  "xxh64_spec 0 [] = 0xEF46DB3751D8E999"
  "xxh64_spec 0 (str ''abc'') = 0x44BC2CF5AD770999"
  "xxh64_spec 0 (str ''Nobody inspects the spammish repetition'') = 0xFBCEA83C8A378BF1"
  "xxh64_spec 20141025 (str ''xxhash'') = 0xB559B98D844E0635"
  by (simp_all add: xxh64_values str_def)

lemma xxh32_published:
  "xxh32_spec 0 [] = 0x02CC5D05"
  "xxh32_spec 0 (str ''abc'') = 0x32D153FF"
  "xxh32_spec 0 (str ''Nobody inspects the spammish repetition'') = 0xE2293B2F"
  by (simp_all add: xxh32_values str_def)

end
