(* ===== verification/XXHMem.thy ===== *)
theory XXHMem
  imports Prelude
begin

text \<open>
  The memory layer of \<open>xxhash.c\<close>: host-order reads (\<open>XXH_read32\<close>, \<open>XXH_read64\<close>), byte swaps, and
  the little-endian and big-endian reads built from them. A pointer is the list of bytes from it
  on. The byte order of the machine is the argument \<open>host\<close>; \<open>XXH_CPU_LITTLE_ENDIAN\<close> detects it.
  The lemmas show that the little-endian reads do not depend on the host, on which the hash's
  promise of endian-independent values rests.
\<close>

unbundle bit_operations_syntax

section \<open>Types\<close>

datatype XXH_endianess = XXH_bigEndian | XXH_littleEndian

datatype XXH_alignment = XXH_aligned | XXH_unaligned

datatype XXH_errorcode = XXH_OK | XXH_ERROR

section \<open>Reads\<close>

definition XXH_read32 :: "XXH_endianess \<Rightarrow> byte list \<Rightarrow> u32" where
  "XXH_read32 host p =
     (case host of XXH_littleEndian \<Rightarrow> of_nat (le_load 4 p) | XXH_bigEndian \<Rightarrow> of_nat (be_load 4 p))"

definition XXH_read64 :: "XXH_endianess \<Rightarrow> byte list \<Rightarrow> u64" where
  "XXH_read64 host p =
     (case host of XXH_littleEndian \<Rightarrow> of_nat (le_load 8 p) | XXH_bigEndian \<Rightarrow> of_nat (be_load 8 p))"

definition XXH_swap32 :: "u32 \<Rightarrow> u32" where
  "XXH_swap32 x =
     (push_bit 24 x AND 0xff000000) OR
     (push_bit 8 x AND 0x00ff0000) OR
     (drop_bit 8 x AND 0x0000ff00) OR
     (drop_bit 24 x AND 0x000000ff)"

definition XXH_swap64 :: "u64 \<Rightarrow> u64" where
  "XXH_swap64 x =
     (push_bit 56 x AND 0xff00000000000000) OR
     (push_bit 40 x AND 0x00ff000000000000) OR
     (push_bit 24 x AND 0x0000ff0000000000) OR
     (push_bit 8 x AND 0x000000ff00000000) OR
     (drop_bit 8 x AND 0x00000000ff000000) OR
     (drop_bit 24 x AND 0x0000000000ff0000) OR
     (drop_bit 40 x AND 0x000000000000ff00) OR
     (drop_bit 56 x AND 0x00000000000000ff)"

text \<open>\<open>XXH_isLittleEndian\<close> reads the first byte of the 32-bit value 1 in host order.\<close>

definition store32 :: "XXH_endianess \<Rightarrow> u32 \<Rightarrow> byte list" where
  "store32 host u =
     (let le = map (\<lambda>k. ucast (drop_bit (8 * k) u)) [0..<4]
      in case host of XXH_littleEndian \<Rightarrow> le | XXH_bigEndian \<Rightarrow> rev le)"

definition store64 :: "XXH_endianess \<Rightarrow> u64 \<Rightarrow> byte list" where
  "store64 host u =
     (let le = map (\<lambda>k. ucast (drop_bit (8 * k) u)) [0..<8]
      in case host of XXH_littleEndian \<Rightarrow> le | XXH_bigEndian \<Rightarrow> rev le)"

definition XXH_isLittleEndian :: "XXH_endianess \<Rightarrow> byte" where
  "XXH_isLittleEndian host = store32 host 1 ! 0"

definition endian_detected :: "XXH_endianess \<Rightarrow> XXH_endianess" where
  "endian_detected host =
     (if XXH_isLittleEndian host = 1 then XXH_littleEndian else XXH_bigEndian)"

definition XXH_readLE32_align :: "XXH_endianess \<Rightarrow> byte list \<Rightarrow> XXH_endianess \<Rightarrow> XXH_alignment \<Rightarrow> u32" where
  "XXH_readLE32_align host ptr endian align =
     (if align = XXH_unaligned
      then (if endian = XXH_littleEndian then XXH_read32 host ptr else XXH_swap32 (XXH_read32 host ptr))
      else (if endian = XXH_littleEndian then XXH_read32 host ptr else XXH_swap32 (XXH_read32 host ptr)))"

definition XXH_readLE32 :: "XXH_endianess \<Rightarrow> byte list \<Rightarrow> XXH_endianess \<Rightarrow> u32" where
  "XXH_readLE32 host ptr endian = XXH_readLE32_align host ptr endian XXH_unaligned"

definition XXH_readBE32 :: "XXH_endianess \<Rightarrow> byte list \<Rightarrow> u32" where
  "XXH_readBE32 host ptr =
     (if XXH_isLittleEndian host \<noteq> 0 then XXH_swap32 (XXH_read32 host ptr) else XXH_read32 host ptr)"

definition XXH_readLE64_align :: "XXH_endianess \<Rightarrow> byte list \<Rightarrow> XXH_endianess \<Rightarrow> XXH_alignment \<Rightarrow> u64" where
  "XXH_readLE64_align host ptr endian align =
     (if align = XXH_unaligned
      then (if endian = XXH_littleEndian then XXH_read64 host ptr else XXH_swap64 (XXH_read64 host ptr))
      else (if endian = XXH_littleEndian then XXH_read64 host ptr else XXH_swap64 (XXH_read64 host ptr)))"

definition XXH_readLE64 :: "XXH_endianess \<Rightarrow> byte list \<Rightarrow> XXH_endianess \<Rightarrow> u64" where
  "XXH_readLE64 host ptr endian = XXH_readLE64_align host ptr endian XXH_unaligned"

definition XXH_readBE64 :: "XXH_endianess \<Rightarrow> byte list \<Rightarrow> u64" where
  "XXH_readBE64 host ptr =
     (if XXH_isLittleEndian host \<noteq> 0 then XXH_swap64 (XXH_read64 host ptr) else XXH_read64 host ptr)"

section \<open>The reads agree with the little-endian load on every host\<close>

lemma isLittleEndian_little [simp]: "XXH_isLittleEndian XXH_littleEndian = 1"
  by (simp add: XXH_isLittleEndian_def store32_def upt_rec)

lemma isLittleEndian_big [simp]: "XXH_isLittleEndian XXH_bigEndian = 0"
  by (simp add: XXH_isLittleEndian_def store32_def upt_rec)

lemma endian_detected [simp]: "endian_detected host = host"
  by (cases host) (simp_all add: endian_detected_def)

lemma length_4E:
  assumes "4 \<le> length p"
  obtains a b c d q where "p = a # b # c # d # q"
  using assms by (auto simp: numeral_eq_Suc Suc_le_length_iff)

lemma length_8E:
  assumes "8 \<le> length p"
  obtains a b c d e f g h q where "p = a # b # c # d # e # f # g # h # q"
  using assms by (auto simp: numeral_eq_Suc Suc_le_length_iff)

lemma bit_le_load:
  "n \<le> length p \<Longrightarrow> bit (le_load n p) i \<longleftrightarrow> i < 8 * n \<and> bit (p ! (i div 8)) (i mod 8)"
proof (induction n arbitrary: p i)
  case (Suc n)
  then obtain b bs where p: "p = b # bs" and n: "n \<le> length bs" by (cases p) auto
  have "unat b AND push_bit 8 (le_load n bs) = 0"
    by (rule bit_eqI) (auto simp: bit_simps dest: bit_imp_le_length)
  then have "unat b + push_bit 8 (le_load n bs) = unat b OR push_bit 8 (le_load n bs)"
    by (rule disjunctive_add_eq_or)
  then have "unat b + 256 * le_load n bs = unat b OR push_bit 8 (le_load n bs)"
    by (simp add: push_bit_eq_mult ac_simps)
  then have "bit (le_load (Suc n) p) i \<longleftrightarrow> bit b i \<or> 8 \<le> i \<and> bit (le_load n bs) (i - 8)"
    using p by (auto simp: bit_simps)
  also have "\<dots> \<longleftrightarrow> i < 8 * Suc n \<and> bit (p ! (i div 8)) (i mod 8)"
  proof (cases "i < 8")
    case True
    then show ?thesis using p by auto
  next
    case False
    then have "i div 8 = Suc ((i - 8) div 8)" "i mod 8 = (i - 8) mod 8"
      by (simp_all add: le_div_geq le_mod_geq)
    moreover have "\<not> bit b i" using False bit_imp_le_length [of b i] by auto
    ultimately show ?thesis using False p Suc.IH [OF n, of "i - 8"] by auto
  qed
  finally show ?case .
qed simp

lemma bit_be_load:
  assumes "n \<le> length p"
  shows "bit (be_load n p) i \<longleftrightarrow> i < 8 * n \<and> bit (p ! (n - 1 - i div 8)) (i mod 8)"
proof -
  have "bit (be_load n p) i \<longleftrightarrow> i < 8 * n \<and> bit (rev (take n p) ! (i div 8)) (i mod 8)"
    using assms by (simp add: be_load_def bit_le_load)
  moreover have "rev (take n p) ! (i div 8) = p ! (n - 1 - i div 8)" if "i < 8 * n"
    using that assms by (simp add: rev_nth min_absorb2 less_mult_imp_div_less mult.commute)
  ultimately show ?thesis by auto
qed

lemma byte_indexE:
  fixes i :: nat
  obtains q r where "i = 8 * q + r" and "r < 8"
  by (metis mod_less_divisor mult_div_mod_eq zero_less_numeral)

text \<open>The bits of a byte-lane mask.\<close>

lemma bit_lane_mask:
  "bit (push_bit k (mask 8) :: 'a::len word) i \<longleftrightarrow> k \<le> i \<and> i < k + 8 \<and> i < LENGTH('a)"
  by (auto simp: bit_simps)

lemma lane_masks32:
  "(0xff000000 :: u32) = push_bit 24 (mask 8)" "(0x00ff0000 :: u32) = push_bit 16 (mask 8)"
  "(0x0000ff00 :: u32) = push_bit 8 (mask 8)" "(0x000000ff :: u32) = push_bit 0 (mask 8)"
  by (simp_all add: mask_numeral)

lemma lane_masks64:
  "(0xff00000000000000 :: u64) = push_bit 56 (mask 8)"
  "(0x00ff000000000000 :: u64) = push_bit 48 (mask 8)"
  "(0x0000ff0000000000 :: u64) = push_bit 40 (mask 8)"
  "(0x000000ff00000000 :: u64) = push_bit 32 (mask 8)"
  "(0x00000000ff000000 :: u64) = push_bit 24 (mask 8)"
  "(0x0000000000ff0000 :: u64) = push_bit 16 (mask 8)"
  "(0x000000000000ff00 :: u64) = push_bit 8 (mask 8)"
  "(0x00000000000000ff :: u64) = push_bit 0 (mask 8)"
  by (simp_all add: mask_numeral)

lemma bit_XXH_swap32:
  assumes "q < 4" and "r < 8"
  shows "bit (XXH_swap32 x) (8 * q + r) \<longleftrightarrow> bit x (8 * (3 - q) + r)"
proof -
  from assms(1) consider "q = 0" | "q = 1" | "q = 2" | "q = 3" by linarith
  then show ?thesis using assms(2)
    by cases (simp_all add: XXH_swap32_def lane_masks32 bit_lane_mask bit_and_iff bit_or_iff
        bit_drop_bit_eq bit_push_bit_iff bit_mask_iff ac_simps)
qed

lemma bit_XXH_swap64:
  assumes "q < 8" and "r < 8"
  shows "bit (XXH_swap64 x) (8 * q + r) \<longleftrightarrow> bit x (8 * (7 - q) + r)"
proof -
  from assms(1) consider "q = 0" | "q = 1" | "q = 2" | "q = 3" | "q = 4" | "q = 5" | "q = 6" | "q = 7"
    by linarith
  then show ?thesis using assms(2)
    by cases (simp_all add: XXH_swap64_def lane_masks64 bit_lane_mask bit_and_iff bit_or_iff
        bit_drop_bit_eq bit_push_bit_iff bit_mask_iff ac_simps)
qed

lemma swap32_be_load:
  assumes "4 \<le> length p"
  shows "XXH_swap32 (of_nat (be_load 4 p)) = of_nat (le_load 4 p)"
proof (rule bit_word_eqI)
  fix i assume "i < LENGTH(32)"
  then obtain q r where i: "i = 8 * q + r" "r < 8" "q < 4"
    by (rule_tac i = i in byte_indexE) auto
  then have "3 - (8 * (3 - q) + r) div 8 = q" "8 * (3 - q) + r < 32" by linarith+
  then show "bit (XXH_swap32 (of_nat (be_load 4 p))) i = bit (of_nat (le_load 4 p) :: u32) i"
    using assms i by (simp add: bit_XXH_swap32 bit_of_nat_iff bit_be_load bit_le_load)
qed

lemma swap64_be_load:
  assumes "8 \<le> length p"
  shows "XXH_swap64 (of_nat (be_load 8 p)) = of_nat (le_load 8 p)"
proof (rule bit_word_eqI)
  fix i assume "i < LENGTH(64)"
  then obtain q r where i: "i = 8 * q + r" "r < 8" "q < 8"
    by (rule_tac i = i in byte_indexE) auto
  then have "7 - (8 * (7 - q) + r) div 8 = q" "8 * (7 - q) + r < 64" by linarith+
  then show "bit (XXH_swap64 (of_nat (be_load 8 p))) i = bit (of_nat (le_load 8 p) :: u64) i"
    using assms i by (simp add: bit_XXH_swap64 bit_of_nat_iff bit_be_load bit_le_load)
qed

text \<open>Reading little-endian data gives the same value on every host.\<close>

lemma readLE32_host [simp]:
  "4 \<le> length p \<Longrightarrow> XXH_readLE32_align host p host align = of_nat (le_load 4 p)"
  by (cases host) (auto simp: XXH_readLE32_align_def XXH_read32_def swap32_be_load)

lemma readLE64_host [simp]:
  "8 \<le> length p \<Longrightarrow> XXH_readLE64_align host p host align = of_nat (le_load 8 p)"
  by (cases host) (auto simp: XXH_readLE64_align_def XXH_read64_def swap64_be_load)

lemma readLE32_unaligned_host [simp]:
  "4 \<le> length p \<Longrightarrow> XXH_readLE32 host p host = of_nat (le_load 4 p)"
  by (simp add: XXH_readLE32_def)

lemma readLE64_unaligned_host [simp]:
  "8 \<le> length p \<Longrightarrow> XXH_readLE64 host p host = of_nat (le_load 8 p)"
  by (simp add: XXH_readLE64_def)

end
