(* ===== verification/XXHash64.thy ===== *)
theory XXHash64
  imports XXHMem
begin

text \<open>
  The one-shot 64-bit hash of \<open>xxhash.c\<close>: rounds, the switch of \<open>XXH64_finalize\<close> with its
  fall-through cases, the 32-byte stripe loop, and \<open>XXH64\<close> itself. All arithmetic is on 64-bit
  words, so it wraps as in C. The lemmas show that the value does not depend on the byte order of
  the host, that the switch is the plain tail loop, and that \<open>XXH64\<close> reads exactly the \<open>len\<close> bytes it
  is given.
\<close>

unbundle bit_operations_syntax

section \<open>Rounds\<close>

definition XXH_rotl64 :: "u64 \<Rightarrow> nat \<Rightarrow> u64" where
  "XXH_rotl64 x r = push_bit r x OR drop_bit (64 - r) x"

definition PRIME64_1 :: u64 where "PRIME64_1 = 11400714785074694791"
definition PRIME64_2 :: u64 where "PRIME64_2 = 14029467366897019727"
definition PRIME64_3 :: u64 where "PRIME64_3 = 1609587929392839161"
definition PRIME64_4 :: u64 where "PRIME64_4 = 9650029242287828579"
definition PRIME64_5 :: u64 where "PRIME64_5 = 2870177450012600261"

lemmas PRIME64_defs = PRIME64_1_def PRIME64_2_def PRIME64_3_def PRIME64_4_def PRIME64_5_def

definition XXH64_round :: "u64 \<Rightarrow> u64 \<Rightarrow> u64" where
  "XXH64_round acc input =
     (let acc = acc + input * PRIME64_2;
          acc = XXH_rotl64 acc 31;
          acc = acc * PRIME64_1
      in acc)"

definition XXH64_mergeRound :: "u64 \<Rightarrow> u64 \<Rightarrow> u64" where
  "XXH64_mergeRound acc val =
     (let val = XXH64_round 0 val;
          acc = acc XOR val;
          acc = acc * PRIME64_1 + PRIME64_4
      in acc)"

definition XXH64_avalanche :: "u64 \<Rightarrow> u64" where
  "XXH64_avalanche h64 =
     (let h64 = h64 XOR drop_bit 33 h64;
          h64 = h64 * PRIME64_2;
          h64 = h64 XOR drop_bit 29 h64;
          h64 = h64 * PRIME64_3;
          h64 = h64 XOR drop_bit 32 h64
      in h64)"

section \<open>The tail\<close>

text \<open>The macros update the pair of the accumulator \<open>h64\<close> and the cursor \<open>p\<close>.\<close>

definition PROCESS1_64 :: "u64 \<times> byte list \<Rightarrow> u64 \<times> byte list" where
  "PROCESS1_64 s =
     (let (h64, p) = s;
          h64 = h64 XOR (ucast (byte_at p 0) * PRIME64_5);
          p = drop 1 p;
          h64 = XXH_rotl64 h64 11 * PRIME64_1
      in (h64, p))"

definition PROCESS4_64 ::
  "XXH_endianess \<Rightarrow> XXH_endianess \<Rightarrow> XXH_alignment \<Rightarrow> u64 \<times> byte list \<Rightarrow> u64 \<times> byte list" where
  "PROCESS4_64 host endian align s =
     (let (h64, p) = s;
          h64 = h64 XOR (ucast (XXH_readLE32_align host p endian align) * PRIME64_1);
          p = drop 4 p;
          h64 = XXH_rotl64 h64 23 * PRIME64_2 + PRIME64_3
      in (h64, p))"

definition PROCESS8_64 ::
  "XXH_endianess \<Rightarrow> XXH_endianess \<Rightarrow> XXH_alignment \<Rightarrow> u64 \<times> byte list \<Rightarrow> u64 \<times> byte list" where
  "PROCESS8_64 host endian align s =
     (let (h64, p) = s;
          k1 = XXH64_round 0 (XXH_readLE64_align host p endian align);
          p = drop 8 p;
          h64 = h64 XOR k1;
          h64 = XXH_rotl64 h64 27 * PRIME64_1 + PRIME64_4
      in (h64, p))"

text \<open>The switch on \<open>len & 31\<close>: each case label runs the macros from it down to its return.\<close>

definition XXH64_switch ::
  "XXH_endianess \<Rightarrow> XXH_endianess \<Rightarrow> XXH_alignment \<Rightarrow> nat \<Rightarrow> u64 \<times> byte list \<Rightarrow> u64 \<times> byte list" where
  "XXH64_switch host endian align n s =
     (let p1 = PROCESS1_64;
          p4 = PROCESS4_64 host endian align;
          p8 = PROCESS8_64 host endian align
      in
       (if n = 24 then p8 (p8 (p8 s))
        else if n = 16 then p8 (p8 s)
        else if n = 8 then p8 s
        else if n = 28 then p4 (p8 (p8 (p8 s)))
        else if n = 20 then p4 (p8 (p8 s))
        else if n = 12 then p4 (p8 s)
        else if n = 4 then p4 s
        else if n = 25 then p1 (p8 (p8 (p8 s)))
        else if n = 17 then p1 (p8 (p8 s))
        else if n = 9 then p1 (p8 s)
        else if n = 29 then p1 (p4 (p8 (p8 (p8 s))))
        else if n = 21 then p1 (p4 (p8 (p8 s)))
        else if n = 13 then p1 (p4 (p8 s))
        else if n = 5 then p1 (p4 s)
        else if n = 26 then p1 (p1 (p8 (p8 (p8 s))))
        else if n = 18 then p1 (p1 (p8 (p8 s)))
        else if n = 10 then p1 (p1 (p8 s))
        else if n = 30 then p1 (p1 (p4 (p8 (p8 (p8 s)))))
        else if n = 22 then p1 (p1 (p4 (p8 (p8 s))))
        else if n = 14 then p1 (p1 (p4 (p8 s)))
        else if n = 6 then p1 (p1 (p4 s))
        else if n = 27 then p1 (p1 (p1 (p8 (p8 (p8 s)))))
        else if n = 19 then p1 (p1 (p1 (p8 (p8 s))))
        else if n = 11 then p1 (p1 (p1 (p8 s)))
        else if n = 31 then p1 (p1 (p1 (p4 (p8 (p8 (p8 s))))))
        else if n = 23 then p1 (p1 (p1 (p4 (p8 (p8 s)))))
        else if n = 15 then p1 (p1 (p1 (p4 (p8 s))))
        else if n = 7 then p1 (p1 (p1 (p4 s)))
        else if n = 3 then p1 (p1 (p1 s))
        else if n = 2 then p1 (p1 s)
        else if n = 1 then p1 s
        else s))"

definition XXH64_finalize ::
  "XXH_endianess \<Rightarrow> u64 \<Rightarrow> byte list \<Rightarrow> nat \<Rightarrow> XXH_endianess \<Rightarrow> XXH_alignment \<Rightarrow> u64" where
  "XXH64_finalize host h64 ptr len endian align =
     XXH64_avalanche (fst (XXH64_switch host endian align (len AND 31) (h64, ptr)))"

section \<open>The stripe loop and the hash\<close>

type_synonym lanes64 = "u64 \<times> u64 \<times> u64 \<times> u64"

definition XXH64_stripe ::
  "XXH_endianess \<Rightarrow> XXH_endianess \<Rightarrow> XXH_alignment \<Rightarrow> lanes64 \<Rightarrow> byte list \<Rightarrow> lanes64" where
  "XXH64_stripe host endian align v p =
     (let (v1, v2, v3, v4) = v;
          v1 = XXH64_round v1 (XXH_readLE64_align host p endian align); p = drop 8 p;
          v2 = XXH64_round v2 (XXH_readLE64_align host p endian align); p = drop 8 p;
          v3 = XXH64_round v3 (XXH_readLE64_align host p endian align); p = drop 8 p;
          v4 = XXH64_round v4 (XXH_readLE64_align host p endian align)
      in (v1, v2, v3, v4))"

text \<open>
  The \<open>do ... while (p <= limit)\<close> loop; \<open>n\<close> is the number of bytes from \<open>p\<close> to \<open>bEnd\<close>, so
  \<open>p <= limit\<close> is \<open>32 \<le> n\<close>. The result is the lanes, the cursor and the bytes left.
\<close>

function XXH64_stripes ::
  "XXH_endianess \<Rightarrow> XXH_endianess \<Rightarrow> XXH_alignment \<Rightarrow> lanes64 \<Rightarrow> byte list \<Rightarrow> nat \<Rightarrow>
   lanes64 \<times> byte list \<times> nat" where
  "XXH64_stripes host endian align v p n =
     (let v' = XXH64_stripe host endian align v p; p' = drop 32 p; n' = n - 32
      in if 32 \<le> n' then XXH64_stripes host endian align v' p' n' else (v', p', n'))"
  by pat_completeness auto
termination
  by (relation "measure (\<lambda>(host, endian, align, v, p, n). n)") auto

declare XXH64_stripes.simps [simp del]

definition XXH64_init :: "u64 \<Rightarrow> lanes64" where
  "XXH64_init seed = (seed + PRIME64_1 + PRIME64_2, seed + PRIME64_2, seed + 0, seed - PRIME64_1)"

definition XXH64_converge :: "lanes64 \<Rightarrow> u64" where
  "XXH64_converge v =
     (let (v1, v2, v3, v4) = v;
          h64 = XXH_rotl64 v1 1 + XXH_rotl64 v2 7 + XXH_rotl64 v3 12 + XXH_rotl64 v4 18;
          h64 = XXH64_mergeRound h64 v1;
          h64 = XXH64_mergeRound h64 v2;
          h64 = XXH64_mergeRound h64 v3;
          h64 = XXH64_mergeRound h64 v4
      in h64)"

definition XXH64_endian_align ::
  "XXH_endianess \<Rightarrow> byte list \<Rightarrow> nat \<Rightarrow> u64 \<Rightarrow> XXH_endianess \<Rightarrow> XXH_alignment \<Rightarrow> u64" where
  "XXH64_endian_align host input len seed endian align =
     (let (h64, p) =
        (if 32 \<le> len
         then (let (v, p, n) = XXH64_stripes host endian align (XXH64_init seed) input len
               in (XXH64_converge v, p))
         else (seed + PRIME64_5, input));
          h64 = h64 + of_nat len
      in XXH64_finalize host h64 p len endian align)"

text \<open>
  \<open>XXH_FORCE_ALIGN_CHECK\<close> is 0 on x86, so the unaligned branches are taken; the aligned ones
  compute the same reads (\<open>XXH64_alignment\<close> below).
\<close>

definition XXH64 :: "XXH_endianess \<Rightarrow> byte list \<Rightarrow> nat \<Rightarrow> u64 \<Rightarrow> u64" where
  "XXH64 host input len seed =
     (if endian_detected host = XXH_littleEndian
      then XXH64_endian_align host input len seed XXH_littleEndian XXH_unaligned
      else XXH64_endian_align host input len seed XXH_bigEndian XXH_unaligned)"

section \<open>Independence of host and alignment\<close>

lemma readLE32_align_eq: "XXH_readLE32_align host p endian align = XXH_readLE32_align host p endian XXH_unaligned"
  by (cases align) (simp_all add: XXH_readLE32_align_def)

lemma readLE64_align_eq: "XXH_readLE64_align host p endian align = XXH_readLE64_align host p endian XXH_unaligned"
  by (cases align) (simp_all add: XXH_readLE64_align_def)

lemma snd_PROCESS [simp]:
  "snd (PROCESS1_64 s) = drop 1 (snd s)"
  "snd (PROCESS4_64 host endian align s) = drop 4 (snd s)"
  "snd (PROCESS8_64 host endian align s) = drop 8 (snd s)"
  by (simp_all add: PROCESS1_64_def PROCESS4_64_def PROCESS8_64_def Let_def split: prod.splits)

text \<open>The reads of the model on a little-endian host, to which every host comes down.\<close>

definition P4 :: "u64 \<times> byte list \<Rightarrow> u64 \<times> byte list" where
  "P4 = PROCESS4_64 XXH_littleEndian XXH_littleEndian XXH_unaligned"

definition P8 :: "u64 \<times> byte list \<Rightarrow> u64 \<times> byte list" where
  "P8 = PROCESS8_64 XXH_littleEndian XXH_littleEndian XXH_unaligned"

lemma snd_P [simp]: "snd (P4 s) = drop 4 (snd s)" "snd (P8 s) = drop 8 (snd s)"
  by (simp_all add: P4_def P8_def)

lemma PROCESS4_host: "4 \<le> length (snd s) \<Longrightarrow> PROCESS4_64 host host align s = P4 s"
  by (cases s) (simp add: P4_def PROCESS4_64_def)

lemma PROCESS8_host: "8 \<le> length (snd s) \<Longrightarrow> PROCESS8_64 host host align s = P8 s"
  by (cases s) (simp add: P8_def PROCESS8_64_def)

text \<open>The plain tail loop: eight bytes while there are eight, then four, then single bytes.\<close>

fun tail64 :: "nat \<Rightarrow> u64 \<times> byte list \<Rightarrow> u64 \<times> byte list" where
  "tail64 n s =
     (if 8 \<le> n then tail64 (n - 8) (P8 s)
      else if 4 \<le> n then tail64 (n - 4) (P4 s)
      else if 1 \<le> n then tail64 (n - 1) (PROCESS1_64 s)
      else s)"

declare tail64.simps [simp del]

lemma tail64_unfold:
  "8 \<le> n \<Longrightarrow> tail64 n s = tail64 (n - 8) (P8 s)"
  "4 \<le> n \<Longrightarrow> n < 8 \<Longrightarrow> tail64 n s = tail64 (n - 4) (P4 s)"
  "1 \<le> n \<Longrightarrow> n < 4 \<Longrightarrow> tail64 n s = tail64 (n - 1) (PROCESS1_64 s)"
  "tail64 0 s = s"
  by (subst tail64.simps; simp)+

lemma less_32_cases:
  "(n::nat) < 32 \<Longrightarrow> n \<in> set [0, 1, 2, 3, 4, 5, 6, 7, 8, 9, 10, 11, 12, 13, 14, 15, 16, 17, 18, 19,
   20, 21, 22, 23, 24, 25, 26, 27, 28, 29, 30, 31]"
  by (simp add: numeral_eq_Suc less_Suc_eq)

lemma and_31: "(n::nat) AND 31 = n mod 32"
  using take_bit_eq_mask [of 5 n] by (simp add: take_bit_eq_mod mask_numeral)

lemma switch_eq_tail64:
  assumes "n < 32" and "n \<le> length (snd s)"
  shows "XXH64_switch host host align n s = tail64 n s"
proof -
  have "\<forall>n \<in> set [0, 1, 2, 3, 4, 5, 6, 7, 8, 9, 10, 11, 12, 13, 14, 15, 16, 17, 18, 19,
   20, 21, 22, 23, 24, 25, 26, 27, 28, 29, 30, 31]. n \<le> length (snd s) \<longrightarrow>
    XXH64_switch host host align n s = tail64 n s"
    by (simp add: XXH64_switch_def tail64_unfold PROCESS4_host PROCESS8_host)
  then show ?thesis using less_32_cases [OF assms(1)] assms(2) by blast
qed

lemma finalize_eq_tail64:
  assumes "len mod 32 \<le> length ptr"
  shows "XXH64_finalize host h64 ptr len host align = XXH64_avalanche (fst (tail64 (len mod 32) (h64, ptr)))"
  using assms by (simp add: XXH64_finalize_def and_31 switch_eq_tail64)

section \<open>The hash as a function of the input bytes alone\<close>

definition stripe64 :: "lanes64 \<Rightarrow> byte list \<Rightarrow> lanes64" where
  "stripe64 = XXH64_stripe XXH_littleEndian XXH_littleEndian XXH_unaligned"

fun absorb64 :: "lanes64 \<Rightarrow> byte list \<Rightarrow> lanes64" where
  "absorb64 v p = (if 32 \<le> length p then absorb64 (stripe64 v p) (drop 32 p) else v)"

declare absorb64.simps [simp del]

definition xxh64_bytes :: "u64 \<Rightarrow> byte list \<Rightarrow> u64" where
  "xxh64_bytes seed bs =
     (let n = length bs;
          h = (if 32 \<le> n then XXH64_converge (absorb64 (XXH64_init seed) bs) else seed + PRIME64_5)
      in XXH64_avalanche (fst (tail64 (n mod 32) (h + of_nat n, drop (32 * (n div 32)) bs))))"

lemma le_load_cong: "take n p = take n q \<Longrightarrow> le_load n p = le_load n q"
  by (metis le_load_take)

lemma take_eq_mono: "take n p = take n q \<Longrightarrow> m \<le> n \<Longrightarrow> take m p = take m q"
  by (metis min.absorb1 take_take)

lemma take_drop_eq: "take n p = take n q \<Longrightarrow> take (n - k) (drop k p) = take (n - k) (drop k q)"
  by (metis drop_take)

lemma stripe64_cong:
  assumes "take 32 p = take 32 q" and "32 \<le> length p" and "32 \<le> length q"
  shows "stripe64 v p = stripe64 v q"
proof -
  have "le_load 8 (drop k p) = le_load 8 (drop k q)" if "k \<le> 24" for k
    using take_eq_mono [OF take_drop_eq [OF assms(1), of k], of 8] that by (intro le_load_cong) simp
  from this [of 0] this [of 8] this [of 16] this [of 24] assms(2,3) show ?thesis
    by (cases v) (simp add: stripe64_def XXH64_stripe_def Let_def)
qed

lemma stripe_host:
  "32 \<le> length p \<Longrightarrow> XXH64_stripe host host align v p = stripe64 v p"
  by (cases v) (simp add: stripe64_def XXH64_stripe_def Let_def)

lemma block_div: "32 \<le> (n::nat) \<Longrightarrow> 32 * ((n - 32) div 32) + 32 = 32 * (n div 32)"
  by (simp add: le_div_geq)

lemma stripes_eq_absorb64:
  assumes "32 \<le> n" and "n \<le> length p"
  shows "XXH64_stripes host host align v p n = (absorb64 v (take n p), drop (32 * (n div 32)) p, n mod 32)"
  using assms
proof (induction n arbitrary: v p rule: less_induct)
  case (less n)
  have st: "XXH64_stripe host host align v p = stripe64 v (take n p)"
    using less.prems by (simp add: stripe_host min_def cong: stripe64_cong)
  have ab: "absorb64 v (take n p) = absorb64 (stripe64 v (take n p)) (take (n - 32) (drop 32 p))"
    using less.prems by (subst absorb64.simps) (simp add: drop_take)
  show ?case
  proof (cases "32 \<le> n - 32")
    case True
    have "XXH64_stripes host host align v p n =
        XXH64_stripes host host align (stripe64 v (take n p)) (drop 32 p) (n - 32)"
      using True by (subst XXH64_stripes.simps) (simp add: st)
    also have "\<dots> = (absorb64 (stripe64 v (take n p)) (take (n - 32) (drop 32 p)),
        drop (32 * ((n - 32) div 32)) (drop 32 p), (n - 32) mod 32)"
      using less.prems True by (intro less.IH) auto
    also have "\<dots> = (absorb64 v (take n p), drop (32 * (n div 32)) p, n mod 32)"
      unfolding ab drop_drop block_div [OF less.prems(1)] le_mod_geq [OF less.prems(1)] ..
    finally show ?thesis .
  next
    case False
    have "length (take (n - 32) (drop 32 p)) < 32" using False by simp
    then have ab': "absorb64 v (take n p) = stripe64 v (take n p)"
      by (subst ab, subst absorb64.simps) (simp only: not_le [symmetric] if_False)
    have "n div 32 = 1" "n mod 32 = n - 32" using False less.prems by (simp_all add: le_div_geq le_mod_geq)
    with False show ?thesis
      by (subst XXH64_stripes.simps) (simp only: st ab' Let_def if_False mult_1_right)
  qed
qed

lemma tail64_cong:
  assumes "take n p = take n q" and "n \<le> length p" and "n \<le> length q"
  shows "fst (tail64 n (h, p)) = fst (tail64 n (h, q))"
  using assms
proof (induction n arbitrary: h p q rule: less_induct)
  case (less n)
  have rd: "le_load k p = le_load k q" if "k \<le> n" for k
    using less.prems(1) that by (intro le_load_cong) (rule take_eq_mono)
  have rest: "take (n - k) (drop k p) = take (n - k) (drop k q)" for k
    using less.prems(1) by (rule take_drop_eq)
  have step: "fst (tail64 (n - k) (h', drop k p)) = fst (tail64 (n - k) (h', drop k q))"
    if "0 < k" "k \<le> n" for k h'
    using that less.prems rest by (intro less.IH) auto
  consider "8 \<le> n" | "4 \<le> n" "n < 8" | "1 \<le> n" "n < 4" | "n = 0" by linarith
  then show ?case
  proof cases
    case 1
    then show ?thesis using less.prems step [of 8] rd [of 8]
      by (simp add: tail64_unfold P8_def PROCESS8_64_def)
  next
    case 2
    then show ?thesis using less.prems step [of 4] rd [of 4]
      by (simp add: tail64_unfold P4_def PROCESS4_64_def)
  next
    case 3
    have "p ! 0 = q ! 0"
      using less.prems(1) 3 by (metis nth_take less_le_trans zero_less_one)
    moreover have "p \<noteq> []" "q \<noteq> []" using 3 less.prems by auto
    ultimately show ?thesis using 3 less.prems step [of 1]
      by (simp add: tail64_unfold PROCESS1_64_def byte_at_def Suc_le_eq)
  next
    case 4
    then show ?thesis by (simp add: tail64_unfold)
  qed
qed

theorem XXH64_eq_bytes:
  assumes "len \<le> length input"
  shows "XXH64 host input len seed = xxh64_bytes seed (take len input)"
proof -
  have le_mult: "len mod 32 \<le> length input - 32 * (len div 32)"
    using assms by (metis diff_le_mono minus_mult_div_eq_mod)
  have tl: "fst (tail64 (len mod 32) (h, drop (32 * (len div 32)) (take len input))) =
      fst (tail64 (len mod 32) (h, drop (32 * (len div 32)) input))" for h
    using assms le_mult by (intro tail64_cong) (simp_all add: drop_take minus_mult_div_eq_mod)
  have ea: "XXH64_endian_align host input len seed host align = xxh64_bytes seed (take len input)" for host align
  proof (cases "32 \<le> len")
    case True
    show ?thesis using True assms tl le_mult
      by (simp add: XXH64_endian_align_def xxh64_bytes_def stripes_eq_absorb64 finalize_eq_tail64 min_def Let_def)
  next
    case False
    then show ?thesis using assms tl
      by (simp add: XXH64_endian_align_def xxh64_bytes_def finalize_eq_tail64 min_def Let_def)
  qed
  show ?thesis by (cases host) (simp_all add: XXH64_def ea)
qed

lemma XXH64_host: "len \<le> length input \<Longrightarrow> XXH64 host input len seed = XXH64 host' input len seed"
  by (simp add: XXH64_eq_bytes)

text \<open>Rewrite rules that evaluate the hash of a short literal in the simplifier.\<close>

lemmas xxh64_eval =
  xxh64_bytes_def tail64.simps P4_def P8_def PROCESS1_64_def PROCESS4_64_def PROCESS8_64_def
  XXH64_avalanche_def XXH64_round_def XXH_rotl64_def PRIME64_defs byte_at_def

end
