(* ===== verification/XXHash32.thy ===== *)
theory XXHash32
  imports XXHMem
begin

text \<open>
  The one-shot 32-bit hash of \<open>xxhash.c\<close>: rounds, the switch of \<open>XXH32_finalize\<close> with its
  fall-through cases, the 16-byte stripe loop, and \<open>XXH32\<close>. All arithmetic is on 32-bit words, so it
  wraps as in C. The lemmas show what they show for the 64-bit hash: the value does not depend on the
  byte order of the host, the switch is the plain tail loop, and exactly \<open>len\<close> bytes are read.
\<close>

unbundle bit_operations_syntax

section \<open>Rounds\<close>

definition XXH_rotl32 :: "u32 \<Rightarrow> nat \<Rightarrow> u32" where
  "XXH_rotl32 x r = push_bit r x OR drop_bit (32 - r) x"

definition PRIME32_1 :: u32 where "PRIME32_1 = 2654435761"
definition PRIME32_2 :: u32 where "PRIME32_2 = 2246822519"
definition PRIME32_3 :: u32 where "PRIME32_3 = 3266489917"
definition PRIME32_4 :: u32 where "PRIME32_4 = 668265263"
definition PRIME32_5 :: u32 where "PRIME32_5 = 374761393"

lemmas PRIME32_defs = PRIME32_1_def PRIME32_2_def PRIME32_3_def PRIME32_4_def PRIME32_5_def

definition XXH32_round :: "u32 \<Rightarrow> u32 \<Rightarrow> u32" where
  "XXH32_round seed input =
     (let seed = seed + input * PRIME32_2;
          seed = XXH_rotl32 seed 13;
          seed = seed * PRIME32_1
      in seed)"

definition XXH32_avalanche :: "u32 \<Rightarrow> u32" where
  "XXH32_avalanche h32 =
     (let h32 = h32 XOR drop_bit 15 h32;
          h32 = h32 * PRIME32_2;
          h32 = h32 XOR drop_bit 13 h32;
          h32 = h32 * PRIME32_3;
          h32 = h32 XOR drop_bit 16 h32
      in h32)"

section \<open>The tail\<close>

definition PROCESS1 :: "u32 \<times> byte list \<Rightarrow> u32 \<times> byte list" where
  "PROCESS1 s =
     (let (h32, p) = s;
          h32 = h32 + ucast (byte_at p 0) * PRIME32_5;
          p = drop 1 p;
          h32 = XXH_rotl32 h32 11 * PRIME32_1
      in (h32, p))"

definition PROCESS4 ::
  "XXH_endianess \<Rightarrow> XXH_endianess \<Rightarrow> XXH_alignment \<Rightarrow> u32 \<times> byte list \<Rightarrow> u32 \<times> byte list" where
  "PROCESS4 host endian align s =
     (let (h32, p) = s;
          h32 = h32 + XXH_readLE32_align host p endian align * PRIME32_3;
          p = drop 4 p;
          h32 = XXH_rotl32 h32 17 * PRIME32_4
      in (h32, p))"

text \<open>The switch on \<open>len & 15\<close>: each case label runs the macros from it down to its return.\<close>

definition XXH32_switch ::
  "XXH_endianess \<Rightarrow> XXH_endianess \<Rightarrow> XXH_alignment \<Rightarrow> nat \<Rightarrow> u32 \<times> byte list \<Rightarrow> u32 \<times> byte list" where
  "XXH32_switch host endian align n s =
     (let p1 = PROCESS1; p4 = PROCESS4 host endian align
      in
       (if n = 12 then p4 (p4 (p4 s))
        else if n = 8 then p4 (p4 s)
        else if n = 4 then p4 s
        else if n = 13 then p1 (p4 (p4 (p4 s)))
        else if n = 9 then p1 (p4 (p4 s))
        else if n = 5 then p1 (p4 s)
        else if n = 14 then p1 (p1 (p4 (p4 (p4 s))))
        else if n = 10 then p1 (p1 (p4 (p4 s)))
        else if n = 6 then p1 (p1 (p4 s))
        else if n = 15 then p1 (p1 (p1 (p4 (p4 (p4 s)))))
        else if n = 11 then p1 (p1 (p1 (p4 (p4 s))))
        else if n = 7 then p1 (p1 (p1 (p4 s)))
        else if n = 3 then p1 (p1 (p1 s))
        else if n = 2 then p1 (p1 s)
        else if n = 1 then p1 s
        else s))"

definition XXH32_finalize ::
  "XXH_endianess \<Rightarrow> u32 \<Rightarrow> byte list \<Rightarrow> nat \<Rightarrow> XXH_endianess \<Rightarrow> XXH_alignment \<Rightarrow> u32" where
  "XXH32_finalize host h32 ptr len endian align =
     XXH32_avalanche (fst (XXH32_switch host endian align (len AND 15) (h32, ptr)))"

section \<open>The stripe loop and the hash\<close>

type_synonym lanes32 = "u32 \<times> u32 \<times> u32 \<times> u32"

definition XXH32_stripe ::
  "XXH_endianess \<Rightarrow> XXH_endianess \<Rightarrow> XXH_alignment \<Rightarrow> lanes32 \<Rightarrow> byte list \<Rightarrow> lanes32" where
  "XXH32_stripe host endian align v p =
     (let (v1, v2, v3, v4) = v;
          v1 = XXH32_round v1 (XXH_readLE32_align host p endian align); p = drop 4 p;
          v2 = XXH32_round v2 (XXH_readLE32_align host p endian align); p = drop 4 p;
          v3 = XXH32_round v3 (XXH_readLE32_align host p endian align); p = drop 4 p;
          v4 = XXH32_round v4 (XXH_readLE32_align host p endian align)
      in (v1, v2, v3, v4))"

text \<open>
  The \<open>do ... while (p < limit)\<close> loop with \<open>limit = bEnd - 15\<close>; \<open>n\<close> is the number of bytes from \<open>p\<close> to
  \<open>bEnd\<close>, so \<open>p < limit\<close> is \<open>15 < n\<close>. The result is the lanes, the cursor and the bytes left.
\<close>

function XXH32_stripes ::
  "XXH_endianess \<Rightarrow> XXH_endianess \<Rightarrow> XXH_alignment \<Rightarrow> lanes32 \<Rightarrow> byte list \<Rightarrow> nat \<Rightarrow>
   lanes32 \<times> byte list \<times> nat" where
  "XXH32_stripes host endian align v p n =
     (let v' = XXH32_stripe host endian align v p; p' = drop 16 p; n' = n - 16
      in if 15 < n' then XXH32_stripes host endian align v' p' n' else (v', p', n'))"
  by pat_completeness auto
termination
  by (relation "measure (\<lambda>(host, endian, align, v, p, n). n)") auto

declare XXH32_stripes.simps [simp del]

definition XXH32_init :: "u32 \<Rightarrow> lanes32" where
  "XXH32_init seed = (seed + PRIME32_1 + PRIME32_2, seed + PRIME32_2, seed + 0, seed - PRIME32_1)"

definition XXH32_converge :: "lanes32 \<Rightarrow> u32" where
  "XXH32_converge v =
     (let (v1, v2, v3, v4) = v
      in XXH_rotl32 v1 1 + XXH_rotl32 v2 7 + XXH_rotl32 v3 12 + XXH_rotl32 v4 18)"

definition XXH32_endian_align ::
  "XXH_endianess \<Rightarrow> byte list \<Rightarrow> nat \<Rightarrow> u32 \<Rightarrow> XXH_endianess \<Rightarrow> XXH_alignment \<Rightarrow> u32" where
  "XXH32_endian_align host input len seed endian align =
     (let (h32, p) =
        (if 16 \<le> len
         then (let (v, p, n) = XXH32_stripes host endian align (XXH32_init seed) input len
               in (XXH32_converge v, p))
         else (seed + PRIME32_5, input));
          h32 = h32 + of_nat len
      in XXH32_finalize host h32 p (len AND 15) endian align)"

text \<open>\<open>XXH_FORCE_ALIGN_CHECK\<close> is 0 on x86, so the unaligned branches are taken.\<close>

definition XXH32 :: "XXH_endianess \<Rightarrow> byte list \<Rightarrow> nat \<Rightarrow> u32 \<Rightarrow> u32" where
  "XXH32 host input len seed =
     (if endian_detected host = XXH_littleEndian
      then XXH32_endian_align host input len seed XXH_littleEndian XXH_unaligned
      else XXH32_endian_align host input len seed XXH_bigEndian XXH_unaligned)"

section \<open>The switch is the plain tail loop\<close>

lemma snd_PROCESS32 [simp]:
  "snd (PROCESS1 s) = drop 1 (snd s)" "snd (PROCESS4 host endian align s) = drop 4 (snd s)"
  by (simp_all add: PROCESS1_def PROCESS4_def Let_def split: prod.splits)

text \<open>Four bytes at a time on a little-endian host, to which every host comes down.\<close>

definition Q4 :: "u32 \<times> byte list \<Rightarrow> u32 \<times> byte list" where
  "Q4 = PROCESS4 XXH_littleEndian XXH_littleEndian XXH_unaligned"

lemma snd_Q4 [simp]: "snd (Q4 s) = drop 4 (snd s)"
  by (simp add: Q4_def)

lemma PROCESS4_32_host: "4 \<le> length (snd s) \<Longrightarrow> PROCESS4 host host align s = Q4 s"
  by (cases s) (simp add: Q4_def PROCESS4_def)

fun tail32 :: "nat \<Rightarrow> u32 \<times> byte list \<Rightarrow> u32 \<times> byte list" where
  "tail32 n s =
     (if 4 \<le> n then tail32 (n - 4) (Q4 s)
      else if 1 \<le> n then tail32 (n - 1) (PROCESS1 s)
      else s)"

declare tail32.simps [simp del]

lemma tail32_unfold:
  "4 \<le> n \<Longrightarrow> tail32 n s = tail32 (n - 4) (Q4 s)"
  "1 \<le> n \<Longrightarrow> n < 4 \<Longrightarrow> tail32 n s = tail32 (n - 1) (PROCESS1 s)"
  "tail32 0 s = s"
  by (subst tail32.simps; simp)+

lemma less_16_cases:
  "(n::nat) < 16 \<Longrightarrow> n \<in> set [0, 1, 2, 3, 4, 5, 6, 7, 8, 9, 10, 11, 12, 13, 14, 15]"
  by (simp add: numeral_eq_Suc less_Suc_eq)

lemma and_15: "(n::nat) AND 15 = n mod 16"
  using take_bit_eq_mask [of 4 n] by (simp add: take_bit_eq_mod mask_numeral)

lemma switch_eq_tail32:
  assumes "n < 16" and "n \<le> length (snd s)"
  shows "XXH32_switch host host align n s = tail32 n s"
proof -
  have "\<forall>n \<in> set [0, 1, 2, 3, 4, 5, 6, 7, 8, 9, 10, 11, 12, 13, 14, 15]. n \<le> length (snd s) \<longrightarrow>
    XXH32_switch host host align n s = tail32 n s"
    by (simp add: XXH32_switch_def tail32_unfold PROCESS4_32_host)
  then show ?thesis using less_16_cases [OF assms(1)] assms(2) by blast
qed

lemma finalize_eq_tail32:
  assumes "len mod 16 \<le> length ptr"
  shows "XXH32_finalize host h32 ptr len host align = XXH32_avalanche (fst (tail32 (len mod 16) (h32, ptr)))"
  using assms by (simp add: XXH32_finalize_def and_15 switch_eq_tail32)

section \<open>The hash as a function of the input bytes alone\<close>

definition stripe32 :: "lanes32 \<Rightarrow> byte list \<Rightarrow> lanes32" where
  "stripe32 = XXH32_stripe XXH_littleEndian XXH_littleEndian XXH_unaligned"

fun absorb32 :: "lanes32 \<Rightarrow> byte list \<Rightarrow> lanes32" where
  "absorb32 v p = (if 16 \<le> length p then absorb32 (stripe32 v p) (drop 16 p) else v)"

declare absorb32.simps [simp del]

definition xxh32_bytes :: "u32 \<Rightarrow> byte list \<Rightarrow> u32" where
  "xxh32_bytes seed bs =
     (let n = length bs;
          h = (if 16 \<le> n then XXH32_converge (absorb32 (XXH32_init seed) bs) else seed + PRIME32_5)
      in XXH32_avalanche (fst (tail32 (n mod 16) (h + of_nat n, drop (16 * (n div 16)) bs))))"

lemma le_load_drop_cong:
  assumes "take n p = take n q" and "k + m \<le> n"
  shows "le_load m (drop k p) = le_load m (drop k q)"
proof -
  have "take (m + k) (take n p) = take (m + k) (take n q)" using assms(1) by simp
  then have "take m (drop k p) = take m (drop k q)" using assms(2) by (simp add: take_drop add.commute)
  then have "le_load m (take m (drop k p)) = le_load m (take m (drop k q))" by simp
  then show ?thesis by (simp only: le_load_take)
qed

lemma stripe32_cong:
  assumes "take 16 p = take 16 q" and "16 \<le> length p" and "16 \<le> length q"
  shows "stripe32 v p = stripe32 v q"
proof -
  have "le_load 4 (drop k p) = le_load 4 (drop k q)" if "k \<le> 12" for k
    using that by (intro le_load_drop_cong [OF assms(1)]) simp
  from this [of 0] this [of 4] this [of 8] this [of 12] assms(2,3) show ?thesis
    by (cases v) (simp add: stripe32_def XXH32_stripe_def Let_def)
qed

lemma stripe32_host: "16 \<le> length p \<Longrightarrow> XXH32_stripe host host align v p = stripe32 v p"
  by (cases v) (simp add: stripe32_def XXH32_stripe_def Let_def)

lemma absorb32_short: "length p < 16 \<Longrightarrow> absorb32 v p = v"
  by (subst absorb32.simps) simp

lemma absorb32_step: "16 \<le> length p \<Longrightarrow> absorb32 v p = absorb32 (stripe32 v p) (drop 16 p)"
  by (subst absorb32.simps) simp

lemma block_div16: "16 \<le> (n::nat) \<Longrightarrow> 16 * ((n - 16) div 16) + 16 = 16 * (n div 16)"
  by (simp add: le_div_geq)

lemma stripes_eq_absorb32:
  assumes "16 \<le> n" and "n \<le> length p"
  shows "XXH32_stripes host host align v p n = (absorb32 v (take n p), drop (16 * (n div 16)) p, n mod 16)"
  using assms
proof (induction n arbitrary: v p rule: less_induct)
  case (less n)
  have st: "XXH32_stripe host host align v p = stripe32 v (take n p)"
    using less.prems by (simp add: stripe32_host min_def cong: stripe32_cong)
  have ab: "absorb32 v (take n p) = absorb32 (stripe32 v (take n p)) (take (n - 16) (drop 16 p))"
    using less.prems by (subst absorb32_step) (simp_all add: drop_take)
  show ?case
  proof (cases "15 < n - 16")
    case True
    have "XXH32_stripes host host align v p n =
        XXH32_stripes host host align (stripe32 v (take n p)) (drop 16 p) (n - 16)"
      using True by (subst XXH32_stripes.simps) (simp add: st)
    also have "\<dots> = (absorb32 (stripe32 v (take n p)) (take (n - 16) (drop 16 p)),
        drop (16 * ((n - 16) div 16)) (drop 16 p), (n - 16) mod 16)"
      using less.prems True by (intro less.IH) auto
    also have "\<dots> = (absorb32 v (take n p), drop (16 * (n div 16)) p, n mod 16)"
      unfolding ab drop_drop block_div16 [OF less.prems(1)] le_mod_geq [OF less.prems(1)] ..
    finally show ?thesis .
  next
    case False
    then have "absorb32 v (take n p) = stripe32 v (take n p)" by (simp add: ab absorb32_short)
    moreover have "n div 16 = 1" "n mod 16 = n - 16"
      using False less.prems by (simp_all add: le_div_geq le_mod_geq)
    ultimately show ?thesis using False
      by (subst XXH32_stripes.simps) (simp only: st Let_def if_False mult_1_right)
  qed
qed

lemma tail32_cong:
  assumes "take n p = take n q" and "n \<le> length p" and "n \<le> length q"
  shows "fst (tail32 n (h, p)) = fst (tail32 n (h, q))"
  using assms
proof (induction n arbitrary: h p q rule: less_induct)
  case (less n)
  have step: "fst (tail32 (n - k) (h', drop k p)) = fst (tail32 (n - k) (h', drop k q))"
    if "0 < k" "k \<le> n" for k h'
    using that less.prems by (intro less.IH) (auto simp flip: drop_take)
  consider "4 \<le> n" | "1 \<le> n" "n < 4" | "n = 0" by linarith
  then show ?case
  proof cases
    case 1
    have "le_load 4 p = le_load 4 q" using le_load_drop_cong [OF less.prems(1), of 0 4] 1 by simp
    then show ?thesis using 1 less.prems step [of 4]
      by (simp add: tail32_unfold Q4_def PROCESS4_def)
  next
    case 2
    have "p ! 0 = q ! 0"
      using less.prems(1) 2 by (metis nth_take less_le_trans zero_less_one)
    moreover have "p \<noteq> []" "q \<noteq> []" using 2 less.prems by auto
    ultimately show ?thesis using 2 less.prems step [of 1]
      by (simp add: tail32_unfold PROCESS1_def byte_at_def Suc_le_eq)
  qed (simp add: tail32_unfold)
qed

lemma XXH32_eq_bytes:
  assumes "len \<le> length input"
  shows "XXH32 host input len seed = xxh32_bytes seed (take len input)"
proof -
  have le: "len mod 16 \<le> length input - 16 * (len div 16)"
    using assms by (metis diff_le_mono minus_mult_div_eq_mod)
  have tl: "fst (tail32 (len mod 16) (h, drop (16 * (len div 16)) (take len input))) =
      fst (tail32 (len mod 16) (h, drop (16 * (len div 16)) input))" for h
    using assms le by (intro tail32_cong) (simp_all add: drop_take minus_mult_div_eq_mod)
  have "XXH32_endian_align host input len seed host align = xxh32_bytes seed (take len input)" for host align
    using assms tl le
    by (cases "16 \<le> len")
      (simp_all add: XXH32_endian_align_def xxh32_bytes_def stripes_eq_absorb32 finalize_eq_tail32 min_def
        Let_def and_15)
  then show ?thesis by (cases host) (simp_all add: XXH32_def)
qed

lemmas xxh32_eval =
  xxh32_bytes_def tail32.simps Q4_def PROCESS1_def PROCESS4_def XXH32_avalanche_def XXH32_round_def
  XXH_rotl32_def PRIME32_defs byte_at_def

end
