(* ===== verification/XXHAgree.thy ===== *)
theory XXHAgree
  imports XXHSpec XXHash64 XXHash32
begin

text \<open>
  The model of \<open>xxhash.c\<close> computes the functions of \<open>XXHSpec\<close>: constant by constant, step by step, the
  stripes against the blocks, and the tail against the rest.
\<close>

unbundle bit_operations_syntax

lemma le_load_number: "n \<le> length p \<Longrightarrow> le_load n p = number (take n p)"
proof (induction n arbitrary: p)
  case (Suc n)
  then show ?case by (cases p) (simp_all add: number_def)
qed (simp add: number_def)

section \<open>XXH64\<close>

lemma PRIME64_spec:
  "PRIME64_1 = p64_1" "PRIME64_2 = p64_2" "PRIME64_3 = p64_3" "PRIME64_4 = p64_4" "PRIME64_5 = p64_5"
  by (simp_all add: PRIME64_defs p64_defs)

lemma rotl64_spec: "n < 64 \<Longrightarrow> XXH_rotl64 x n = word_rotl n x"
  by (simp add: XXH_rotl64_def rotl_shifts)

lemma round64_spec: "XXH64_round acc lane = mix64 acc lane"
  by (simp add: XXH64_round_def mix64_def rotl64_spec PRIME64_spec)

lemma mergeRound_spec: "XXH64_mergeRound acc v = merge64 acc v"
  by (simp add: XXH64_mergeRound_def merge64_def round64_spec PRIME64_spec)

lemma avalanche64_spec: "XXH64_avalanche h = final64 h"
  by (simp add: XXH64_avalanche_def final64_def PRIME64_spec Let_def)

lemma stripe64_spec:
  assumes "32 \<le> length p"
  shows "stripe64 (v1, v2, v3, v4) p =
    (mix64 v1 (of_nat (number (take 8 p))), mix64 v2 (of_nat (number (take 8 (drop 8 p)))),
     mix64 v3 (of_nat (number (take 8 (drop 16 p)))), mix64 v4 (of_nat (number (take 8 (drop 24 p)))))"
  using assms by (simp add: stripe64_def XXH64_stripe_def round64_spec le_load_number Let_def)

lemma absorb64_spec:
  "absorb64 (v1, v2, v3, v4) p = (a, b, c, d) \<Longrightarrow> blocks64 [v1, v2, v3, v4] p = [a, b, c, d]"
proof (induction "length p" arbitrary: v1 v2 v3 v4 p rule: less_induct)
  case less
  show ?case
  proof (cases "32 \<le> length p")
    case True
    obtain w1 w2 w3 w4 where w: "stripe64 (v1, v2, v3, v4) p = (w1, w2, w3, w4)" by (metis prod_cases4)
    have "absorb64 (w1, w2, w3, w4) (drop 32 p) = (a, b, c, d)"
      using less.prems True by (subst (asm) absorb64.simps) (simp add: w)
    then have "blocks64 [w1, w2, w3, w4] (drop 32 p) = [a, b, c, d]" using True by (intro less.hyps) simp_all
    then show ?thesis using w stripe64_spec [OF True, of v1 v2 v3 v4] True by (subst blocks64.simps) simp
  next
    case False
    then show ?thesis using less.prems by (simp add: absorb64.simps [of _ p] blocks64.simps [of _ p])
  qed
qed

lemma converge64_spec:
  "XXH64_converge (a, b, c, d) = foldl merge64 (sum_list (map2 word_rotl [1, 7, 12, 18] [a, b, c, d])) [a, b, c, d]"
  by (simp add: XXH64_converge_def mergeRound_spec rotl64_spec Let_def add.assoc)

lemma start64_spec:
  "(if 32 \<le> length bs then XXH64_converge (absorb64 (XXH64_init seed) bs) else seed + PRIME64_5) = start64 seed bs"
proof (cases "32 \<le> length bs")
  case True
  obtain a b c d where v: "absorb64 (XXH64_init seed) bs = (a, b, c, d)" by (metis prod_cases4)
  then have "blocks64 [seed + p64_1 + p64_2, seed + p64_2, seed, seed - p64_1] bs = [a, b, c, d]"
    by (intro absorb64_spec) (simp add: XXH64_init_def PRIME64_spec)
  then show ?thesis using True by (simp add: v start64_def converge64_spec del: foldl_Cons)
next
  case False
  then show ?thesis by (simp add: start64_def PRIME64_spec)
qed

lemma lane32_spec:
  assumes "4 \<le> length p"
  shows "ucast (of_nat (number (take 4 p)) :: u32) = (of_nat (number (take 4 p)) :: u64)"
proof -
  have "number (take 4 p) < 2 ^ 32" using le_load_less [of 4 p] assms by (simp add: le_load_number)
  then show ?thesis by (simp add: unsigned_of_nat take_bit_nat_eq_self)
qed

lemma tail64_spec: "n = length p \<Longrightarrow> fst (tail64 n (h, p)) = rest64 h p"
proof (induction n arbitrary: h p rule: less_induct)
  case (less n)
  consider "8 \<le> n" | "4 \<le> n" "n < 8" | "1 \<le> n" "n < 4" | "n = 0" by linarith
  then show ?case
  proof cases
    case 1
    then show ?thesis using less.prems less.IH [of "n - 8" "drop 8 p"]
      by (subst rest64.simps)
        (simp add: tail64_unfold P8_def PROCESS8_64_def round64_spec rotl64_spec PRIME64_spec le_load_number)
  next
    case 2
    then show ?thesis using less.prems less.IH [of "n - 4" "drop 4 p"]
      by (subst rest64.simps)
        (simp add: tail64_unfold P4_def PROCESS4_64_def rotl64_spec PRIME64_spec le_load_number lane32_spec)
  next
    case 3
    then obtain b q where p: "p = b # q" using less.prems by (cases p) auto
    then show ?thesis using 3 less.prems less.IH [of "n - 1" q]
      by (subst rest64.simps) (simp add: tail64_unfold PROCESS1_64_def rotl64_spec PRIME64_spec byte_at_def)
  next
    case 4
    then show ?thesis using less.prems by (simp add: tail64_unfold rest64.simps)
  qed
qed

lemma xxh64_bytes_spec: "xxh64_bytes seed bs = xxh64_spec seed bs"
  using start64_spec [of bs seed]
  by (simp add: xxh64_bytes_def xxh64_spec_def tail64_spec avalanche64_spec Let_def minus_mod_eq_mult_div
      flip: minus_mult_div_eq_mod)

section \<open>XXH32\<close>

lemma PRIME32_spec:
  "PRIME32_1 = p32_1" "PRIME32_2 = p32_2" "PRIME32_3 = p32_3" "PRIME32_4 = p32_4" "PRIME32_5 = p32_5"
  by (simp_all add: PRIME32_defs p32_defs)

lemma rotl32_spec: "n < 32 \<Longrightarrow> XXH_rotl32 x n = word_rotl n x"
  by (simp add: XXH_rotl32_def rotl_shifts)

lemma round32_spec: "XXH32_round acc lane = mix32 acc lane"
  by (simp add: XXH32_round_def mix32_def rotl32_spec PRIME32_spec)

lemma avalanche32_spec: "XXH32_avalanche h = final32 h"
  by (simp add: XXH32_avalanche_def final32_def PRIME32_spec Let_def)

lemma stripe32_spec:
  assumes "16 \<le> length p"
  shows "stripe32 (v1, v2, v3, v4) p =
    (mix32 v1 (of_nat (number (take 4 p))), mix32 v2 (of_nat (number (take 4 (drop 4 p)))),
     mix32 v3 (of_nat (number (take 4 (drop 8 p)))), mix32 v4 (of_nat (number (take 4 (drop 12 p)))))"
  using assms by (simp add: stripe32_def XXH32_stripe_def round32_spec le_load_number Let_def)

lemma absorb32_spec:
  "absorb32 (v1, v2, v3, v4) p = (a, b, c, d) \<Longrightarrow> blocks32 [v1, v2, v3, v4] p = [a, b, c, d]"
proof (induction "length p" arbitrary: v1 v2 v3 v4 p rule: less_induct)
  case less
  show ?case
  proof (cases "16 \<le> length p")
    case True
    obtain w1 w2 w3 w4 where w: "stripe32 (v1, v2, v3, v4) p = (w1, w2, w3, w4)" by (metis prod_cases4)
    have "absorb32 (w1, w2, w3, w4) (drop 16 p) = (a, b, c, d)"
      using less.prems True by (subst (asm) absorb32.simps) (simp add: w)
    then have "blocks32 [w1, w2, w3, w4] (drop 16 p) = [a, b, c, d]" using True by (intro less.hyps) simp_all
    then show ?thesis using w stripe32_spec [OF True, of v1 v2 v3 v4] True by (subst blocks32.simps) simp
  next
    case False
    then show ?thesis using less.prems by (simp add: absorb32_short blocks32.simps [of _ p])
  qed
qed

lemma converge32_spec:
  "XXH32_converge (a, b, c, d) = sum_list (map2 word_rotl [1, 7, 12, 18] [a, b, c, d])"
  by (simp add: XXH32_converge_def rotl32_spec add.assoc)

lemma start32_spec:
  "(if 16 \<le> length bs then XXH32_converge (absorb32 (XXH32_init seed) bs) else seed + PRIME32_5) = start32 seed bs"
proof (cases "16 \<le> length bs")
  case True
  obtain a b c d where v: "absorb32 (XXH32_init seed) bs = (a, b, c, d)" by (metis prod_cases4)
  then have "blocks32 [seed + p32_1 + p32_2, seed + p32_2, seed, seed - p32_1] bs = [a, b, c, d]"
    by (intro absorb32_spec) (simp add: XXH32_init_def PRIME32_spec)
  then show ?thesis using True by (simp add: v start32_def converge32_spec)
next
  case False
  then show ?thesis by (simp add: start32_def PRIME32_spec)
qed

lemma tail32_spec: "n = length p \<Longrightarrow> fst (tail32 n (h, p)) = rest32 h p"
proof (induction n arbitrary: h p rule: less_induct)
  case (less n)
  consider "4 \<le> n" | "1 \<le> n" "n < 4" | "n = 0" by linarith
  then show ?case
  proof cases
    case 1
    then show ?thesis using less.prems less.IH [of "n - 4" "drop 4 p"]
      by (subst rest32.simps)
        (simp add: tail32_unfold Q4_def PROCESS4_def rotl32_spec PRIME32_spec le_load_number)
  next
    case 2
    then obtain b q where p: "p = b # q" using less.prems by (cases p) auto
    then show ?thesis using 2 less.prems less.IH [of "n - 1" q]
      by (subst rest32.simps) (simp add: tail32_unfold PROCESS1_def rotl32_spec PRIME32_spec byte_at_def)
  next
    case 3
    then show ?thesis using less.prems by (simp add: tail32_unfold rest32.simps)
  qed
qed

lemma xxh32_bytes_spec: "xxh32_bytes seed bs = xxh32_spec seed bs"
  using start32_spec [of bs seed]
  by (simp add: xxh32_bytes_def xxh32_spec_def tail32_spec avalanche32_spec Let_def minus_mod_eq_mult_div
      flip: minus_mult_div_eq_mod)

end
