(* ===== verification/StripeStream.thy ===== *)
theory StripeStream
  imports Prelude
begin

text \<open>
  Both hashes of \<open>xxhash.c\<close> come in a streaming form: the input arrives in pieces, whole blocks
  are absorbed into the lanes and the rest waits in a buffer of one block. The locale below is the
  contract of such an update (\<open>blk\<close>: 32 bytes for XXH64, 16 for XXH32), and what follows from it:
  the state after any sequence of updates is the one that represents the concatenated input.
\<close>

section \<open>The state that represents an input\<close>

text \<open>
  A streaming state is the lanes, the buffer and the number of buffered bytes. It represents the
  input \<open>bs\<close> when the whole blocks of \<open>bs\<close> are absorbed and the rest is at the front of the buffer.
\<close>

definition represents ::
  "nat \<Rightarrow> ('v \<Rightarrow> byte list \<Rightarrow> 'v) \<Rightarrow> 'v \<Rightarrow> byte list \<Rightarrow> 'v \<times> byte list \<times> nat \<Rightarrow> bool" where
  "represents blk absorb v0 bs s =
     (let (v, mem, ms) = s
      in v = absorb v0 bs \<and> ms = length bs mod blk \<and> length mem = blk \<and>
         take ms mem = drop (blk * (length bs div blk)) bs)"

text \<open>The unabsorbed rest of an input.\<close>

definition leftover :: "nat \<Rightarrow> byte list \<Rightarrow> byte list" where
  "leftover blk bs = drop (blk * (length bs div blk)) bs"

lemma length_leftover [simp]: "length (leftover blk bs) = length bs mod blk"
  by (simp add: leftover_def minus_mult_div_eq_mod)

lemma leftover_short [simp]: "length bs < blk \<Longrightarrow> leftover blk bs = bs"
  by (simp add: leftover_def)

lemma leftover_block: "0 < blk \<Longrightarrow> length a = blk \<Longrightarrow> leftover blk (a @ b) = leftover blk b"
  by (simp add: leftover_def div_add_self1)

lemma leftover_append:
  assumes "0 < blk"
  shows "leftover blk (a @ b) = leftover blk (leftover blk a @ b)"
proof (induction "length a" arbitrary: a rule: less_induct)
  case less
  show ?case
  proof (cases "length a < blk")
    case False
    have "leftover blk (a @ b) = leftover blk (drop blk a @ b)"
      using leftover_block [OF assms, of "take blk a" "drop blk a @ b"] False by simp
    moreover have "leftover blk a = leftover blk (drop blk a)"
      using leftover_block [OF assms, of "take blk a" "drop blk a"] False by simp
    ultimately show ?thesis using less [of "drop blk a"] False assms by auto
  qed simp
qed

lemma leftover_Nil [simp]: "blk dvd length bs \<Longrightarrow> leftover blk bs = []"
  by (simp flip: length_0_conv)

lemma take_write_at_0: "length d \<le> length mem \<Longrightarrow> take (length d) (write_at mem 0 d) = d"
  by (simp add: write_at_def)

lemma take_write_at_end:
  "ms + length d \<le> length mem \<Longrightarrow> take (ms + length d) (write_at mem ms d) = take ms mem @ d"
  by (simp add: write_at_def)

section \<open>The contract\<close>

locale stripe_stream =
  fixes blk :: nat
    and absorb :: "'v \<Rightarrow> byte list \<Rightarrow> 'v"
    and upd :: "'v \<times> byte list \<times> nat \<Rightarrow> byte list \<Rightarrow> 'v \<times> byte list \<times> nat"
  assumes blk_pos: "0 < blk"
    and absorb_short: "length p < blk \<Longrightarrow> absorb v p = v"
    and absorb_block: "length a = blk \<Longrightarrow> absorb v (a @ b) = absorb (absorb v a) b"
    and upd_fill: "length mem = blk \<Longrightarrow> ms + length d < blk \<Longrightarrow>
      upd (v, mem, ms) d = (v, write_at mem ms d, ms + length d)"
    and upd_whole: "length mem = blk \<Longrightarrow> blk \<le> length d \<Longrightarrow>
      upd (v, mem, 0) d =
        (absorb v d, write_at mem 0 (leftover blk d), length (leftover blk d))"
    and upd_flush: "length mem = blk \<Longrightarrow> 0 < ms \<Longrightarrow> ms < blk \<Longrightarrow> blk \<le> ms + length d \<Longrightarrow>
      upd (v, mem, ms) d =
        (absorb (absorb v (take ms mem @ take (blk - ms) d)) (drop (blk - ms) d),
         write_at (take ms mem @ take (blk - ms) d) 0 (leftover blk (drop (blk - ms) d)),
         length (leftover blk (drop (blk - ms) d)))"
begin

lemma absorb_append: "absorb v (a @ b) = absorb (absorb v a) (leftover blk a @ b)"
proof (induction "length a" arbitrary: a v rule: less_induct)
  case less
  show ?case
  proof (cases "length a < blk")
    case True
    then show ?thesis by (simp add: absorb_short)
  next
    case False
    let ?h = "take blk a" and ?t = "drop blk a"
    have len: "length ?h = blk" using False by simp
    have "absorb v (a @ b) = absorb (absorb v ?h) (?t @ b)"
      using absorb_block [OF len, of v "?t @ b"] by simp
    also have "\<dots> = absorb (absorb (absorb v ?h) ?t) (leftover blk ?t @ b)"
      using False blk_pos by (intro less) auto
    also have "absorb (absorb v ?h) ?t = absorb v a"
      using absorb_block [OF len, of v ?t] by simp
    also have "leftover blk ?t = leftover blk a"
      using leftover_block [OF blk_pos len, of ?t] by simp
    finally show ?thesis .
  qed
qed

lemma upd_represents:
  assumes "represents blk absorb v0 bs s"
  shows "represents blk absorb v0 (bs @ d) (upd s d)"
proof -
  obtain v mem ms where s: "s = (v, mem, ms)" by (cases s)
  from assms s have v: "v = absorb v0 bs" and ms: "ms = length (leftover blk bs)"
    and mem: "length mem = blk" "take ms mem = leftover blk bs"
    by (auto simp: represents_def leftover_def minus_mult_div_eq_mod)
  have ms_lt: "ms < blk" using ms blk_pos by simp
  have rep: "represents blk absorb v0 (bs @ d) (v', mem', ms')"
    if "v' = absorb v (leftover blk bs @ d)" "length mem' = blk"
      "ms' = length (leftover blk (leftover blk bs @ d))" "take ms' mem' = leftover blk (leftover blk bs @ d)"
    for v' mem' ms'
    using that leftover_append [OF blk_pos, of bs d] absorb_append [of v0 bs d] v
    unfolding represents_def Let_def prod.case leftover_def [symmetric] by (simp add: mod_add_left_eq)
  consider (fill) "ms + length d < blk" | (whole) "ms = 0" "blk \<le> length d"
    | (flush) "0 < ms" "blk \<le> ms + length d" by linarith
  then show ?thesis
  proof cases
    case fill
    have short: "length (leftover blk bs @ d) < blk" using fill ms by simp
    have "take (ms + length d) (write_at mem ms d) = leftover blk bs @ d"
      by (subst take_write_at_end) (use fill mem in auto)
    then show ?thesis using short fill mem ms
      unfolding s upd_fill [OF mem(1) fill] by (intro rep) (simp_all add: absorb_short max_def)
  next
    case whole
    then have "leftover blk bs = []" using ms by (metis length_0_conv)
    moreover have "length d mod blk \<le> blk" using blk_pos by (simp add: less_imp_le)
    ultimately show ?thesis using mem take_write_at_0 [of "leftover blk d" mem]
      unfolding s whole(1) upd_whole [OF mem(1) whole(2)] by (intro rep) (simp_all add: max_def)
  next
    case flush
    let ?b = "take ms mem @ take (blk - ms) d" and ?r = "drop (blk - ms) d"
    have len: "length ?b = blk" using flush mem(1) ms_lt by simp
    have cat: "leftover blk bs @ d = ?b @ ?r" using mem by simp
    have le: "length (leftover blk ?r) \<le> length ?b"
      unfolding len length_leftover using blk_pos by (simp add: less_imp_le)
    have ab: "absorb v (leftover blk bs @ d) = absorb (absorb v ?b) ?r"
      unfolding cat by (rule absorb_block [OF len])
    have lo: "leftover blk (leftover blk bs @ d) = leftover blk ?r"
      unfolding cat by (rule leftover_block [OF blk_pos len])
    have lw: "length (write_at ?b 0 (leftover blk ?r)) = blk"
      using le len by (simp only: length_write_at max_def split: if_splits) auto
    show ?thesis
      unfolding s upd_flush [OF mem(1) flush(1) ms_lt flush(2)]
      by (rule rep) (simp_all only: ab lo lw take_write_at_0 [OF le])
  qed
qed

text \<open>Any sequence of updates represents the concatenation of its pieces.\<close>

lemma updates_represent:
  "represents blk absorb v0 bs s \<Longrightarrow> represents blk absorb v0 (bs @ concat ds) (foldl upd s ds)"
proof (induction ds arbitrary: bs s)
  case (Cons d ds)
  from Cons.IH [OF upd_represents [OF Cons.prems, of d]] show ?case by simp
qed simp

end

end
