(* ===== verification/XXHStream64.thy ===== *)
theory XXHStream64
  imports XXHash64 StripeStream
begin

text \<open>
  The streaming form of the 64-bit hash: \<open>XXH64_reset\<close>, \<open>XXH64_update\<close> and \<open>XXH64_digest\<close> over the
  state \<open>XXH64_state_t\<close>. The update is an instance of the contract of \<open>StripeStream\<close>, so a digest
  after any pieces is the one-shot hash of the whole input.
\<close>

unbundle bit_operations_syntax

section \<open>State and operations\<close>

text \<open>
  \<open>lanes\<close> holds \<open>v1\<close> to \<open>v4\<close>; \<open>mem64\<close> is the 32-byte buffer as bytes in memory order. The field
  \<open>reserved\<close> is never read or written.
\<close>

record XXH64_state =
  total_len :: u64
  lanes :: lanes64
  mem64 :: "byte list"
  memsize :: nat

definition XXH64_reset :: "XXH64_state \<Rightarrow> u64 \<Rightarrow> XXH_errorcode \<times> XXH64_state" where
  "XXH64_reset statePtr seed =
     (let state = \<lparr>total_len = 0, lanes = XXH64_init seed, mem64 = replicate 32 0, memsize = 0\<rparr>
      in (XXH_OK, state))"

text \<open>
  The three parts of the update's body, on the state, the cursor \<open>p\<close> and the bytes \<open>n\<close> left up to
  \<open>bEnd\<close>: complete the buffered block, run the stripe loop, buffer the rest.
\<close>

definition XXH64_flush ::
  "XXH_endianess \<Rightarrow> XXH_endianess \<Rightarrow> XXH64_state \<Rightarrow> byte list \<Rightarrow> nat \<Rightarrow> XXH64_state \<times> byte list \<times> nat" where
  "XXH64_flush host endian state p n =
     (if memsize state \<noteq> 0
      then let k = 32 - memsize state;
               mem = write_at (mem64 state) (memsize state) (take k p);
               v = XXH64_stripe host endian XXH_unaligned (lanes state) mem
           in (state\<lparr>lanes := v, mem64 := mem, memsize := 0\<rparr>, drop k p, n - k)
      else (state, p, n))"

definition XXH64_bulk ::
  "XXH_endianess \<Rightarrow> XXH_endianess \<Rightarrow> XXH64_state \<times> byte list \<times> nat \<Rightarrow> XXH64_state \<times> byte list \<times> nat" where
  "XXH64_bulk host endian s =
     (let (state, p, n) = s
      in if 32 \<le> n
         then let (v, p', n') = XXH64_stripes host endian XXH_unaligned (lanes state) p n
              in (state\<lparr>lanes := v\<rparr>, p', n')
         else (state, p, n))"

definition XXH64_stash :: "XXH64_state \<times> byte list \<times> nat \<Rightarrow> XXH64_state" where
  "XXH64_stash s =
     (let (state, p, n) = s
      in if 0 < n
         then state\<lparr>mem64 := write_at (mem64 state) 0 (take n p), memsize := n\<rparr>
         else state)"

text \<open>\<open>input = None\<close> is the NULL pointer, which \<open>XXH_ACCEPT_NULL_INPUT_POINTER = 0\<close> refuses.\<close>

definition XXH64_update_endian ::
  "XXH_endianess \<Rightarrow> XXH64_state \<Rightarrow> byte list option \<Rightarrow> nat \<Rightarrow> XXH_endianess \<Rightarrow> XXH_errorcode \<times> XXH64_state" where
  "XXH64_update_endian host state input len endian =
     (case input of
        None \<Rightarrow> (XXH_ERROR, state)
      | Some p \<Rightarrow>
          let state = state\<lparr>total_len := total_len state + of_nat len\<rparr>
          in if memsize state + len < 32
             then (XXH_OK, state\<lparr>mem64 := write_at (mem64 state) (memsize state) (take len p),
                                 memsize := memsize state + len\<rparr>)
             else (XXH_OK, XXH64_stash (XXH64_bulk host endian (XXH64_flush host endian state p len))))"

definition XXH64_update ::
  "XXH_endianess \<Rightarrow> XXH64_state \<Rightarrow> byte list option \<Rightarrow> nat \<Rightarrow> XXH_errorcode \<times> XXH64_state" where
  "XXH64_update host state_in input len =
     (if endian_detected host = XXH_littleEndian
      then XXH64_update_endian host state_in input len XXH_littleEndian
      else XXH64_update_endian host state_in input len XXH_bigEndian)"

definition XXH64_digest_endian :: "XXH_endianess \<Rightarrow> XXH64_state \<Rightarrow> XXH_endianess \<Rightarrow> u64" where
  "XXH64_digest_endian host state endian =
     (let (v1, v2, v3, v4) = lanes state;
          h64 = (if 32 \<le> total_len state then XXH64_converge (lanes state) else v3 + PRIME64_5);
          h64 = h64 + total_len state
      in XXH64_finalize host h64 (mem64 state) (unat (total_len state)) endian XXH_aligned)"

definition XXH64_digest :: "XXH_endianess \<Rightarrow> XXH64_state \<Rightarrow> u64" where
  "XXH64_digest host state_in =
     (if endian_detected host = XXH_littleEndian
      then XXH64_digest_endian host state_in XXH_littleEndian
      else XXH64_digest_endian host state_in XXH_bigEndian)"

text \<open>Hashing an input in pieces.\<close>

fun XXH64_updates :: "XXH_endianess \<Rightarrow> XXH64_state \<Rightarrow> byte list list \<Rightarrow> XXH64_state" where
  "XXH64_updates host st [] = st"
| "XXH64_updates host st (d # ds) =
     XXH64_updates host (snd (XXH64_update host st (Some d) (length d))) ds"

section \<open>The update satisfies the stripe contract\<close>

definition upd64 ::
  "XXH_endianess \<Rightarrow> lanes64 \<times> byte list \<times> nat \<Rightarrow> byte list \<Rightarrow> lanes64 \<times> byte list \<times> nat" where
  "upd64 host s d =
     (let (v, mem, ms) = s;
          st = snd (XXH64_update host \<lparr>total_len = 0, lanes = v, mem64 = mem, memsize = ms\<rparr> (Some d) (length d))
      in (lanes st, mem64 st, memsize st))"

lemmas update_parts = XXH64_flush_def XXH64_bulk_def XXH64_stash_def

lemma update_host: "XXH64_update host st p n = XXH64_update_endian host st p n host"
  by (cases host) (simp_all add: XXH64_update_def)

lemma absorb64_short: "length p < 32 \<Longrightarrow> absorb64 v p = v"
  by (subst absorb64.simps) simp

lemma absorb64_block: "length a = 32 \<Longrightarrow> absorb64 v (a @ b) = absorb64 (absorb64 v a) b"
proof -
  assume a: "length a = 32"
  have "absorb64 v (a @ b) = absorb64 (stripe64 v (a @ b)) b"
    using a by (subst absorb64.simps) simp
  moreover have "absorb64 v a = stripe64 v a"
    using a by (subst absorb64.simps) (simp add: absorb64_short)
  moreover have "stripe64 v (a @ b) = stripe64 v a"
    using a by (intro stripe64_cong) simp_all
  ultimately show ?thesis by simp
qed

lemma stripe_full: "length mem = 32 \<Longrightarrow> XXH64_stripe host host align v mem = absorb64 v mem"
  by (subst absorb64.simps) (simp add: stripe_host absorb64_short)

lemma stripes_whole:
  "32 \<le> length p \<Longrightarrow>
   XXH64_stripes host host align v p (length p) = (absorb64 v p, leftover 32 p, length p mod 32)"
  by (simp add: stripes_eq_absorb64 leftover_def)

lemma write_at_Nil [simp]: "write_at cs off [] = cs"
  by (simp add: write_at_def)

lemma write_at_fill: "ms \<le> length mem \<Longrightarrow> length mem = ms + length d \<Longrightarrow> write_at mem ms d = take ms mem @ d"
  by (auto simp: write_at_def)

interpretation s64: stripe_stream 32 absorb64 "upd64 host"
  for host :: XXH_endianess
proof
  fix mem d :: "byte list" and v :: lanes64 and ms :: nat
  assume mem: "length mem = 32"
  show "upd64 host (v, mem, ms) d = (v, write_at mem ms d, ms + length d)" if "ms + length d < 32"
    using that by (simp add: upd64_def update_host XXH64_update_endian_def)
  show "upd64 host (v, mem, 0) d = (absorb64 v d, write_at mem 0 (leftover 32 d), length (leftover 32 d))"
    if "32 \<le> length d"
    using that by (auto simp: upd64_def update_host XXH64_update_endian_def update_parts stripes_whole Let_def)
  show "upd64 host (v, mem, ms) d =
      (absorb64 (absorb64 v (take ms mem @ take (32 - ms) d)) (drop (32 - ms) d),
       write_at (take ms mem @ take (32 - ms) d) 0 (leftover 32 (drop (32 - ms) d)),
       length (leftover 32 (drop (32 - ms) d)))"
    if "0 < ms" "ms < 32" "32 \<le> ms + length d"
  proof -
    have fill: "write_at mem ms (take (32 - ms) d) = take ms mem @ take (32 - ms) d"
      using that mem by (intro write_at_fill) auto
    have len: "length (take ms mem @ take (32 - ms) d) = 32" using that mem by auto
    have rest: "length d - (32 - ms) = length (drop (32 - ms) d)" by simp
    show ?thesis using that
      unfolding upd64_def update_host XXH64_update_endian_def update_parts
      by (auto simp: Let_def fill stripe_full [OF len] rest stripes_whole absorb64_short
          simp del: length_drop)
  qed
qed (simp_all add: absorb64_short absorb64_block)

section \<open>Streaming equals one-shot\<close>

text \<open>The counter of the total length runs beside the rest of the state.\<close>

lemma flush_total_len:
  "XXH64_flush host endian (st\<lparr>total_len := t\<rparr>) p n =
   apfst (total_len_update (\<lambda>_. t)) (XXH64_flush host endian st p n)"
  by (simp add: XXH64_flush_def Let_def)

lemma bulk_total_len:
  "XXH64_bulk host endian (apfst (total_len_update (\<lambda>_. t)) s) =
   apfst (total_len_update (\<lambda>_. t)) (XXH64_bulk host endian s)"
  by (simp add: XXH64_bulk_def split: prod.splits)

lemma stash_total_len:
  "XXH64_stash (apfst (total_len_update (\<lambda>_. t)) s) = (XXH64_stash s)\<lparr>total_len := t\<rparr>"
  by (simp add: XXH64_stash_def split: prod.splits)

lemma update_total_len:
  "snd (XXH64_update_endian host (st\<lparr>total_len := t\<rparr>) (Some d) n endian) =
   (snd (XXH64_update_endian host st (Some d) n endian))\<lparr>total_len := t + of_nat n\<rparr>"
proof -
  have "st\<lparr>total_len := t + of_nat n\<rparr> = (st\<lparr>total_len := total_len st + of_nat n\<rparr>)\<lparr>total_len := t + of_nat n\<rparr>"
    by simp
  then show ?thesis
    by (simp add: XXH64_update_endian_def Let_def flush_total_len bulk_total_len stash_total_len)
qed

lemma snd_update64:
  assumes "st' = snd (XXH64_update host st (Some d) (length d))"
  shows "(lanes st', mem64 st', memsize st') = upd64 host (lanes st, mem64 st, memsize st) d"
    and "total_len st' = total_len st + of_nat (length d)"
proof -
  let ?z = "\<lparr>total_len = 0, lanes = lanes st, mem64 = mem64 st, memsize = memsize st\<rparr>"
  have "st = ?z\<lparr>total_len := total_len st\<rparr>" by simp
  then have "st' = (snd (XXH64_update_endian host ?z (Some d) (length d) host))
      \<lparr>total_len := total_len st + of_nat (length d)\<rparr>"
    unfolding assms update_host by (metis update_total_len)
  then show "(lanes st', mem64 st', memsize st') = upd64 host (lanes st, mem64 st, memsize st) d"
    and "total_len st' = total_len st + of_nat (length d)"
    by (simp_all add: upd64_def update_host Let_def)
qed

lemma updates_foldl:
  "(lanes st', mem64 st', memsize st') = foldl (upd64 host) (lanes st, mem64 st, memsize st) ds \<and>
   total_len st' = total_len st + of_nat (length (concat ds))"
  if "st' = XXH64_updates host st ds"
  using that
proof (induction ds arbitrary: st)
  case (Cons d ds)
  let ?s1 = "snd (XXH64_update host st (Some d) (length d))"
  from snd_update64 [of ?s1 host st d, OF refl] Cons.IH [of ?s1] Cons.prems show ?case
    by (simp add: algebra_simps)
qed simp

lemma reset_represents:
  "represents 32 absorb64 (XXH64_init seed) [] (XXH64_init seed, replicate 32 0, 0)"
  by (simp add: represents_def absorb64_short)

lemma digest_represents:
  assumes rep: "represents 32 absorb64 (XXH64_init seed) bs (lanes st, mem64 st, memsize st)"
    and tot: "total_len st = of_nat (length bs)" and bound: "length bs < 2 ^ 64"
  shows "XXH64_digest host st = xxh64_bytes seed bs"
proof -
  let ?n = "length bs"
  from rep have v: "lanes st = absorb64 (XXH64_init seed) bs" and ml: "length (mem64 st) = 32"
    and mem: "take (?n mod 32) (mem64 st) = leftover 32 bs"
    by (auto simp: represents_def leftover_def)
  have un: "unat (total_len st) = ?n"
    using bound by (simp add: tot unat_of_nat take_bit_eq_mod)
  then have ge: "32 \<le> total_len st \<longleftrightarrow> 32 \<le> ?n" by (simp add: word_le_nat_alt)
  have tl: "fst (tail64 (?n mod 32) (h, mem64 st)) = fst (tail64 (?n mod 32) (h, leftover 32 bs))" for h
    using ml mem by (intro tail64_cong) (simp_all add: less_imp_le)
  have seed: "snd (snd (XXH64_init seed)) = (seed, seed - PRIME64_1)" by (simp add: XXH64_init_def)
  have "XXH64_digest_endian host st host = xxh64_bytes seed bs" for host
    unfolding XXH64_digest_endian_def xxh64_bytes_def Let_def
    using un ge tl v ml seed
    by (cases "32 \<le> ?n")
       (auto simp: finalize_eq_tail64 tot leftover_def absorb64_short split: prod.splits)
  then show ?thesis by (cases host) (simp_all add: XXH64_digest_def)
qed

theorem digest_updates_eq_XXH64:
  assumes "length (concat ds) < 2 ^ 64"
  shows "XXH64_digest host (XXH64_updates host (snd (XXH64_reset st seed)) ds) =
         XXH64 host (concat ds) (length (concat ds)) seed"
proof -
  let ?st = "XXH64_updates host (snd (XXH64_reset st seed)) ds"
  have "represents 32 absorb64 (XXH64_init seed) ([] @ concat ds) (lanes ?st, mem64 ?st, memsize ?st)"
    using s64.updates_represent [OF reset_represents] updates_foldl [of ?st host "snd (XXH64_reset st seed)" ds, OF refl]
    by (simp add: XXH64_reset_def)
  moreover have "total_len ?st = of_nat (length (concat ds))"
    using updates_foldl [of ?st host "snd (XXH64_reset st seed)" ds, OF refl] by (simp add: XXH64_reset_def)
  ultimately show ?thesis using assms by (simp add: digest_represents XXH64_eq_bytes)
qed

end
