(* ===== verification/XXHStream32.thy ===== *)
theory XXHStream32
  imports XXHash32 XXHStream64
begin

text \<open>
  The streaming form of the 32-bit hash: \<open>XXH32_reset\<close>, \<open>XXH32_update\<close> and \<open>XXH32_digest\<close> over the
  state \<open>XXH32_state_t\<close>. The total length is kept modulo \<open>2 ^ 32\<close>, beside a flag for a length of at
  least 16, so that the digest is the one-shot hash for inputs of any length.
\<close>

unbundle bit_operations_syntax

section \<open>State and operations\<close>

text \<open>\<open>v32\<close> holds \<open>v1\<close> to \<open>v4\<close>; \<open>mem32\<close> is the 16-byte buffer as bytes in memory order.\<close>

record XXH32_state =
  total_len_32 :: u32
  large_len :: u32
  v32 :: lanes32
  mem32 :: "byte list"
  memsize32 :: nat

text \<open>Copying a state.\<close>

definition XXH32_copyState :: "XXH32_state \<Rightarrow> XXH32_state \<Rightarrow> XXH32_state" where
  "XXH32_copyState dstState srcState = srcState"

definition XXH32_reset :: "XXH32_state \<Rightarrow> u32 \<Rightarrow> XXH_errorcode \<times> XXH32_state" where
  "XXH32_reset statePtr seed =
     (let state = \<lparr>total_len_32 = 0, large_len = 0, v32 = XXH32_init seed, mem32 = replicate 16 0, memsize32 = 0\<rparr>
      in (XXH_OK, state))"

definition XXH32_flush ::
  "XXH_endianess \<Rightarrow> XXH_endianess \<Rightarrow> XXH32_state \<Rightarrow> byte list \<Rightarrow> nat \<Rightarrow> XXH32_state \<times> byte list \<times> nat" where
  "XXH32_flush host endian state p n =
     (if memsize32 state \<noteq> 0
      then let k = 16 - memsize32 state;
               mem = write_at (mem32 state) (memsize32 state) (take k p);
               v = XXH32_stripe host endian XXH_unaligned (v32 state) mem
           in (state\<lparr>v32 := v, mem32 := mem, memsize32 := 0\<rparr>, drop k p, n - k)
      else (state, p, n))"

definition XXH32_bulk ::
  "XXH_endianess \<Rightarrow> XXH_endianess \<Rightarrow> XXH32_state \<times> byte list \<times> nat \<Rightarrow> XXH32_state \<times> byte list \<times> nat" where
  "XXH32_bulk host endian s =
     (let (state, p, n) = s
      in if 16 \<le> n
         then let (v, p', n') = XXH32_stripes host endian XXH_unaligned (v32 state) p n
              in (state\<lparr>v32 := v\<rparr>, p', n')
         else (state, p, n))"

definition XXH32_stash :: "XXH32_state \<times> byte list \<times> nat \<Rightarrow> XXH32_state" where
  "XXH32_stash s =
     (let (state, p, n) = s
      in if 0 < n
         then state\<lparr>mem32 := write_at (mem32 state) 0 (take n p), memsize32 := n\<rparr>
         else state)"

text \<open>The counters at the head of the update.\<close>

definition XXH32_count :: "XXH32_state \<Rightarrow> nat \<Rightarrow> XXH32_state" where
  "XXH32_count state len =
     (let state = state\<lparr>total_len_32 := total_len_32 state + of_nat len\<rparr>
      in state\<lparr>large_len := large_len state OR (of_bool (16 \<le> len) OR of_bool (16 \<le> total_len_32 state))\<rparr>)"

definition XXH32_update_endian ::
  "XXH_endianess \<Rightarrow> XXH32_state \<Rightarrow> byte list option \<Rightarrow> nat \<Rightarrow> XXH_endianess \<Rightarrow> XXH_errorcode \<times> XXH32_state" where
  "XXH32_update_endian host state input len endian =
     (case input of
        None \<Rightarrow> (XXH_ERROR, state)
      | Some p \<Rightarrow>
          let state = XXH32_count state len
          in if memsize32 state + len < 16
             then (XXH_OK, state\<lparr>mem32 := write_at (mem32 state) (memsize32 state) (take len p),
                                 memsize32 := memsize32 state + len\<rparr>)
             else (XXH_OK, XXH32_stash (XXH32_bulk host endian (XXH32_flush host endian state p len))))"

definition XXH32_update ::
  "XXH_endianess \<Rightarrow> XXH32_state \<Rightarrow> byte list option \<Rightarrow> nat \<Rightarrow> XXH_errorcode \<times> XXH32_state" where
  "XXH32_update host state_in input len =
     (if endian_detected host = XXH_littleEndian
      then XXH32_update_endian host state_in input len XXH_littleEndian
      else XXH32_update_endian host state_in input len XXH_bigEndian)"

definition XXH32_digest_endian :: "XXH_endianess \<Rightarrow> XXH32_state \<Rightarrow> XXH_endianess \<Rightarrow> u32" where
  "XXH32_digest_endian host state endian =
     (let (v1, v2, v3, v4) = v32 state;
          h32 = (if large_len state \<noteq> 0 then XXH32_converge (v32 state) else v3 + PRIME32_5);
          h32 = h32 + total_len_32 state
      in XXH32_finalize host h32 (mem32 state) (memsize32 state) endian XXH_aligned)"

definition XXH32_digest :: "XXH_endianess \<Rightarrow> XXH32_state \<Rightarrow> u32" where
  "XXH32_digest host state_in =
     (if endian_detected host = XXH_littleEndian
      then XXH32_digest_endian host state_in XXH_littleEndian
      else XXH32_digest_endian host state_in XXH_bigEndian)"

fun XXH32_updates :: "XXH_endianess \<Rightarrow> XXH32_state \<Rightarrow> byte list list \<Rightarrow> XXH32_state" where
  "XXH32_updates host st [] = st"
| "XXH32_updates host st (d # ds) =
     XXH32_updates host (snd (XXH32_update host st (Some d) (length d))) ds"

section \<open>The update satisfies the stripe contract\<close>

definition core32 :: "XXH32_state \<Rightarrow> lanes32 \<times> byte list \<times> nat" where
  "core32 st = (v32 st, mem32 st, memsize32 st)"

definition upd32 ::
  "XXH_endianess \<Rightarrow> lanes32 \<times> byte list \<times> nat \<Rightarrow> byte list \<Rightarrow> lanes32 \<times> byte list \<times> nat" where
  "upd32 host s d =
     (let (v, mem, ms) = s;
          st = snd (XXH32_update host \<lparr>total_len_32 = 0, large_len = 0, v32 = v, mem32 = mem, memsize32 = ms\<rparr>
                 (Some d) (length d))
      in core32 st)"

lemmas update32_parts = XXH32_flush_def XXH32_bulk_def XXH32_stash_def XXH32_count_def

lemma update32_host: "XXH32_update host st p n = XXH32_update_endian host st p n host"
  by (cases host) (simp_all add: XXH32_update_def)

lemma absorb32_block: "length a = 16 \<Longrightarrow> absorb32 v (a @ b) = absorb32 (absorb32 v a) b"
proof -
  assume a: "length a = 16"
  have "absorb32 v (a @ b) = absorb32 (stripe32 v (a @ b)) b" "absorb32 v a = stripe32 v a"
    using a by (simp_all add: absorb32_step absorb32_short)
  moreover have "stripe32 v (a @ b) = stripe32 v a"
    using a by (intro stripe32_cong) simp_all
  ultimately show ?thesis by simp
qed

lemma stripe32_full: "length mem = 16 \<Longrightarrow> XXH32_stripe host host align v mem = absorb32 v mem"
  by (simp add: absorb32_step stripe32_host absorb32_short)

lemma stripes32_whole:
  "16 \<le> length p \<Longrightarrow>
   XXH32_stripes host host align v p (length p) = (absorb32 v p, leftover 16 p, length p mod 16)"
  by (simp add: stripes_eq_absorb32 leftover_def)

interpretation s32: stripe_stream 16 absorb32 "upd32 host"
  for host :: XXH_endianess
proof
  fix mem d :: "byte list" and v :: lanes32 and ms :: nat
  assume mem: "length mem = 16"
  show "upd32 host (v, mem, ms) d = (v, write_at mem ms d, ms + length d)" if "ms + length d < 16"
    using that by (simp add: upd32_def core32_def update32_host XXH32_update_endian_def XXH32_count_def Let_def)
  show "upd32 host (v, mem, 0) d = (absorb32 v d, write_at mem 0 (leftover 16 d), length (leftover 16 d))"
    if "16 \<le> length d"
    using that
    by (auto simp: upd32_def core32_def update32_host XXH32_update_endian_def update32_parts stripes32_whole Let_def)
  show "upd32 host (v, mem, ms) d =
      (absorb32 (absorb32 v (take ms mem @ take (16 - ms) d)) (drop (16 - ms) d),
       write_at (take ms mem @ take (16 - ms) d) 0 (leftover 16 (drop (16 - ms) d)),
       length (leftover 16 (drop (16 - ms) d)))"
    if "0 < ms" "ms < 16" "16 \<le> ms + length d"
  proof -
    have fill: "write_at mem ms (take (16 - ms) d) = take ms mem @ take (16 - ms) d"
      using that mem by (intro write_at_fill) auto
    have len: "length (take ms mem @ take (16 - ms) d) = 16" using that mem by auto
    have rest: "length d - (16 - ms) = length (drop (16 - ms) d)" by simp
    show ?thesis using that
      unfolding upd32_def core32_def update32_host XXH32_update_endian_def update32_parts
      by (auto simp: Let_def fill stripe32_full [OF len] rest stripes32_whole absorb32_short
          simp del: length_drop)
  qed
qed (simp_all add: absorb32_short absorb32_block)

section \<open>Streaming equals one-shot\<close>

text \<open>The counters run beside the rest of the state.\<close>


definition counters32 :: "XXH32_state \<Rightarrow> u32 \<times> u32" where
  "counters32 st = (total_len_32 st, large_len st)"

lemma parts_counters:
  "counters32 (fst (XXH32_flush host endian st p n)) = counters32 st"
  "counters32 (fst (XXH32_bulk host endian s)) = counters32 (fst s)"
  "counters32 (XXH32_stash s) = counters32 (fst s)"
  by (simp_all add: counters32_def XXH32_flush_def XXH32_bulk_def XXH32_stash_def Let_def split_def)

lemma stash32_counters:
  "total_len_32 (XXH32_stash (XXH32_bulk host endian (XXH32_flush host endian st p n))) = total_len_32 st"
  "large_len (XXH32_stash (XXH32_bulk host endian (XXH32_flush host endian st p n))) = large_len st"
  using parts_counters [unfolded counters32_def] by simp_all

lemma parts_core:
  "core32 s = core32 t \<Longrightarrow> map_prod core32 id (XXH32_flush host endian s p n) =
    map_prod core32 id (XXH32_flush host endian t p n)"
  "map_prod core32 id x = map_prod core32 id y \<Longrightarrow>
    map_prod core32 id (XXH32_bulk host endian x) = map_prod core32 id (XXH32_bulk host endian y)"
  "map_prod core32 id x = map_prod core32 id y \<Longrightarrow> core32 (XXH32_stash x) = core32 (XXH32_stash y)"
  by (auto simp: core32_def XXH32_flush_def XXH32_bulk_def XXH32_stash_def Let_def split_def map_prod_def)

lemma stash32_core:
  assumes "core32 s = core32 t"
  shows "core32 (XXH32_stash (XXH32_bulk host endian (XXH32_flush host endian s p n))) =
    core32 (XXH32_stash (XXH32_bulk host endian (XXH32_flush host endian t p n)))"
  by (intro parts_core assms)

lemma core32_count [simp]: "core32 (XXH32_count st n) = core32 st"
  by (simp add: core32_def XXH32_count_def Let_def)

lemma update32_core:
  assumes "core32 s = core32 t"
  shows "core32 (snd (XXH32_update host s (Some d) n)) = core32 (snd (XXH32_update host t (Some d) n))"
proof -
  have c: "core32 (XXH32_count s n) = core32 (XXH32_count t n)" using assms by simp
  then show ?thesis
    unfolding update32_host XXH32_update_endian_def Let_def
    using stash32_core [OF c] by (auto simp: core32_def)
qed

lemma update32_counters:
  "total_len_32 (snd (XXH32_update host st (Some d) n)) = total_len_32 (XXH32_count st n)"
  "large_len (snd (XXH32_update host st (Some d) n)) = large_len (XXH32_count st n)"
  unfolding update32_host XXH32_update_endian_def Let_def by (simp_all add: stash32_counters)

lemma snd_update32: "core32 (snd (XXH32_update host st (Some d) (length d))) = upd32 host (core32 st) d"
proof -
  let ?z = "\<lparr>total_len_32 = 0, large_len = 0, v32 = v32 st, mem32 = mem32 st, memsize32 = memsize32 st\<rparr>"
  have "core32 st = core32 ?z" by (simp add: core32_def)
  from update32_core [OF this] show ?thesis by (simp add: upd32_def core32_def Let_def)
qed

text \<open>What the counters say of an input of \<open>n\<close> bytes; it survives the wrap of the total.\<close>

definition counted :: "XXH32_state \<Rightarrow> nat \<Rightarrow> bool" where
  "counted st n \<longleftrightarrow> total_len_32 st = of_nat n \<and> (large_len st \<noteq> 0 \<longleftrightarrow> 16 \<le> n)"

lemma counted_count:
  assumes "counted st n"
  shows "counted (XXH32_count st k) (n + k)"
proof (cases "16 \<le> n \<or> 16 \<le> k")
  case True
  have "x OR (1 OR y) \<noteq> 0" "x OR y \<noteq> 0" if "x \<noteq> 0" for x y :: u32
    using that by (simp_all add: or_eq_0_iff)
  moreover have "x OR (1 OR y) \<noteq> 0" for x y :: u32 by (simp add: or_eq_0_iff)
  ultimately show ?thesis using True assms
    by (auto simp: counted_def XXH32_count_def Let_def)
next
  case False
  then have "n + k < 2 ^ LENGTH(32)" by simp
  then have "unat (of_nat (n + k) :: u32) = n + k" by (rule unat_of_nat_small)
  then have "16 \<le> (of_nat n + of_nat k :: u32) \<longleftrightarrow> 16 \<le> n + k" by (simp add: word_le_nat_alt)
  then show ?thesis using False assms by (simp add: counted_def XXH32_count_def Let_def)
qed

lemma updates32_foldl:
  "core32 (XXH32_updates host st ds) = foldl (upd32 host) (core32 st) ds"
  by (induction ds arbitrary: st) (simp_all add: snd_update32)

lemma counted_updates:
  "counted st n \<Longrightarrow> counted (XXH32_updates host st ds) (n + length (concat ds))"
proof (induction ds arbitrary: st n)
  case (Cons d ds)
  have "counted (snd (XXH32_update host st (Some d) (length d))) (n + length d)"
    using counted_count [OF Cons.prems, of "length d"] by (simp add: counted_def update32_counters)
  from Cons.IH [OF this] show ?case by (simp add: add.assoc)
qed simp

lemma digest32_represents:
  assumes rep: "represents 16 absorb32 (XXH32_init seed) bs (core32 st)" and cnt: "counted st (length bs)"
  shows "XXH32_digest host st = xxh32_bytes seed bs"
proof -
  let ?n = "length bs"
  from rep have v: "v32 st = absorb32 (XXH32_init seed) bs" and ml: "length (mem32 st) = 16"
    and ms: "memsize32 st = ?n mod 16" and mem: "take (?n mod 16) (mem32 st) = leftover 16 bs"
    by (auto simp: represents_def leftover_def core32_def)
  have tl: "fst (tail32 (?n mod 16) (h, mem32 st)) = fst (tail32 (?n mod 16) (h, leftover 16 bs))" for h
    using ml mem by (intro tail32_cong) (simp_all add: less_imp_le)
  have seed: "snd (snd (XXH32_init seed)) = (seed, seed - PRIME32_1)" by (simp add: XXH32_init_def)
  have "XXH32_digest_endian host st host = xxh32_bytes seed bs" for host
    unfolding XXH32_digest_endian_def xxh32_bytes_def Let_def
    using cnt tl v ml ms seed
    by (cases "16 \<le> ?n")
       (auto simp: finalize_eq_tail32 counted_def leftover_def absorb32_short split: prod.splits)
  then show ?thesis by (cases host) (simp_all add: XXH32_digest_def)
qed

lemma digest_updates_eq_XXH32:
  "XXH32_digest host (XXH32_updates host (snd (XXH32_reset st seed)) ds) =
   XXH32 host (concat ds) (length (concat ds)) seed"
proof -
  let ?r = "snd (XXH32_reset st seed)"
  have "represents 16 absorb32 (XXH32_init seed) [] (core32 ?r)"
    by (simp add: represents_def absorb32_short core32_def XXH32_reset_def)
  then have "represents 16 absorb32 (XXH32_init seed) ([] @ concat ds) (core32 (XXH32_updates host ?r ds))"
    unfolding updates32_foldl by (rule s32.updates_represent)
  moreover have "counted ?r 0" by (simp add: counted_def XXH32_reset_def)
  note counted_updates [OF this, of host ds]
  ultimately show ?thesis by (simp add: digest32_represents XXH32_eq_bytes)
qed

end
