(* ===== verification/XXHCanonical.thy ===== *)
theory XXHCanonical
  imports XXHStream32
begin

text \<open>
  The canonical form of a hash in \<open>xxhash.c\<close>: its bytes with the large digits first, as they are
  written to a file or sent to another machine. The lemmas show that the bytes are the same on every
  host, and that reading them back on any host gives the hash.
\<close>

unbundle bit_operations_syntax

definition XXH_VERSION_NUMBER :: nat where "XXH_VERSION_NUMBER = 0 * 100 * 100 + 6 * 100 + 5"

definition XXH_versionNumber :: nat where "XXH_versionNumber = XXH_VERSION_NUMBER"

definition XXH64_copyState :: "XXH64_state \<Rightarrow> XXH64_state \<Rightarrow> XXH64_state" where
  "XXH64_copyState dstState srcState = srcState"

section \<open>Conversions\<close>

definition XXH32_canonicalFromHash :: "XXH_endianess \<Rightarrow> u32 \<Rightarrow> byte list" where
  "XXH32_canonicalFromHash host hash =
     (let hash = (if XXH_isLittleEndian host \<noteq> 0 then XXH_swap32 hash else hash) in store32 host hash)"

definition XXH32_hashFromCanonical :: "XXH_endianess \<Rightarrow> byte list \<Rightarrow> u32" where
  "XXH32_hashFromCanonical host src = XXH_readBE32 host src"

definition XXH64_canonicalFromHash :: "XXH_endianess \<Rightarrow> u64 \<Rightarrow> byte list" where
  "XXH64_canonicalFromHash host hash =
     (let hash = (if XXH_isLittleEndian host \<noteq> 0 then XXH_swap64 hash else hash) in store64 host hash)"

definition XXH64_hashFromCanonical :: "XXH_endianess \<Rightarrow> byte list \<Rightarrow> u64" where
  "XXH64_hashFromCanonical host src = XXH_readBE64 host src"

section \<open>Byte order\<close>

text \<open>The bytes of a hash, large digits first.\<close>

definition big_digits :: "nat \<Rightarrow> 'a::len word \<Rightarrow> byte list" where
  "big_digits n x = map (\<lambda>k. ucast (drop_bit (8 * (n - 1 - k)) x)) [0..<n]"

lemma length_big_digits [simp]: "length (big_digits n x) = n"
  by (simp add: big_digits_def)

lemma bit_big_digits:
  "k < n \<Longrightarrow> r < 8 \<Longrightarrow> bit (big_digits n x ! k) r \<longleftrightarrow> bit x (8 * (n - 1 - k) + r)"
  by (simp add: big_digits_def bit_ucast_iff bit_drop_bit_eq)

lemma canonical32_digits: "XXH32_canonicalFromHash host h = big_digits 4 h"
proof (rule nth_equalityI)
  fix k assume "k < length (XXH32_canonicalFromHash host h)"
  then have k: "k < 4" by (cases host) (simp_all add: XXH32_canonicalFromHash_def store32_def Let_def)
  show "XXH32_canonicalFromHash host h ! k = big_digits 4 h ! k"
  proof (rule bit_word_eqI)
    fix r assume "r < LENGTH(8)"
    then have r: "r < 8" by simp
    show "bit (XXH32_canonicalFromHash host h ! k) r \<longleftrightarrow> bit (big_digits 4 h ! k) r"
      using k r bit_XXH_swap32 [OF k r, of h] nth_upt [of 0 "3 - k" 4]
      by (cases host)
        (simp_all add: XXH32_canonicalFromHash_def store32_def Let_def bit_big_digits bit_ucast_iff
          bit_drop_bit_eq rev_nth)
  qed
qed (cases host; simp add: XXH32_canonicalFromHash_def store32_def Let_def)

lemma canonical64_digits: "XXH64_canonicalFromHash host h = big_digits 8 h"
proof (rule nth_equalityI)
  fix k assume "k < length (XXH64_canonicalFromHash host h)"
  then have k: "k < 8" by (cases host) (simp_all add: XXH64_canonicalFromHash_def store64_def Let_def)
  show "XXH64_canonicalFromHash host h ! k = big_digits 8 h ! k"
  proof (rule bit_word_eqI)
    fix r assume "r < LENGTH(8)"
    then have r: "r < 8" by simp
    show "bit (XXH64_canonicalFromHash host h ! k) r \<longleftrightarrow> bit (big_digits 8 h ! k) r"
      using k r bit_XXH_swap64 [OF k r, of h] nth_upt [of 0 "7 - k" 8]
      by (cases host)
        (simp_all add: XXH64_canonicalFromHash_def store64_def Let_def bit_big_digits bit_ucast_iff
          bit_drop_bit_eq rev_nth)
  qed
qed (cases host; simp add: XXH64_canonicalFromHash_def store64_def Let_def)

lemma swap32_le_load:
  assumes "4 \<le> length p"
  shows "XXH_swap32 (of_nat (le_load 4 p)) = of_nat (be_load 4 p)"
proof (rule bit_word_eqI)
  fix i assume "i < LENGTH(32)"
  then obtain q r where i: "i = 8 * q + r" "r < 8" "q < 4"
    by (rule_tac i = i in byte_indexE) auto
  then have "8 * (3 - q) + r < 32" by linarith
  with i show "bit (XXH_swap32 (of_nat (le_load 4 p))) i = bit (of_nat (be_load 4 p) :: u32) i"
    using assms by (simp add: bit_XXH_swap32 bit_of_nat_iff bit_be_load bit_le_load)
qed

lemma swap64_le_load:
  assumes "8 \<le> length p"
  shows "XXH_swap64 (of_nat (le_load 8 p)) = of_nat (be_load 8 p)"
proof (rule bit_word_eqI)
  fix i assume "i < LENGTH(64)"
  then obtain q r where i: "i = 8 * q + r" "r < 8" "q < 8"
    by (rule_tac i = i in byte_indexE) auto
  then have "8 * (7 - q) + r < 64" by linarith
  with i show "bit (XXH_swap64 (of_nat (le_load 8 p))) i = bit (of_nat (be_load 8 p) :: u64) i"
    using assms by (simp add: bit_XXH_swap64 bit_of_nat_iff bit_be_load bit_le_load)
qed

lemma readBE32_host: "4 \<le> length p \<Longrightarrow> XXH_readBE32 host p = of_nat (be_load 4 p)"
  by (cases host) (simp_all add: XXH_readBE32_def XXH_read32_def swap32_le_load)

lemma readBE64_host: "8 \<le> length p \<Longrightarrow> XXH_readBE64 host p = of_nat (be_load 8 p)"
  by (cases host) (simp_all add: XXH_readBE64_def XXH_read64_def swap64_le_load)

lemma be_load_big_digits:
  assumes "8 * n = LENGTH('a::len)"
  shows "of_nat (be_load n (big_digits n (x :: 'a word))) = x"
proof (rule bit_word_eqI)
  fix i assume i: "i < LENGTH('a)"
  obtain q r where qr: "i = 8 * q + r" "r < 8" by (rule byte_indexE)
  then have q: "q < n" using i assms by linarith
  then have "n - 1 - (n - 1 - q) = q" "n - 1 - q < n" by linarith+
  then show "bit (of_nat (be_load n (big_digits n x)) :: 'a word) i \<longleftrightarrow> bit x i"
    using i qr q assms by (simp add: bit_of_nat_iff bit_be_load bit_big_digits)
qed

lemma canonical32_round_trip: "XXH32_hashFromCanonical host' (XXH32_canonicalFromHash host h) = h"
  by (simp add: XXH32_hashFromCanonical_def canonical32_digits readBE32_host be_load_big_digits)

lemma canonical64_round_trip: "XXH64_hashFromCanonical host' (XXH64_canonicalFromHash host h) = h"
  by (simp add: XXH64_hashFromCanonical_def canonical64_digits readBE64_host be_load_big_digits)

end
