(* ===== verification/CLib.thy ===== *)
theory CLib
  imports Prelude
begin

text \<open>
  The functions of the C library the sources use on strings and numbers: \<open>atol\<close>, \<open>atoll\<close> and
  \<open>atoi\<close> (as glibc defines them through \<open>strtol\<close>, saturating at the range of \<open>long\<close>), the decimal
  output of \<open>snprintf\<close>, the comparison of \<open>strcasecmp\<close> and \<open>toupper\<close> in the C locale. The main
  facts are the round trip between decimal output and \<open>atol\<close> and the range of \<open>atol\<close>.
\<close>

section \<open>Characters\<close>

definition isspace :: "byte \<Rightarrow> bool" where
  "isspace b \<longleftrightarrow> b = 32 \<or> (9 \<le> b \<and> b \<le> 13)"

definition isdigit :: "byte \<Rightarrow> bool" where
  "isdigit b \<longleftrightarrow> 48 \<le> b \<and> b \<le> 57"

definition toupper :: "byte \<Rightarrow> byte" where
  "toupper b = (if 97 \<le> b \<and> b \<le> 122 then b - 32 else b)"

definition tolower :: "byte \<Rightarrow> byte" where
  "tolower b = (if 65 \<le> b \<and> b \<le> 90 then b + 32 else b)"

text \<open>\<open>!strcasecmp(a, b)\<close>\<close>

definition strcase_eq :: "byte list \<Rightarrow> byte list \<Rightarrow> bool" where
  "strcase_eq a b \<longleftrightarrow> map tolower (cstr a) = map tolower (cstr b)"

section \<open>Reading decimal numbers\<close>

definition LONG_MAX :: int where "LONG_MAX = 2 ^ 63 - 1"
definition LONG_MIN :: int where "LONG_MIN = - (2 ^ 63)"

definition digits_value :: "byte list \<Rightarrow> int" where
  "digits_value ds = foldl (\<lambda>a d. a * 10 + (int (unat d) - 48)) 0 ds"

definition clamp_long :: "int \<Rightarrow> int" where
  "clamp_long v = max LONG_MIN (min LONG_MAX v)"

definition strtol10 :: "byte list \<Rightarrow> int" where
  "strtol10 s =
     (let s = dropWhile isspace s
      in case s of
           [] \<Rightarrow> 0
         | b # t \<Rightarrow>
             if b = 45 then clamp_long (- digits_value (takeWhile isdigit t))
             else if b = 43 then clamp_long (digits_value (takeWhile isdigit t))
             else clamp_long (digits_value (takeWhile isdigit s)))"

definition atol :: "byte list \<Rightarrow> int" where
  "atol s = strtol10 (cstr s)"

definition atoi :: "byte list \<Rightarrow> int" where
  "atoi s = to_int32 (strtol10 (cstr s))"

lemma clamp_long_range: "LONG_MIN \<le> clamp_long v \<and> clamp_long v \<le> LONG_MAX"
  by (simp add: clamp_long_def LONG_MIN_def LONG_MAX_def)

lemma clamp_long_id: "LONG_MIN \<le> v \<Longrightarrow> v \<le> LONG_MAX \<Longrightarrow> clamp_long v = v"
  by (simp add: clamp_long_def)

lemma atol_range: "LONG_MIN \<le> atol s \<and> atol s \<le> LONG_MAX"
  using clamp_long_range by (auto simp: atol_def strtol10_def Let_def LONG_MIN_def LONG_MAX_def split: list.splits)

section \<open>Writing decimal numbers\<close>

fun dec_nat :: "nat \<Rightarrow> byte list" where
  "dec_nat n = (if n < 10 then [of_nat (48 + n)] else dec_nat (n div 10) @ [of_nat (48 + n mod 10)])"

declare dec_nat.simps [simp del]

definition dec_int :: "int \<Rightarrow> byte list" where
  "dec_int v = (if v < 0 then 45 # dec_nat (nat (- v)) else dec_nat (nat v))"

text \<open>
  \<open>snprintf(buf, size, "%ld\n", v)\<close>: the would-be length, and the bytes of \<open>buf\<close> before the NUL.
\<close>

definition snprintf_ld :: "nat \<Rightarrow> int \<Rightarrow> nat \<times> byte list" where
  "snprintf_ld bufsize v = (let out = dec_int v @ [10] in (length out, take (bufsize - 1) out))"

lemma digit_byte: "d < 10 \<Longrightarrow> unat (of_nat (48 + d) :: byte) = 48 + d"
  by (rule unat_of_nat_small) simp

lemma uint_digit: "d < 10 \<Longrightarrow> uint (48 + of_nat d :: byte) = 48 + int d"
  using digit_byte [of d] by (metis of_nat_add of_nat_numeral uint_nat)

lemma isdigit_digit: "d < 10 \<Longrightarrow> isdigit (of_nat (48 + d))"
  using digit_byte [of d] by (simp add: isdigit_def word_le_nat_alt)

lemma dec_nat_digits: "b \<in> set (dec_nat n) \<Longrightarrow> isdigit b"
proof (induction n rule: dec_nat.induct)
  case (1 n)
  show ?case
  proof (cases "n < 10")
    case True
    with "1.prems" show ?thesis using isdigit_digit [of n] by (simp add: dec_nat.simps [of n])
  next
    case False
    with "1.prems" "1.IH" isdigit_digit [of "n mod 10"] show ?thesis by (auto simp: dec_nat.simps [of n])
  qed
qed

lemma dec_nat_nonempty [simp]: "dec_nat n \<noteq> []"
  by (subst dec_nat.simps) simp

lemma digits_value_dec_nat: "digits_value (dec_nat n) = int n"
proof (induction n rule: dec_nat.induct)
  case (1 n)
  show ?case
  proof (cases "n < 10")
    case True
    then show ?thesis using uint_digit [OF True] by (simp add: dec_nat.simps [of n] digits_value_def)
  next
    case False
    then show ?thesis using "1.IH" uint_digit [of "n mod 10"]
      by (simp add: dec_nat.simps [of n] digits_value_def zdiv_int zmod_int)
  qed
qed

lemma length_dec_nat: "n < 10 ^ k \<Longrightarrow> 0 < k \<Longrightarrow> length (dec_nat n) \<le> k"
proof (induction k arbitrary: n)
  case (Suc k)
  show ?case
  proof (cases "n < 10")
    case True
    then show ?thesis by (simp add: dec_nat.simps [of n])
  next
    case False
    have "n div 10 < 10 ^ k" using Suc.prems by (simp add: less_mult_imp_div_less ac_simps)
    moreover have "0 < k" using False Suc.prems by (cases k) auto
    ultimately have "length (dec_nat (n div 10)) \<le> k" by (rule Suc.IH)
    with False show ?thesis by (simp add: dec_nat.simps [of n])
  qed
qed simp

lemma digit_plain:
  assumes "isdigit b"
  shows "\<not> isspace b" and "b \<noteq> 0" and "b \<noteq> 45" and "b \<noteq> 43" and "b \<noteq> 32" and "b \<noteq> 10"
  using assms by (auto simp: isdigit_def isspace_def word_le_nat_alt)

lemma dec_int_no_nul: "b \<in> set (dec_int v) \<Longrightarrow> b \<noteq> 0 \<and> b \<noteq> 32 \<and> b \<noteq> 10"
  using digit_plain dec_nat_digits by (fastforce simp: dec_int_def split: if_splits)

lemma dropWhile_eq_self: "xs \<noteq> [] \<Longrightarrow> \<not> P (hd xs) \<Longrightarrow> dropWhile P xs = xs"
  by (cases xs) auto

theorem atol_dec_int:
  assumes "LONG_MIN \<le> v" and "v \<le> LONG_MAX"
  shows "atol (dec_int v) = v"
proof -
  have c: "cstr (dec_int v) = dec_int v" using dec_int_no_nul by (intro cstr_id) blast
  have tw: "takeWhile isdigit (dec_nat n) = dec_nat n" for n
    using dec_nat_digits by (auto simp: takeWhile_eq_all_conv)
  show ?thesis
  proof (cases "v < 0")
    case True
    then show ?thesis using assms c
      by (simp add: atol_def strtol10_def dec_int_def isspace_def tw digits_value_dec_nat clamp_long_id)
  next
    case False
    obtain b t where bt: "dec_nat (nat v) = b # t" by (cases "dec_nat (nat v)") auto
    then have d: "isdigit b" using dec_nat_digits [of b "nat v"] by simp
    have "takeWhile isdigit (b # t) = b # t" using tw [of "nat v"] bt by simp
    then show ?thesis using False assms c bt digit_plain [OF d] digits_value_dec_nat [of "nat v"]
      by (simp add: atol_def strtol10_def dec_int_def clamp_long_id)
  qed
qed

end
