(* ===== verification/Stdio.thy ===== *)
theory Stdio
  imports Prelude
begin

text \<open>
  What the sources use of the operating system and of \<open>stdio\<close>: a file system of regular files and
  directories, streams with their position, error flag and unwritten data, and a clock. A stream
  keeps the data of a write to itself until the next \<open>fseek\<close>, \<open>fflush\<close> or \<open>fclose\<close> on it (POSIX: a
  successful \<open>fseek\<close> writes buffered data to the file), so two streams on one file do not see each
  other's last write. Failing calls are driven by a list of faults: each fallible call takes the
  next entry, \<open>None\<close> for success and \<open>Some k\<close> for a failure after \<open>k\<close> bytes; an empty list means no
  more failures. The lemmas give the fault-free behaviour of each call.
\<close>

section \<open>State\<close>

text \<open>A node carries whether the process may read and write it (\<open>W_OK | R_OK\<close>).\<close>

datatype fnode = Reg bool "byte list" | Dir bool

record io =
  fs :: "byte list \<Rightarrow> fnode option"
  faults :: "nat option list"
  clock_us :: nat
  ticks :: "nat list"
  srv_dir :: "byte list"

text \<open>A stream; the memory of a \<open>FILE *\<close>.\<close>

record FILE =
  f_path :: "byte list"
  f_pos :: nat
  f_err :: bool
  f_pend :: "(nat \<times> byte list) option"

definition take_fault :: "'a io_scheme \<Rightarrow> nat option \<times> 'a io_scheme" where
  "take_fault s = (case faults s of [] \<Rightarrow> (None, s) | f # fl \<Rightarrow> (f, s\<lparr>faults := fl\<rparr>))"

section \<open>Paths, directories, memory and time\<close>

definition parent_of :: "byte list \<Rightarrow> byte list" where
  "parent_of p = rev (drop 1 (dropWhile (\<lambda>b. b \<noteq> 47) (rev p)))"

definition file_content :: "'a io_scheme \<Rightarrow> byte list \<Rightarrow> byte list" where
  "file_content s p = (case fs s p of Some (Reg _ c) \<Rightarrow> c | _ \<Rightarrow> [])"

definition put_content :: "byte list \<Rightarrow> byte list \<Rightarrow> 'a io_scheme \<Rightarrow> 'a io_scheme" where
  "put_content p c s =
     (case fs s p of Some (Reg a _) \<Rightarrow> s\<lparr>fs := (fs s)(p := Some (Reg a c))\<rparr> | _ \<Rightarrow> s)"

text \<open>\<open>mkdir\<close> returns 0, or -1 if it fails.\<close>

definition mkdir :: "byte list \<Rightarrow> 'a io_scheme \<Rightarrow> int \<times> 'a io_scheme" where
  "mkdir p s =
     (let (f, s) = take_fault s
      in if f \<noteq> None \<or> fs s p \<noteq> None \<or> fs s (parent_of p) \<noteq> Some (Dir True) then (-1, s)
         else (0, s\<lparr>fs := (fs s)(p := Some (Dir True))\<rparr>))"

text \<open>\<open>malloc\<close>, \<open>calloc\<close>, \<open>realloc\<close> and \<open>posix_memalign\<close>: whether the memory was there.\<close>

definition alloc_ok :: "'a io_scheme \<Rightarrow> bool \<times> 'a io_scheme" where
  "alloc_ok s = (let (f, s) = take_fault s in (f = None, s))"

text \<open>\<open>gettimeofday\<close>: seconds and microseconds; time passes between calls as \<open>ticks\<close> says.\<close>

definition gettimeofday :: "'a io_scheme \<Rightarrow> (nat \<times> nat) \<times> 'a io_scheme" where
  "gettimeofday s =
     (let (t, s) = (case ticks s of
                      [] \<Rightarrow> (clock_us s, s)
                    | d # ds \<Rightarrow> (clock_us s + d, s\<lparr>clock_us := clock_us s + d, ticks := ds\<rparr>))
      in ((t div 1000000, t mod 1000000), s))"

section \<open>Streams\<close>

datatype open_mode = R_plus | W_plus

definition new_stream :: "byte list \<Rightarrow> FILE" where
  "new_stream p = \<lparr>f_path = p, f_pos = 0, f_err = False, f_pend = None\<rparr>"

definition fopen :: "byte list \<Rightarrow> open_mode \<Rightarrow> 'a io_scheme \<Rightarrow> FILE option \<times> 'a io_scheme" where
  "fopen p m s =
     (let (f, s) = take_fault s
      in if f \<noteq> None then (None, s)
         else case fs s p of
                Some (Reg True c) \<Rightarrow>
                  (case m of
                     R_plus \<Rightarrow> (Some (new_stream p), s)
                   | W_plus \<Rightarrow> (Some (new_stream p), s\<lparr>fs := (fs s)(p := Some (Reg True []))\<rparr>))
              | Some _ \<Rightarrow> (None, s)
              | None \<Rightarrow>
                  (case m of
                     R_plus \<Rightarrow> (None, s)
                   | W_plus \<Rightarrow>
                       if fs s (parent_of p) = Some (Dir True)
                       then (Some (new_stream p), s\<lparr>fs := (fs s)(p := Some (Reg True []))\<rparr>)
                       else (None, s)))"

text \<open>The file as this stream sees it: the file's bytes under its own unwritten data.\<close>

definition stream_view :: "FILE \<Rightarrow> 'a io_scheme \<Rightarrow> byte list" where
  "stream_view f s =
     (case f_pend f of
        None \<Rightarrow> file_content s (f_path f)
      | Some (off, bs) \<Rightarrow> write_at (file_content s (f_path f)) off bs)"

definition fflush :: "FILE \<Rightarrow> 'a io_scheme \<Rightarrow> FILE \<times> 'a io_scheme" where
  "fflush f s =
     (case f_pend f of
        None \<Rightarrow> (f, s)
      | Some _ \<Rightarrow> (f\<lparr>f_pend := None\<rparr>, put_content (f_path f) (stream_view f s) s))"

definition fseek :: "FILE \<Rightarrow> int \<Rightarrow> 'a io_scheme \<Rightarrow> int \<times> FILE \<times> 'a io_scheme" where
  "fseek f off s =
     (let (fl, s) = take_fault s
      in if fl \<noteq> None \<or> off < 0 then (-1, f, s)
         else let (f, s) = fflush f s in (0, f\<lparr>f_pos := nat off\<rparr>, s))"

definition fread :: "FILE \<Rightarrow> nat \<Rightarrow> 'a io_scheme \<Rightarrow> byte list \<times> FILE \<times> 'a io_scheme" where
  "fread f n s =
     (let (fl, s) = take_fault s;
          bs = take n (drop (f_pos f) (stream_view f s));
          got = (case fl of None \<Rightarrow> bs | Some k \<Rightarrow> take k bs)
      in (got, f\<lparr>f_pos := f_pos f + length got, f_err := f_err f \<or> fl \<noteq> None\<rparr>, s))"

definition fwrite :: "FILE \<Rightarrow> byte list \<Rightarrow> 'a io_scheme \<Rightarrow> nat \<times> FILE \<times> 'a io_scheme" where
  "fwrite f bs s =
     (let (fl, s) = take_fault s;
          (f, s) = fflush f s;
          out = (case fl of None \<Rightarrow> bs | Some k \<Rightarrow> take k bs)
      in (length out,
          f\<lparr>f_pend := (if out = [] then None else Some (f_pos f, out)),
            f_pos := f_pos f + length out, f_err := f_err f \<or> fl \<noteq> None\<rparr>, s))"

definition ferror :: "FILE \<Rightarrow> bool" where
  "ferror f = f_err f"

definition ftell :: "FILE \<Rightarrow> nat" where
  "ftell f = f_pos f"

definition fclose :: "FILE \<Rightarrow> 'a io_scheme \<Rightarrow> 'a io_scheme" where
  "fclose f s = snd (fflush f s)"

section \<open>Fault-free behaviour\<close>

lemma take_fault_none [simp]: "faults s = [] \<Longrightarrow> take_fault s = (None, s)"
  by (simp add: take_fault_def)

lemma faults_after [simp]:
  "faults (put_content p c s) = faults s"
  by (simp add: put_content_def split: option.split fnode.split)

lemma snd_take_fault_fields:
  assumes "take_fault s = (f, s')"
  shows "fs s' = fs s" and "clock_us s' = clock_us s" and "ticks s' = ticks s" and "srv_dir s' = srv_dir s"
  using assms by (auto simp: take_fault_def split: list.splits)

lemma alloc_ok_none [simp]: "faults s = [] \<Longrightarrow> alloc_ok s = (True, s)"
  by (simp add: alloc_ok_def)

text \<open>A regular file the process may use.\<close>

definition is_file :: "'a io_scheme \<Rightarrow> byte list \<Rightarrow> bool" where
  "is_file s p \<longleftrightarrow> (\<exists>c. fs s p = Some (Reg True c))"

lemma is_fileE:
  assumes "is_file s p"
  obtains "fs s p = Some (Reg True (file_content s p))"
  using assms by (auto simp: is_file_def file_content_def)

lemma file_content_put [simp]:
  "is_file s p \<Longrightarrow> file_content (put_content p c s) q = (if q = p then c else file_content s q)"
  by (auto simp: is_file_def file_content_def put_content_def)

lemma is_file_put [simp]: "is_file (put_content p c s) q = is_file s q"
  by (auto simp: is_file_def put_content_def split: option.splits fnode.splits)

lemma fs_put_other: "q \<noteq> p \<Longrightarrow> fs (put_content p c s) q = fs s q"
  by (auto simp: put_content_def split: option.splits fnode.splits)

lemma fflush_view:
  assumes "is_file s (f_path f)"
  shows "stream_view (fst (fflush f s)) (snd (fflush f s)) = stream_view f s"
  using assms by (auto simp: fflush_def stream_view_def split: option.splits)

lemma stream_view_no_pend: "f_pend f = None \<Longrightarrow> stream_view f s = file_content s (f_path f)"
  by (simp add: stream_view_def)

lemma fflush_fields [simp]:
  "f_path (fst (fflush f s)) = f_path f" "f_err (fst (fflush f s)) = f_err f"
  "f_pos (fst (fflush f s)) = f_pos f" "f_pend (fst (fflush f s)) = None"
  "faults (snd (fflush f s)) = faults s" "is_file (snd (fflush f s)) q = is_file s q"
  by (auto simp: fflush_def split: option.splits)

end
