(* ===== verification/Helper.thy ===== *)
theory Helper
  imports CLib Stdio
begin

text \<open>
  \<open>helper.c\<close>: the checks on directories and files, the path of a key's data file, the clock and the
  \<open>-l\<close> address option. \<open>gen_path\<close> is modelled on the caller's zeroed 256-byte buffer; every \<open>memcpy\<close>
  into it is \<open>write_at\<close>, so writing past the buffer would show as a longer buffer. The lemmas give
  the path as a function of directory and hash, its injectivity, and the directory lengths for
  which the buffer stays within bounds and terminated.
\<close>

section \<open>Operations\<close>

definition strupr :: "byte list \<Rightarrow> byte list" where
  "strupr s = map toupper (cstr s)"

definition check_dir :: "byte list \<Rightarrow> 'a io_scheme \<Rightarrow> int" where
  "check_dir path s =
     (case fs s (cstr path) of
        Some (Dir acc) \<Rightarrow> (if acc then 0 else -1)
      | _ \<Rightarrow> -2)"

text \<open>POSIX \<open>dirname\<close>.\<close>

definition strip_slashes :: "byte list \<Rightarrow> byte list" where
  "strip_slashes p = rev (dropWhile (\<lambda>b. b = 47) (rev p))"

definition dirname :: "byte list \<Rightarrow> byte list" where
  "dirname path =
     (let p = cstr path; q = strip_slashes p
      in if p = [] then [46]
         else if q = [] then [47]
         else if 47 \<notin> set q then [46]
         else let d = strip_slashes (rev (dropWhile (\<lambda>b. b \<noteq> 47) (rev q)))
              in if d = [] then [47] else d)"

definition check_file :: "byte list \<Rightarrow> 'a io_scheme \<Rightarrow> int" where
  "check_file path s =
     (case fs s (cstr path) of
        Some (Reg acc _) \<Rightarrow> (if acc then 0 else -1)
      | _ \<Rightarrow>
          (let a = check_dir (dirname path) s
           in if a = -2 then -2 else if a = 0 then 1 else -1))"

text \<open>\<open>snprintf(hex, 17, "%016llx", hash)\<close>.\<close>

definition hexdigit :: "nat \<Rightarrow> byte" where
  "hexdigit n = (if n < 10 then of_nat (48 + n) else of_nat (87 + n))"

definition hex16 :: "u64 \<Rightarrow> byte list" where
  "hex16 h = map (\<lambda>i. hexdigit (unat (drop_bit (4 * (15 - i)) h AND 15))) [0..<16]"

text \<open>The step that \<open>gen_path\<close> does for each of the two directory levels.\<close>

definition ensure_dir :: "byte list \<Rightarrow> 'a io_scheme \<Rightarrow> int \<times> 'a io_scheme" where
  "ensure_dir path s =
     (let r = check_dir path s
      in if r = -2
         then (let (e, s) = mkdir (cstr path) s in if e \<noteq> 0 then (-2, s) else (0, s))
         else if r = -1 then (-1, s) else (0, s))"

definition gen_path :: "byte list \<Rightarrow> u64 \<Rightarrow> 'a io_scheme \<Rightarrow> int \<times> byte list \<times> 'a io_scheme" where
  "gen_path path hash s =
     (let offset = length (cstr (srv_dir s));
          hex = hex16 hash;
          path = write_at path 0 (take offset (srv_dir s));
          path = write_at path offset [47]; offset = offset + 1;
          path = write_at path offset (take 2 hex);
          (r, s) = ensure_dir path s
      in if r \<noteq> 0 then (r, path, s)
         else let offset = offset + 2;
                  path = write_at path offset [47]; offset = offset + 1;
                  path = write_at path offset (take 2 (drop 2 hex));
                  (r, s) = ensure_dir path s
              in if r \<noteq> 0 then (r, path, s)
                 else let offset = offset + 2;
                          path = write_at path offset [47]; offset = offset + 1;
                          path = write_at path offset (take 12 (drop 4 hex))
                      in (0, path, s))"

text \<open>The caller's \<open>char filename[256] = {0}\<close>.\<close>

definition path_buffer :: "byte list" where
  "path_buffer = replicate 256 0"

definition get_us :: "'a io_scheme \<Rightarrow> u64 \<times> 'a io_scheme" where
  "get_us s = (let ((sec, usec), s) = gettimeofday s in (of_nat sec * 1000000 + of_nat usec, s))"

section \<open>The listen address\<close>

text \<open>The part of \<open>server.socket\<close> the option sets; \<open>inet_addr\<close> is a parameter.\<close>

record sockaddr_in =
  sin_port :: nat
  s_addr :: u32

definition port_ok :: "byte list \<Rightarrow> bool" where
  "port_ok s \<longleftrightarrow> 0 < atoi s \<and> atoi s < 65535"

definition set_addr_port ::
    "(byte list \<Rightarrow> u32) \<Rightarrow> byte list \<Rightarrow> sockaddr_in \<Rightarrow> int \<times> sockaddr_in" where
  "set_addr_port inet_addr arg sa =
     (let s = cstr arg
      in case s of
           [] \<Rightarrow> (-1, sa)
         | b # port \<Rightarrow>
             if b = 58
             then (if port_ok port then (0, sa\<lparr>sin_port := nat (atoi port)\<rparr>) else (-1, sa))
             else if length s < 9 then (-1, sa)
             else (case dropWhile (\<lambda>b. b \<noteq> 58) (drop 7 s) of
                     [] \<Rightarrow> (0, sa\<lparr>s_addr := inet_addr s\<rparr>)
                   | _ # port \<Rightarrow>
                       if port_ok port
                       then (0, sa\<lparr>sin_port := nat (atoi port),
                                   s_addr := inet_addr (take 7 s @ takeWhile (\<lambda>b. b \<noteq> 58) (drop 7 s))\<rparr>)
                       else (-1, sa)))"

section \<open>Hexadecimal names\<close>

lemma length_hex16 [simp]: "length (hex16 h) = 16"
  by (simp add: hex16_def)

lemma nibble_less: "unat (drop_bit k (h :: u64) AND 15) < 16"
proof -
  have "drop_bit k h AND 15 = take_bit 4 (drop_bit k h)"
    by (simp add: take_bit_eq_mask mask_eq_exp_minus_1)
  also have "unat (take_bit 4 (drop_bit k h)) = take_bit 4 (unat (drop_bit k h))"
    by (rule unsigned_take_bit_eq)
  finally show ?thesis by (simp add: take_bit_eq_mod)
qed

lemma unat_hexdigit: "n < 16 \<Longrightarrow> unat (hexdigit n) = (if n < 10 then 48 + n else 87 + n)"
proof -
  assume "n < 16"
  then have "unat (of_nat (if n < 10 then 48 + n else 87 + n) :: byte) = (if n < 10 then 48 + n else 87 + n)"
    by (intro unat_of_nat_small) auto
  moreover have "hexdigit n = of_nat (if n < 10 then 48 + n else 87 + n)" by (simp add: hexdigit_def)
  ultimately show ?thesis by (simp only:)
qed

lemma hexdigit_inject:
  assumes "m < 16" and "n < 16" and "hexdigit m = hexdigit n"
  shows "m = n"
proof -
  have "(if m < 10 then 48 + m else 87 + m) = (if n < 10 then 48 + n else 87 + n)"
    using unat_hexdigit [OF assms(1)] unat_hexdigit [OF assms(2)] assms(3) by (simp only:)
  then show ?thesis using assms(1,2) by (auto split: if_splits)
qed

lemma hexdigit_plain: "n < 16 \<Longrightarrow> hexdigit n \<noteq> 0 \<and> hexdigit n \<noteq> 47"
  using unat_hexdigit [of n] by (auto split: if_splits)

lemma hex16_plain: "b \<in> set (hex16 h) \<Longrightarrow> b \<noteq> 0 \<and> b \<noteq> 47"
  using hexdigit_plain [OF nibble_less] by (auto simp: hex16_def)

text \<open>The file name determines the hash: distinct hashes never share a data file.\<close>

lemma hex16_inject:
  assumes "hex16 h = hex16 h'"
  shows "h = h'"
proof (rule bit_word_eqI)
  fix n assume n: "n < LENGTH(64)"
  let ?i = "15 - n div 4"
  have i: "?i < 16" "4 * (15 - ?i) = 4 * (n div 4)" using n by auto
  have "hex16 h ! ?i = hex16 h' ! ?i" using assms by simp
  then have "hexdigit (unat (drop_bit (4 * (n div 4)) h AND 15)) =
      hexdigit (unat (drop_bit (4 * (n div 4)) h' AND 15))"
    unfolding hex16_def using i by (simp only: nth_map_upt) simp
  then have "unat (drop_bit (4 * (n div 4)) h AND 15) = unat (drop_bit (4 * (n div 4)) h' AND 15)"
    by (rule hexdigit_inject [OF nibble_less nibble_less])
  then have eq: "drop_bit (4 * (n div 4)) h AND 15 = drop_bit (4 * (n div 4)) h' AND 15"
    by (simp only: word_unat_eq_iff)
  have m: "n mod 4 < 4" by simp
  have fifteen: "bit (15 :: u64) (n mod 4)"
  proof -
    have "(15 :: u64) = mask 4" by (simp add: mask_eq_exp_minus_1)
    then show ?thesis using m by (simp only: bit_mask_iff) simp
  qed
  have "bit (drop_bit (4 * (n div 4)) g AND 15) (n mod 4) = bit g n" for g :: u64
    using fifteen by (simp add: bit_and_iff bit_drop_bit_eq)
  with eq show "bit h n = bit h' n" by metis
qed

section \<open>The path of a data file\<close>

definition level1 :: "byte list \<Rightarrow> u64 \<Rightarrow> byte list" where
  "level1 d h = d @ [47] @ take 2 (hex16 h)"

definition level2 :: "byte list \<Rightarrow> u64 \<Rightarrow> byte list" where
  "level2 d h = level1 d h @ [47] @ take 2 (drop 2 (hex16 h))"

definition path_of :: "byte list \<Rightarrow> u64 \<Rightarrow> byte list" where
  "path_of d h = level2 d h @ [47] @ drop 4 (hex16 h)"

lemma length_paths [simp]:
  "length (level1 d h) = length d + 3" "length (level2 d h) = length d + 6"
  "length (path_of d h) = length d + 19"
  by (simp_all add: level1_def level2_def path_of_def)

lemma path_of_inject: "path_of d h = path_of d h' \<longleftrightarrow> h = h'"
proof
  assume "path_of d h = path_of d h'"
  then have t: "take 2 (hex16 h) = take 2 (hex16 h')"
    and m: "take 2 (drop 2 (hex16 h)) = take 2 (drop 2 (hex16 h'))"
    and e: "drop 4 (hex16 h) = drop 4 (hex16 h')"
    by (simp_all add: path_of_def level2_def level1_def)
  have split: "x = take 2 x @ take 2 (drop 2 x) @ drop 4 x" for x :: "byte list"
    using append_take_drop_id [of 2 x] append_take_drop_id [of 2 "drop 2 x"] by simp
  have "hex16 h = hex16 h'" by (subst (1 2) split) (simp only: t m e)
  then show "h = h'" by (rule hex16_inject)
qed simp

lemma paths_distinct:
  "path_of d h \<noteq> level1 d h'" "path_of d h \<noteq> level2 d h'" "level1 d h \<noteq> level2 d h'"
  "path_of d h \<noteq> d" "level1 d h \<noteq> d" "level2 d h \<noteq> d"
  by (metis length_paths add_left_cancel add_cancel_right_right numeral_eq_iff
      num.distinct num.inject zero_neq_numeral)+

lemma paths_no_nul:
  assumes "0 \<notin> set d"
  shows "0 \<notin> set (level1 d h)" and "0 \<notin> set (level2 d h)" and "0 \<notin> set (path_of d h)"
  using assms hex16_plain [of 0 h]
  by (auto simp: level1_def level2_def path_of_def dest!: in_set_takeD in_set_dropD)

lemma parent_of_append: "47 \<notin> set x \<Longrightarrow> parent_of (d @ 47 # x) = d"
  by (simp add: parent_of_def dropWhile_append)

lemma parent_paths:
  "parent_of (level1 d h) = d" "parent_of (level2 d h) = level1 d h" "parent_of (path_of d h) = level2 d h"
  using parent_of_append [of "take 2 (hex16 h)" d]
    parent_of_append [of "take 2 (drop 2 (hex16 h))" "level1 d h"]
    parent_of_append [of "drop 4 (hex16 h)" "level2 d h"] hex16_plain [of 47 h]
  by (auto simp: level1_def level2_def path_of_def dest!: in_set_takeD in_set_dropD)

section \<open>What gen_path does\<close>

lemma write_at_zeros:
  "write_at (p @ replicate k 0) (length p) bs = p @ bs @ replicate (k - length bs) 0"
  by (simp add: write_at_def)

lemma write_at_zeros_0: "write_at (replicate k 0) 0 bs = bs @ replicate (k - length bs) 0"
  using write_at_zeros [of "[]" k bs] by simp

lemma cstr_padded: "0 \<notin> set p \<Longrightarrow> cstr (p @ replicate k 0) = p"
  by (cases k) (auto simp: cstr_def takeWhile_append takeWhile_eq_all_conv)

lemma gen_path_buffer:
  assumes "0 \<notin> set (srv_dir s)"
  shows "gen_path path_buffer h s =
    (let d = srv_dir s; (r, s) = ensure_dir (level1 d h @ replicate (253 - length d) 0) s
     in if r \<noteq> 0 then (r, level1 d h @ replicate (253 - length d) 0, s)
        else let (r, s) = ensure_dir (level2 d h @ replicate (250 - length d) 0) s
             in if r \<noteq> 0 then (r, level2 d h @ replicate (250 - length d) 0, s)
                else (0, path_of d h @ replicate (237 - length d) 0, s))"
proof -
  let ?d = "srv_dir s" and ?x = "hex16 h"
  have c: "cstr ?d = ?d" using assms by (rule cstr_id)
  have w1: "write_at (write_at (write_at path_buffer 0 ?d) (length ?d) [47]) (length ?d + 1) (take 2 ?x)
      = level1 ?d h @ replicate (253 - length ?d) 0"
    using write_at_zeros [of ?d "256 - length ?d" "[47]"]
      write_at_zeros [of "?d @ [47]" "255 - length ?d" "take 2 ?x"]
    by (simp add: path_buffer_def write_at_zeros_0 level1_def)
  have w2: "write_at (write_at (level1 ?d h @ replicate (253 - length ?d) 0) (length ?d + 3) [47])
      (length ?d + 4) (take 2 (drop 2 ?x)) = level2 ?d h @ replicate (250 - length ?d) 0"
    using write_at_zeros [of "level1 ?d h" "253 - length ?d" "[47]"]
      write_at_zeros [of "level1 ?d h @ [47]" "252 - length ?d" "take 2 (drop 2 ?x)"]
    by (simp add: level2_def add.commute)
  have w3: "write_at (write_at (level2 ?d h @ replicate (250 - length ?d) 0) (length ?d + 6) [47])
      (length ?d + 7) (drop 4 ?x) = path_of ?d h @ replicate (237 - length ?d) 0"
    using write_at_zeros [of "level2 ?d h" "250 - length ?d" "[47]"]
      write_at_zeros [of "level2 ?d h @ [47]" "249 - length ?d" "drop 4 ?x"]
    by (simp add: path_of_def add.commute)
  have offsets: "length ?d + 1 + 2 = length ?d + 3" "length ?d + 3 + 1 = length ?d + 4"
    "length ?d + 4 + 2 = length ?d + 6" "length ?d + 6 + 1 = length ?d + 7"
    and slices: "take (length ?d) ?d = ?d" "take 12 (drop 4 ?x) = drop 4 ?x"
    by simp_all
  show ?thesis
    unfolding gen_path_def Let_def c offsets slices w1 w2 w3 by (rule refl)
qed

text \<open>
  Within the buffer: \<open>main\<close> accepts directories of up to 237 bytes, for which nothing is written past
  \<open>filename\<close>, whatever the calls return.
\<close>

lemma gen_path_length:
  assumes "0 \<notin> set (srv_dir s)" and "length (srv_dir s) \<le> 237"
  shows "length (fst (snd (gen_path path_buffer h s))) = 256"
  unfolding gen_path_buffer [OF assms(1)] using assms(2) by (simp add: Let_def split: prod.split)

lemma gen_path_terminated:
  assumes "0 \<notin> set (srv_dir s)" and "fst (gen_path path_buffer h s) = 0"
  shows "0 \<in> set (fst (snd (gen_path path_buffer h s))) \<longleftrightarrow> length (srv_dir s) \<le> 236"
  using assms(2) paths_no_nul [OF assms(1)] unfolding gen_path_buffer [OF assms(1)]
  by (auto simp: Let_def split: prod.splits if_splits)

text \<open>A data directory that is usable: readable and writable, and nothing in the way of its levels.\<close>

definition dirs_ready :: "'a io_scheme \<Rightarrow> bool" where
  "dirs_ready s \<longleftrightarrow>
     0 \<notin> set (srv_dir s) \<and> length (srv_dir s) \<le> 236 \<and> fs s (srv_dir s) = Some (Dir True) \<and>
     (\<forall>h. fs s (level1 (srv_dir s) h) \<in> {None, Some (Dir True)}) \<and>
     (\<forall>h. fs s (level2 (srv_dir s) h) \<in> {None, Some (Dir True)})"

definition mkdirs :: "u64 \<Rightarrow> 'a io_scheme \<Rightarrow> 'a io_scheme" where
  "mkdirs h s =
     s\<lparr>fs := (fs s)(level1 (srv_dir s) h \<mapsto> Dir True, level2 (srv_dir s) h \<mapsto> Dir True)\<rparr>"

lemma ensure_dir_ready:
  assumes "faults s = []" and "cstr buf = p" and "fs s p \<in> {None, Some (Dir True)}"
    and "fs s (parent_of p) = Some (Dir True)"
  shows "ensure_dir buf s = (0, s\<lparr>fs := (fs s)(p \<mapsto> Dir True)\<rparr>)"
  using assms by (auto simp: ensure_dir_def check_dir_def mkdir_def Let_def fun_upd_idem)

lemma gen_path_ready:
  assumes ready: "dirs_ready s" and ok: "faults s = []"
  shows "gen_path path_buffer h s =
    (0, path_of (srv_dir s) h @ replicate (237 - length (srv_dir s)) 0, mkdirs h s)"
proof -
  let ?d = "srv_dir s"
  have nul: "0 \<notin> set ?d" using ready by (simp add: dirs_ready_def)
  let ?s1 = "s\<lparr>fs := (fs s)(level1 ?d h \<mapsto> Dir True)\<rparr>"
  have e1: "ensure_dir (level1 ?d h @ replicate (253 - length ?d) 0) s = (0, ?s1)"
    using ready by (intro ensure_dir_ready ok cstr_padded paths_no_nul [OF nul])
      (simp_all add: dirs_ready_def parent_paths)
  have e2: "ensure_dir (level2 ?d h @ replicate (250 - length ?d) 0) ?s1 = (0, mkdirs h s)"
    using ready ensure_dir_ready [of ?s1 "level2 ?d h @ replicate (250 - length ?d) 0" "level2 ?d h"]
    by (simp add: ok cstr_padded paths_no_nul [OF nul] dirs_ready_def parent_paths mkdirs_def
        paths_distinct [symmetric])
  show ?thesis unfolding gen_path_buffer [OF nul] by (simp add: Let_def e1 e2)
qed

lemma cstr_path: "0 \<notin> set d \<Longrightarrow> cstr (path_of d h @ replicate k 0) = path_of d h"
  by (intro cstr_padded paths_no_nul)

lemma mkdirs_frame [simp]:
  "faults (mkdirs h s) = faults s" "srv_dir (mkdirs h s) = srv_dir s"
  "clock_us (mkdirs h s) = clock_us s" "ticks (mkdirs h s) = ticks s"
  "fs (mkdirs h s) (path_of (srv_dir s) h') = fs s (path_of (srv_dir s) h')"
  "is_file (mkdirs h s) (path_of (srv_dir s) h') = is_file s (path_of (srv_dir s) h')"
  "file_content (mkdirs h s) (path_of (srv_dir s) h') = file_content s (path_of (srv_dir s) h')"
  by (simp_all add: mkdirs_def paths_distinct is_file_def file_content_def)

lemma level_lengths_ne:
  "level1 d h \<noteq> level2 d h'" "level2 d h \<noteq> level1 d h'" "d \<noteq> level1 d h" "d \<noteq> level2 d h"
  by (metis length_paths add_left_cancel add_cancel_right_right numeral_eq_iff
      num.distinct num.inject zero_neq_numeral)+

lemma dirs_ready_mkdirs: "dirs_ready s \<Longrightarrow> dirs_ready (mkdirs h s)"
  by (simp add: dirs_ready_def mkdirs_def level_lengths_ne)

lemma mkdirs_parent:
  "dirs_ready s \<Longrightarrow> fs (mkdirs h s) (parent_of (path_of (srv_dir s) h)) = Some (Dir True)"
  by (simp add: mkdirs_def parent_paths)

section \<open>Clock and address\<close>

lemma get_us_frame [simp]:
  "fs (snd (get_us s)) = fs s" "faults (snd (get_us s)) = faults s" "srv_dir (snd (get_us s)) = srv_dir s"
  by (auto simp: get_us_def gettimeofday_def Let_def split: list.split)

lemma get_us_value: "fst (get_us s) = of_nat (clock_us (snd (get_us s)))"
proof -
  have "(of_nat (t div 1000000) * 1000000 + of_nat (t mod 1000000) :: u64) = of_nat t" for t
    by (metis div_mult_mod_eq of_nat_add of_nat_mult of_nat_numeral)
  then show ?thesis by (auto simp: get_us_def gettimeofday_def Let_def split: list.split)
qed

lemma get_us_mono: "clock_us s \<le> clock_us (snd (get_us s))"
  by (auto simp: get_us_def gettimeofday_def Let_def split: list.split)

lemma atoi_atol: "atoi s = to_int32 (atol s)"
  by (simp add: atoi_def atol_def)

lemma atoi_dec_nat: "n < 2 ^ 31 \<Longrightarrow> atoi (dec_nat n) = int n"
  using atol_dec_int [of "int n"] by (simp add: atoi_atol dec_int_def to_int32_id LONG_MIN_def LONG_MAX_def)

lemma cstr_dec_nat: "cstr (dec_nat n) = dec_nat n"
  using dec_int_no_nul [of 0 "int n"] by (intro cstr_id) (auto simp: dec_int_def)

lemma set_port:
  assumes "n < 2 ^ 31"
  shows "set_addr_port inet (58 # dec_nat n) sa =
    (if 0 < n \<and> n < 65535 then (0, sa\<lparr>sin_port := n\<rparr>) else (-1, sa))"
proof -
  have "cstr (58 # dec_nat n) = 58 # dec_nat n" using cstr_dec_nat [of n] by (simp add: cstr_def)
  then show ?thesis using atoi_dec_nat [OF assms] by (auto simp: set_addr_port_def port_ok_def)
qed

end
