(* ===== verification/FileTable.thy ===== *)
theory FileTable
  imports Helper XXHash64
begin

text \<open>
  \<open>file.c\<close>: the table of open data files, their hash chains and reference counts, eviction, and
  positioned reads and writes. A \<open>struct desc_table *\<close> is the index of its slot in \<open>descs\<close>, and
  \<open>NULL\<close> is \<open>None\<close>. The table lock and the descriptor locks make each operation one step, so the
  operations are functions on the whole state. \<open>lost\<close> holds the streams whose last pointer was
  overwritten; a \<open>d_fd\<close> of \<open>None\<close> is a \<open>FILE *\<close> that must not be used (never opened, or closed);
  \<open>crashed\<close> is set where the code uses a stream that is not there, and \<open>hung\<close> where
  the walk along a chain does not end.
\<close>

section \<open>State\<close>

definition DESC_TABLE_SIZE :: nat where "DESC_TABLE_SIZE = 8192"
definition DESC_HASH_TABLE_SIZE :: nat where "DESC_HASH_TABLE_SIZE = 65537"
definition DESC_HARD_LIMIT :: nat where "DESC_HARD_LIMIT = 0"

record desc_table =
  d_hash :: u64
  d_fd :: "FILE option"
  d_length :: nat
  d_last_access :: u64
  d_access_times :: u64
  d_created_at :: u64
  d_refs :: u32
  d_next :: "nat option"
  d_prev :: "nat option"

record world = io +
  descs :: "nat \<Rightarrow> desc_table"
  XXTABLE :: "nat \<Rightarrow> nat option"
  idx :: nat
  lost :: "FILE list"
  crashed :: bool
  hung :: bool

definition zero_desc :: desc_table where
  "zero_desc = \<lparr>d_hash = 0, d_fd = None, d_length = 0, d_last_access = 0, d_access_times = 0,
     d_created_at = 0, d_refs = 0, d_next = None, d_prev = None\<rparr>"

text \<open>The result of \<open>calloc\<close> is not checked: without memory the first access crashes.\<close>

definition init_file :: "world \<Rightarrow> world" where
  "init_file w =
     (let (ok, w) = alloc_ok w in if ok then w\<lparr>descs := (\<lambda>_. zero_desc)\<rparr> else w\<lparr>crashed := True\<rparr>)"

definition upd_desc :: "nat \<Rightarrow> (desc_table \<Rightarrow> desc_table) \<Rightarrow> world \<Rightarrow> world" where
  "upd_desc i f w = w\<lparr>descs := (descs w)(i := f (descs w i))\<rparr>"

text \<open>The head of the chain of a hash.\<close>

definition chain_id :: "u64 \<Rightarrow> nat" where
  "chain_id hash = unat hash mod DESC_HASH_TABLE_SIZE"

section \<open>Slots and eviction\<close>

definition close_file :: "nat \<Rightarrow> world \<Rightarrow> world" where
  "close_file i w =
     (case d_fd (descs w i) of
        None \<Rightarrow> w\<lparr>crashed := True\<rparr>
      | Some f \<Rightarrow> upd_desc i (\<lambda>d. d\<lparr>d_fd := None\<rparr>) (fclose f w))"

definition close_files :: "world \<Rightarrow> world" where
  "close_files w =
     fold (\<lambda>i w. if d_hash (descs w i) \<noteq> 0 then close_file i w else w) [0..<DESC_TABLE_SIZE] w"

text \<open>The scan of \<open>get_avalible_slot\<close>: a free slot, or the least recently used slot that is not in use.\<close>

function scan_slots :: "(nat \<Rightarrow> desc_table) \<Rightarrow> nat \<Rightarrow> u64 \<Rightarrow> nat option \<Rightarrow> nat + nat option" where
  "scan_slots ds i tmp lowest =
     (if i < DESC_TABLE_SIZE
      then (if d_hash (ds i) = 0 then Inl i
            else if d_refs (ds i) = 0 \<and> d_last_access (ds i) < tmp
            then scan_slots ds (i + 1) (d_last_access (ds i)) (Some i)
            else scan_slots ds (i + 1) tmp lowest)
      else Inr lowest)"
  by pat_completeness auto
termination by (relation "measure (\<lambda>(ds, i, _). DESC_TABLE_SIZE - i)") auto

declare scan_slots.simps [simp del]

definition unlink_desc :: "nat \<Rightarrow> world \<Rightarrow> world" where
  "unlink_desc l w =
     (let id = chain_id (d_hash (descs w l))
      in case d_prev (descs w l) of
           None \<Rightarrow>
             (case d_next (descs w l) of
                None \<Rightarrow> w\<lparr>XXTABLE := (XXTABLE w)(id := None)\<rparr>
              | Some n \<Rightarrow>
                  upd_desc n (\<lambda>d. d\<lparr>d_prev := None\<rparr>) (w\<lparr>XXTABLE := (XXTABLE w)(id := Some n)\<rparr>))
         | Some p \<Rightarrow> upd_desc p (\<lambda>d. d\<lparr>d_next := d_next (descs w l)\<rparr>) w)"

definition get_avalible_slot :: "world \<Rightarrow> int \<times> world" where
  "get_avalible_slot w =
     (let (tmp, w) = get_us w
      in case scan_slots (descs w) (idx w) tmp None of
           Inl i \<Rightarrow> (int i, w\<lparr>idx := i\<rparr>)
         | Inr lowest \<Rightarrow>
             (let w = w\<lparr>idx := 0\<rparr>
              in if DESC_HARD_LIMIT \<noteq> 0 then (-1, w)
                 else case lowest of
                        None \<Rightarrow> (-1, w)
                      | Some l \<Rightarrow>
                          (int l, upd_desc l (\<lambda>_. zero_desc) (close_file l (unlink_desc l w)))))"

section \<open>Opening\<close>

text \<open>The assignment of a stream to \<open>descs[i].fd\<close>.\<close>

definition set_fd :: "nat \<Rightarrow> FILE option \<Rightarrow> world \<Rightarrow> world" where
  "set_fd i fo w =
     (let w = (case d_fd (descs w i) of None \<Rightarrow> w | Some f \<Rightarrow> w\<lparr>lost := f # lost w\<rparr>)
      in upd_desc i (\<lambda>d. d\<lparr>d_fd := fo\<rparr>) w)"

text \<open>
  \<open>if ((descs[idx].fd = fopen(...)) == NULL) return -1; descs[idx].length = ...; return idx;\<close>
\<close>

definition open_slot :: "byte list \<Rightarrow> open_mode \<Rightarrow> nat \<Rightarrow> world \<Rightarrow> int \<times> world" where
  "open_slot path m st_size w =
     (let (fo, w) = fopen path m w;
          w = set_fd (idx w) fo w
      in if fo = None then (-1, w)
         else (int (idx w), upd_desc (idx w) (\<lambda>d. d\<lparr>d_length := st_size\<rparr>) w))"

definition open_file :: "u64 \<Rightarrow> nat \<Rightarrow> world \<Rightarrow> int \<times> world" where
  "open_file hash mode w =
     (let (slot, w) = get_avalible_slot w
      in if slot = -1 then (-1, w)
         else let (r, filename, w) = gen_path path_buffer hash w; path = cstr filename
              in if r \<noteq> 0 then (-1, w)
                 else case fs w path of
                        Some (Reg _ c) \<Rightarrow>
                          (if mode < 2 then open_slot path R_plus (length c) w
                           else if mode = 2 then open_slot path W_plus (length c) w
                           else (int (idx w), upd_desc (idx w) (\<lambda>d. d\<lparr>d_length := length c\<rparr>) w))
                      | _ \<Rightarrow> if mode = 1 then (-2, w) else open_slot path W_plus 0 w)"

section \<open>Positioned reads and writes\<close>

definition write_to :: "nat \<Rightarrow> byte list \<Rightarrow> int \<Rightarrow> world \<Rightarrow> nat \<times> world" where
  "write_to dt buf offset w =
     (case d_fd (descs w dt) of
        None \<Rightarrow> (0, w\<lparr>crashed := True\<rparr>)
      | Some f \<Rightarrow>
          (let (e, f, w) = fseek f offset w
           in if e \<noteq> 0 then (0, upd_desc dt (\<lambda>d. d\<lparr>d_fd := Some f\<rparr>) w)
              else let (r, f, w) = fwrite f buf w;
                       w = upd_desc dt (\<lambda>d. d\<lparr>d_fd := Some f\<rparr>) w
                   in if ferror f then (0, w)
                      else (r, if d_length (descs w dt) < ftell f
                               then upd_desc dt (\<lambda>d. d\<lparr>d_length := ftell f\<rparr>) w else w)))"

text \<open>The count returned, and the bytes that arrive in the buffer (also when the call fails).\<close>

definition read_from :: "nat \<Rightarrow> nat \<Rightarrow> int \<Rightarrow> world \<Rightarrow> nat \<times> byte list \<times> world" where
  "read_from dt count offset w =
     (case d_fd (descs w dt) of
        None \<Rightarrow> (0, [], w\<lparr>crashed := True\<rparr>)
      | Some f \<Rightarrow>
          (let (_, f, w) = fseek f offset w;
               (bs, f, w) = fread f count w;
               w = upd_desc dt (\<lambda>d. d\<lparr>d_fd := Some f\<rparr>) w
           in if ferror f then (0, bs, w) else (length bs, bs, w)))"

section \<open>Acquiring and releasing descriptors\<close>

text \<open>
  The walk along a chain: the slot with the hash, or the last slot and its depth; the fuel runs
  out only on a chain longer than the table.
\<close>

datatype walk = Found nat | Not_found "nat option" nat | Endless

fun find_desc :: "nat \<Rightarrow> (nat \<Rightarrow> desc_table) \<Rightarrow> u64 \<Rightarrow> nat option \<Rightarrow> nat \<Rightarrow> walk" where
  "find_desc 0 ds hash tmp depth = Endless"
| "find_desc (Suc fuel) ds hash tmp depth =
     (case tmp of
        None \<Rightarrow> Not_found None depth
      | Some i \<Rightarrow>
          if d_hash (ds i) = hash then Found i
          else if d_next (ds i) \<noteq> None then find_desc fuel ds hash (d_next (ds i)) (depth + 1)
          else Not_found tmp depth)"

definition key_hash :: "byte list \<Rightarrow> u64" where
  "key_hash key = XXH64 XXH_littleEndian (cstr key) (length (cstr key)) 0"

text \<open>A descriptor that is already open.\<close>

definition touch_desc :: "nat \<Rightarrow> world \<Rightarrow> world" where
  "touch_desc i w =
     (let w = upd_desc i (\<lambda>d. d\<lparr>d_refs := d_refs d + 1, d_access_times := d_access_times d + 1\<rparr>) w;
          (t, w) = get_us w
      in upd_desc i (\<lambda>d. d\<lparr>d_last_access := t\<rparr>) w)"

text \<open>A descriptor that was just opened: its fields, and its place in the chain.\<close>

definition enter_desc :: "nat \<Rightarrow> u64 \<Rightarrow> nat option \<Rightarrow> nat \<Rightarrow> world \<Rightarrow> world" where
  "enter_desc i hash tmp depth w =
     (let w = upd_desc i (\<lambda>d. d\<lparr>d_hash := hash\<rparr>) w;
          (t, w) = get_us w;
          w = upd_desc i (\<lambda>d. d\<lparr>d_created_at := t, d_last_access := t, d_access_times := 1, d_refs := 1\<rparr>) w
      in case tmp of
           Some p \<Rightarrow>
             if depth \<noteq> 0
             then upd_desc i (\<lambda>d. d\<lparr>d_prev := Some p\<rparr>) (upd_desc p (\<lambda>d. d\<lparr>d_next := Some i\<rparr>) w)
             else w\<lparr>XXTABLE := (XXTABLE w)(chain_id hash := Some i)\<rparr>
         | None \<Rightarrow> w\<lparr>XXTABLE := (XXTABLE w)(chain_id hash := Some i)\<rparr>)"

definition prepare_file :: "byte list \<Rightarrow> nat \<Rightarrow> world \<Rightarrow> int \<times> nat option \<times> world" where
  "prepare_file key mode w =
     (let hash = key_hash key
      in case find_desc (DESC_TABLE_SIZE + 1) (descs w) hash (XXTABLE w (chain_id hash)) 0 of
           Found i \<Rightarrow> (0, Some i, touch_desc i w)
         | Not_found tmp depth \<Rightarrow>
             (let (r, w) = open_file hash mode w
              in if r < 0 then (r, None, w)
                 else (0, Some (nat r), enter_desc (nat r) hash tmp depth w))
         | Endless \<Rightarrow> (0, None, w\<lparr>hung := True\<rparr>))"

text \<open>The sources of a command, acquired from the last one to the first.\<close>

fun prepare_files :: "byte list list \<Rightarrow> world \<Rightarrow> int \<times> nat option list \<times> world" where
  "prepare_files [] w = (0, [], w)"
| "prepare_files (key # ks) w =
     (let (r, dts, w) = prepare_files ks w
      in if r \<noteq> 0 then (r, [], w)
         else let (r, dt, w) = prepare_file key 1 w
              in if r = -2 then (0, None # dts, w)
                 else if r = -1 then (-1, [], w)
                 else (0, dt # dts, w))"

definition release_desc :: "nat option \<Rightarrow> world \<Rightarrow> world" where
  "release_desc dt w =
     (case dt of None \<Rightarrow> w | Some i \<Rightarrow> upd_desc i (\<lambda>d. d\<lparr>d_refs := d_refs d - 1\<rparr>) w)"

end
