(* ===== verification/TableLinks.thy ===== *)
theory TableLinks
  imports FileTable
begin

text \<open>
  What every operation of \<open>file.c\<close> keeps whatever calls fail: the calls of the C library leave the
  table alone; no descriptor is ever linked to another, so a chain has at most one element, every
  walk ends after one step, and a second key with the same chain replaces the head.
\<close>

section \<open>The table is untouched by library calls\<close>

lemma table_of_more:
  assumes "io.more w' = io.more (w :: world)"
  shows "descs w' = descs w" and "XXTABLE w' = XXTABLE w" and "idx w' = idx w" and "lost w' = lost w"
    and "crashed w' = crashed w" and "hung w' = hung w"
  using assms by (cases w; cases w'; simp)+

lemma more_take_fault [frame_simps]: "io.more (snd (take_fault s)) = io.more s"
  by (simp add: take_fault_def split: list.split)

lemma more_put_content [frame_simps]: "io.more (put_content p c s) = io.more s"
  by (simp add: put_content_def split: option.split fnode.split)

lemma more_mkdir [frame_simps]: "io.more (snd (mkdir p s)) = io.more s"
  by (simp add: mkdir_def Let_def take_fault_def split: list.split)

lemma more_get_us [frame_simps]: "io.more (snd (get_us s)) = io.more s"
  by (simp add: get_us_def gettimeofday_def Let_def split: list.split)

lemma more_fopen [frame_simps]: "io.more (snd (fopen p m s)) = io.more s"
  by (simp add: fopen_def Let_def take_fault_def
      split: list.split option.split fnode.split open_mode.split bool.split)

lemma more_fflush [frame_simps]: "io.more (snd (fflush f s)) = io.more s"
  by (simp add: fflush_def frame_simps split: option.split)

lemma more_fclose [frame_simps]: "io.more (fclose f s) = io.more s"
  by (simp add: fclose_def frame_simps)

lemma more_fseek [frame_simps]: "io.more (snd (snd (fseek f off s))) = io.more s"
  by (simp add: fseek_def Let_def split_def frame_simps)

lemma more_fread [frame_simps]: "io.more (snd (snd (fread f n s))) = io.more s"
  by (simp add: fread_def Let_def split_def frame_simps)

lemma more_fwrite [frame_simps]: "io.more (snd (snd (fwrite f bs s))) = io.more s"
  by (simp add: fwrite_def Let_def split_def frame_simps)

lemma more_ensure_dir [frame_simps]: "io.more (snd (ensure_dir p s)) = io.more s"
  by (simp add: ensure_dir_def Let_def split_def frame_simps)

lemma more_gen_path [frame_simps]: "io.more (snd (snd (gen_path p h s))) = io.more s"
  by (simp add: gen_path_def Let_def split_def frame_simps)

lemma more_alloc_ok [frame_simps]: "io.more (snd (alloc_ok s)) = io.more s"
  by (simp add: alloc_ok_def Let_def split_def frame_simps)

lemmas table_frames =
  table_of_more [OF more_take_fault] table_of_more [OF more_get_us] table_of_more [OF more_fopen]
  table_of_more [OF more_fclose] table_of_more [OF more_fseek] table_of_more [OF more_fread]
  table_of_more [OF more_fwrite] table_of_more [OF more_gen_path] table_of_more [OF more_alloc_ok]

lemma descs_upd_desc [simp]: "descs (upd_desc i f w) = (descs w)(i := f (descs w i))"
  by (simp add: upd_desc_def)

lemma stream_view_same: "fs w' = fs w \<Longrightarrow> stream_view f w' = stream_view f (w :: world)"
  by (simp add: stream_view_def file_content_def split: option.split)

lemma upd_desc_frame [simp]:
  "XXTABLE (upd_desc i f w) = XXTABLE w" "idx (upd_desc i f w) = idx w" "hung (upd_desc i f w) = hung w"
  "crashed (upd_desc i f w) = crashed w" "lost (upd_desc i f w) = lost w" "fs (upd_desc i f w) = fs w"
  "faults (upd_desc i f w) = faults w" "srv_dir (upd_desc i f w) = srv_dir w"
  "file_content (upd_desc i f w) p = file_content w p" "is_file (upd_desc i f w) p = is_file w p"
  by (simp_all add: upd_desc_def file_content_def is_file_def)

lemma stream_view_upd_desc [simp]: "stream_view g (upd_desc i f w) = stream_view g w"
  by (rule stream_view_same) simp

section \<open>Chains have at most one element\<close>

definition no_links :: "world \<Rightarrow> bool" where
  "no_links w \<longleftrightarrow> (\<forall>i. d_next (descs w i) = None \<and> d_prev (descs w i) = None)"

lemma no_links_init: "faults w = [] \<Longrightarrow> no_links (init_file w)"
  by (simp add: no_links_def init_file_def zero_desc_def)

lemma no_links_descs: "no_links w \<Longrightarrow> descs w' = descs w \<Longrightarrow> no_links w'"
  by (simp add: no_links_def)

lemma no_links_upd:
  assumes "no_links w" and "d_next (f (descs w i)) = None" and "d_prev (f (descs w i)) = None"
  shows "no_links (upd_desc i f w)"
  using assms by (simp add: no_links_def)

lemma no_linksD: "no_links w \<Longrightarrow> d_next (descs w i) = None" "no_links w \<Longrightarrow> d_prev (descs w i) = None"
  by (simp_all add: no_links_def)

text \<open>With no links the walk inspects the head only, and \<open>depth\<close> is always 0 at its end.\<close>

lemma find_desc_no_links:
  assumes "no_links w"
  shows "find_desc (Suc fuel) (descs w) hash tmp depth =
    (case tmp of
       None \<Rightarrow> Not_found None depth
     | Some i \<Rightarrow> if d_hash (descs w i) = hash then Found i else Not_found tmp depth)"
  using assms by (simp add: no_linksD split: option.split)

definition links_kept :: "world \<Rightarrow> world \<Rightarrow> bool" where
  "links_kept w w' \<longleftrightarrow> no_links w \<longrightarrow> no_links w' \<and> hung w' = hung w"

lemma links_kept_refl: "links_kept w w"
  by (simp add: links_kept_def)

lemma links_kept_trans [trans]: "links_kept a b \<Longrightarrow> links_kept b c \<Longrightarrow> links_kept a c"
  by (simp add: links_kept_def)

lemma links_kept_same: "descs w' = descs w \<Longrightarrow> hung w' = hung w \<Longrightarrow> links_kept w w'"
  by (simp add: links_kept_def no_links_def)

lemma links_kept_upd:
  assumes "\<And>d. d_next (f d) = d_next d \<and> d_prev (f d) = d_prev d"
  shows "links_kept w (upd_desc i f w)"
  using assms by (simp add: links_kept_def no_links_def)

lemma links_kept_zero: "links_kept w (upd_desc i (\<lambda>_. zero_desc) w)"
  by (simp add: links_kept_def no_links_def zero_desc_def)

lemma links_kept_close_file: "links_kept w (close_file i w)"
  by (auto simp: close_file_def links_kept_def no_links_def table_frames split: option.split)

lemma links_kept_close_files: "links_kept w (close_files w)"
proof -
  have "links_kept w (fold (\<lambda>i w. if d_hash (descs w i) \<noteq> 0 then close_file i w else w) xs w)" for xs w
  proof (induction xs arbitrary: w)
    case (Cons i xs)
    show ?case
    proof (cases "d_hash (descs w i) = 0")
      case False
      then show ?thesis using links_kept_trans [OF links_kept_close_file Cons.IH] by simp
    qed (simp add: Cons.IH)
  qed (simp add: links_kept_refl)
  then show ?thesis by (simp add: close_files_def)
qed

lemma links_kept_unlink: "links_kept w (unlink_desc l w)"
  by (auto simp: links_kept_def no_links_def unlink_desc_def Let_def split: option.split)

lemma links_kept_slot: "links_kept w (snd (get_avalible_slot w))"
proof -
  let ?w = "snd (get_us w)"
  have w: "links_kept w ?w" by (rule links_kept_same) (simp_all add: table_frames)
  have i: "links_kept ?w (?w\<lparr>idx := k\<rparr>)" for k by (rule links_kept_same) simp_all
  note steps = links_kept_trans [OF w i]
  have evict: "links_kept w (upd_desc l (\<lambda>_. zero_desc) (close_file l (unlink_desc l (?w\<lparr>idx := 0\<rparr>))))" for l
    by (rule links_kept_trans [OF links_kept_trans [OF links_kept_trans [OF steps links_kept_unlink]
          links_kept_close_file] links_kept_zero])
  show ?thesis
    using steps evict
    by (simp add: get_avalible_slot_def Let_def split_def split: sum.split option.split)
qed

lemma links_kept_set_fd: "links_kept w (set_fd i fo w)"
  by (auto simp: links_kept_def no_links_def set_fd_def split: option.split)

lemma links_kept_open_slot: "links_kept w (snd (open_slot path m n w))"
proof -
  have f: "links_kept w (snd (fopen path m w))" by (rule links_kept_same) (simp_all add: table_frames)
  have l: "links_kept v (upd_desc i (\<lambda>d. d\<lparr>d_length := n\<rparr>) v)" for i v
    by (rule links_kept_upd) simp
  show ?thesis
    using links_kept_trans [OF f links_kept_set_fd] links_kept_trans [OF links_kept_trans [OF f links_kept_set_fd] l]
    by (simp add: open_slot_def Let_def split_def)
qed

lemma links_kept_open_file: "links_kept w (snd (open_file hash mode w))"
proof -
  note slot = links_kept_slot [of w]
  have "links_kept v (snd (snd (gen_path p hash v)))" for p v
    by (rule links_kept_same) (simp_all add: table_frames)
  note path = links_kept_trans [OF slot this]
  have l: "links_kept v (upd_desc i (\<lambda>d. d\<lparr>d_length := n\<rparr>) v)" for i v n
    by (rule links_kept_upd) simp
  show ?thesis
    using slot path links_kept_trans [OF path links_kept_open_slot] links_kept_trans [OF path l]
    by (simp add: open_file_def Let_def split_def split: option.split fnode.split)
qed

lemma links_kept_touch: "links_kept w (touch_desc i w)"
  by (simp add: links_kept_def no_links_def touch_desc_def Let_def split_def table_frames)

lemma links_kept_enter: "links_kept w (enter_desc i hash tmp 0 w)"
  by (simp add: links_kept_def no_links_def enter_desc_def Let_def split_def table_frames split: option.split)

text \<open>The lookup on one-element chains.\<close>

lemma prepare_file_no_links:
  assumes "no_links w"
  shows "prepare_file key mode w =
    (let hash = key_hash key
     in case XXTABLE w (chain_id hash) of
          Some i \<Rightarrow>
            if d_hash (descs w i) = hash then (0, Some i, touch_desc i w)
            else (let (r, w) = open_file hash mode w
                  in if r < 0 then (r, None, w) else (0, Some (nat r), enter_desc (nat r) hash (Some i) 0 w))
        | None \<Rightarrow>
            (let (r, w) = open_file hash mode w
             in if r < 0 then (r, None, w) else (0, Some (nat r), enter_desc (nat r) hash None 0 w)))"
proof -
  have "find_desc (DESC_TABLE_SIZE + 1) (descs w) hash tmp 0 =
    (case tmp of
       None \<Rightarrow> Not_found None 0
     | Some i \<Rightarrow> if d_hash (descs w i) = hash then Found i else Not_found tmp 0)" for hash tmp
    using find_desc_no_links [OF assms, of DESC_TABLE_SIZE] by simp
  then show ?thesis
    unfolding prepare_file_def Let_def by (simp del: find_desc.simps split: option.split)
qed

lemma links_kept_prepare_file: "links_kept w (snd (snd (prepare_file key mode w)))"
proof -
  note o = links_kept_open_file [of w "key_hash key" mode]
  show ?thesis
    unfolding links_kept_def
  proof
    assume n: "no_links w"
    show "no_links (snd (snd (prepare_file key mode w))) \<and> hung (snd (snd (prepare_file key mode w))) = hung w"
      using links_kept_touch [of w] o links_kept_trans [OF o links_kept_enter] n
      unfolding prepare_file_no_links [OF n]
      by (simp add: links_kept_def Let_def split_def split: option.split)
  qed
qed

lemma links_kept_prepare_files: "links_kept w (snd (snd (prepare_files ks w)))"
proof (induction ks)
  case (Cons k ks)
  show ?case
    using Cons links_kept_trans [OF Cons links_kept_prepare_file]
    by (simp add: Let_def split_def)
qed (simp add: links_kept_refl)

lemma links_kept_release: "links_kept w (release_desc dt w)"
  by (auto simp: links_kept_def no_links_def release_desc_def split: option.split)

lemma links_kept_write_to: "links_kept w (snd (write_to dt buf off w))"
  by (simp add: links_kept_def no_links_def write_to_def Let_def split_def table_frames split: option.split)

lemma links_kept_read_from: "links_kept w (snd (snd (read_from dt n off w)))"
  by (simp add: links_kept_def no_links_def read_from_def Let_def split_def table_frames split: option.split)

lemmas links_kept_ops =
  links_kept_close_files links_kept_prepare_file links_kept_prepare_files links_kept_release
  links_kept_write_to links_kept_read_from

end
