(* ===== verification/TableInv.thy ===== *)
theory TableInv
  imports TableLinks
begin

text \<open>
  The well-formed table: every used slot has an open stream on the file of its hash and is the head
  of its chain, the used slots are the first ones, and the file system is ready. On such a table,
  without failing calls, reads and writes behave as on an abstract map from slots to byte strings,
  and the open files together with the files on disk are an abstract data base from hashes to
  contents.
\<close>

section \<open>Well-formed tables\<close>

definition fs_ready :: "world \<Rightarrow> bool" where
  "fs_ready w \<longleftrightarrow>
     dirs_ready w \<and> (\<forall>h. fs w (path_of (srv_dir w) h) = None \<or> is_file w (path_of (srv_dir w) h))"

definition slot_ok :: "world \<Rightarrow> nat \<Rightarrow> bool" where
  "slot_ok w i \<longleftrightarrow>
     (let d = descs w i
      in case d_fd d of
           None \<Rightarrow> d_hash d = 0
         | Some f \<Rightarrow>
             d_hash d \<noteq> 0 \<and> f_path f = path_of (srv_dir w) (d_hash d) \<and> \<not> f_err f \<and>
             is_file w (f_path f) \<and> XXTABLE w (chain_id (d_hash d)) = Some i)"

text \<open>The first \<open>n\<close> slots are used, and the next scan starts among them or right after.\<close>

definition slots_used :: "world \<Rightarrow> nat \<Rightarrow> bool" where
  "slots_used w n \<longleftrightarrow> n \<le> DESC_TABLE_SIZE \<and> idx w \<le> n \<and> (\<forall>i. d_hash (descs w i) \<noteq> 0 \<longleftrightarrow> i < n)"

definition chains_ok :: "world \<Rightarrow> bool" where
  "chains_ok w \<longleftrightarrow>
     (\<forall>c i. XXTABLE w c = Some i \<longrightarrow> d_hash (descs w i) \<noteq> 0 \<and> chain_id (d_hash (descs w i)) = c)"

definition table_wf :: "world \<Rightarrow> bool" where
  "table_wf w \<longleftrightarrow>
     faults w = [] \<and> \<not> crashed w \<and> no_links w \<and> fs_ready w \<and> (\<forall>i. slot_ok w i) \<and>
     chains_ok w \<and> (\<exists>n. slots_used w n)"

text \<open>The bytes behind a slot, and whether the slot holds an open file.\<close>

definition view :: "world \<Rightarrow> nat \<Rightarrow> byte list" where
  "view w i = (case d_fd (descs w i) of None \<Rightarrow> [] | Some f \<Rightarrow> stream_view f w)"

definition live :: "world \<Rightarrow> nat \<Rightarrow> bool" where
  "live w i \<longleftrightarrow> table_wf w \<and> d_hash (descs w i) \<noteq> 0"

definition disk :: "world \<Rightarrow> u64 \<Rightarrow> byte list option" where
  "disk w h = (case fs w (path_of (srv_dir w) h) of Some (Reg _ c) \<Rightarrow> Some c | _ \<Rightarrow> None)"

text \<open>The data base: the content of each key's file as a client of the server sees it.\<close>

definition db :: "world \<Rightarrow> u64 \<Rightarrow> byte list option" where
  "db w h =
     (case XXTABLE w (chain_id h) of
        None \<Rightarrow> disk w h
      | Some i \<Rightarrow> if d_hash (descs w i) = h then Some (view w i) else disk w h)"

lemma liveE:
  assumes "live w i"
  obtains f where "d_fd (descs w i) = Some f" "f_path f = path_of (srv_dir w) (d_hash (descs w i))"
    "\<not> f_err f" "is_file w (f_path f)" "XXTABLE w (chain_id (d_hash (descs w i))) = Some i"
    "faults w = []" "\<not> crashed w" "table_wf w"
proof -
  have wf: "table_wf w" and s: "slot_ok w i" and h: "d_hash (descs w i) \<noteq> 0"
    using assms by (auto simp: live_def table_wf_def)
  from s h obtain f where f: "d_fd (descs w i) = Some f"
    by (auto simp: slot_ok_def Let_def split: option.splits)
  have "faults w = []" "\<not> crashed w" using wf by (simp_all add: table_wf_def)
  moreover have "f_path f = path_of (srv_dir w) (d_hash (descs w i))" "\<not> f_err f" "is_file w (f_path f)"
    "XXTABLE w (chain_id (d_hash (descs w i))) = Some i"
    using s f by (auto simp: slot_ok_def Let_def)
  ultimately show thesis using f wf by (intro that [of f])
qed

lemma db_live: "live w i \<Longrightarrow> db w (d_hash (descs w i)) = Some (view w i)"
  by (elim liveE) (simp add: db_def)

lemma db_closed:
  "XXTABLE w (chain_id h) = None \<Longrightarrow> db w h = disk w h"
  by (simp add: db_def)

lemma wf_slot_unique:
  assumes "table_wf w" and "d_hash (descs w i) = d_hash (descs w j)" and "d_hash (descs w i) \<noteq> 0"
  shows "i = j"
proof -
  have "live w i" "live w j" using assms by (simp_all add: live_def)
  then show ?thesis using assms(2) by (metis liveE option.inject)
qed

section \<open>Replacing the stream of a slot\<close>

lemma put_same: "is_file w p \<Longrightarrow> put_content p (file_content w p) w = (w :: world)"
  by (auto simp: is_file_def put_content_def file_content_def fun_upd_idem)

lemma put_put [simp]: "put_content p c (put_content p b w) = put_content p c w"
  by (auto simp: put_content_def split: option.split fnode.split)

lemma clear_err: "\<not> f_err f \<Longrightarrow> f\<lparr>f_pend := x, f_pos := y, f_err := False\<rparr> = f\<lparr>f_pend := x, f_pos := y\<rparr>"
  by (cases f) simp

lemma fflush_eq:
  assumes "is_file w (f_path f)"
  shows "fflush f (w :: world) =
    (f\<lparr>f_pend := None\<rparr>, put_content (f_path f) (stream_view f w) w)"
proof (cases "f_pend f")
  case None
  then have "f\<lparr>f_pend := None\<rparr> = f" by simp
  with None show ?thesis using put_same [OF assms] by (simp add: fflush_def stream_view_def)
qed (simp add: fflush_def)

lemma put_frame [simp]:
  "descs (put_content p c w) = descs w" "XXTABLE (put_content p c w) = XXTABLE w"
  "idx (put_content p c w) = idx w" "crashed (put_content p c w) = crashed w"
  "hung (put_content p c w) = hung w" "lost (put_content p c w) = lost w"
  "srv_dir (put_content p c w) = srv_dir w" "clock_us (put_content p c w) = clock_us w"
  "ticks (put_content p c w) = ticks w"
  by (auto simp: put_content_def split: option.split fnode.split)

text \<open>Slot \<open>i\<close> now reads its file, with bytes \<open>c\<close> on disk, through stream \<open>g\<close>.\<close>

definition swap_stream :: "nat \<Rightarrow> FILE \<Rightarrow> byte list \<Rightarrow> world \<Rightarrow> world" where
  "swap_stream i g c w = upd_desc i (\<lambda>d. d\<lparr>d_fd := Some g\<rparr>) (put_content (f_path g) c w)"

lemma swap_stream_frame [simp]:
  "XXTABLE (swap_stream i g c w) = XXTABLE w" "idx (swap_stream i g c w) = idx w"
  "crashed (swap_stream i g c w) = crashed w" "hung (swap_stream i g c w) = hung w"
  "lost (swap_stream i g c w) = lost w" "srv_dir (swap_stream i g c w) = srv_dir w"
  "faults (swap_stream i g c w) = faults w"
  "d_hash (descs (swap_stream i g c w) j) = d_hash (descs w j)"
  "d_length (descs (swap_stream i g c w) j) = d_length (descs w j)"
  "d_refs (descs (swap_stream i g c w) j) = d_refs (descs w j)"
  "d_next (descs (swap_stream i g c w) j) = d_next (descs w j)"
  "d_prev (descs (swap_stream i g c w) j) = d_prev (descs w j)"
  "is_file (swap_stream i g c w) q = is_file w q"
  by (simp_all add: swap_stream_def)

lemma fs_swap_other: "q \<noteq> f_path g \<Longrightarrow> fs (swap_stream i g c w) q = fs w q"
  by (simp add: swap_stream_def fs_put_other)

lemma swap_stream_wf:
  assumes "live w i" and "d_fd (descs w i) = Some f" and "f_path g = f_path f" and "\<not> f_err g"
  shows "table_wf (swap_stream i g c w)"
proof -
  have wf: "table_wf w" using assms(1) by (simp add: live_def)
  from assms obtain p: "f_path f = path_of (srv_dir w) (d_hash (descs w i))" and
    isf: "is_file w (f_path f)"
    by (metis liveE option.inject)
  have other: "fs (swap_stream i g c w) q = fs w q" if "length q \<noteq> length (srv_dir w) + 19" for q
    using that p assms(3) by (intro fs_swap_other) auto
  have "dirs_ready (swap_stream i g c w)"
    using wf by (simp add: table_wf_def fs_ready_def dirs_ready_def other)
  moreover have "fs (swap_stream i g c w) q = None \<longleftrightarrow> fs w q = None" for q
    using isf by (auto simp: swap_stream_def put_content_def is_file_def assms(3) split: option.split fnode.split)
  ultimately have "fs_ready (swap_stream i g c w)"
    using wf by (simp add: table_wf_def fs_ready_def)
  moreover have "slot_ok (swap_stream i g c w) j" for j
  proof -
    have "slot_ok w j" "slot_ok w i" using wf by (simp_all add: table_wf_def)
    then show ?thesis using assms(2-4)
      by (cases "j = i") (auto simp: slot_ok_def Let_def swap_stream_def split: option.splits)
  qed
  moreover have "no_links (swap_stream i g c w)"
    using wf by (simp add: table_wf_def no_links_def)
  moreover have "chains_ok (swap_stream i g c w)"
    using wf by (simp add: table_wf_def chains_ok_def)
  moreover have "slots_used (swap_stream i g c w) n = slots_used w n" for n
    by (simp add: slots_used_def)
  ultimately show ?thesis using wf by (simp add: table_wf_def)
qed

lemma swap_stream_live:
  assumes "live w i" and "d_fd (descs w i) = Some f" and "f_path g = f_path f" and "\<not> f_err g"
  shows "live (swap_stream i g c w) = live w"
  using swap_stream_wf [OF assms] assms(1) by (simp add: live_def fun_eq_iff)

lemma swap_stream_view:
  assumes "live w i" and "d_fd (descs w i) = Some f" and "f_path g = f_path f"
  shows "view (swap_stream i g c w) =
    (view w)(i := stream_view g (put_content (f_path f) c w))"
proof
  fix j
  show "view (swap_stream i g c w) j = ((view w)(i := stream_view g (put_content (f_path f) c w))) j"
  proof (cases "j = i")
    case True
    then show ?thesis by (simp add: view_def swap_stream_def assms(3))
  next
    case False
    have wf: "table_wf w" using assms(1) by (simp add: live_def)
    show ?thesis
    proof (cases "d_fd (descs w j)")
      case None
      with False show ?thesis by (simp add: view_def swap_stream_def)
    next
      case (Some k)
      then have lj: "live w j" using wf by (auto simp: live_def table_wf_def slot_ok_def Let_def split: option.splits)
      have "d_hash (descs w j) \<noteq> d_hash (descs w i)"
        using wf_slot_unique [OF wf] False lj by (metis live_def)
      then have "f_path k \<noteq> f_path f"
        using lj assms(1,2) Some by (metis liveE option.inject path_of_inject)
      moreover have "is_file w (f_path f)" using assms(1,2) by (metis liveE option.inject)
      ultimately have "file_content (put_content (f_path f) c w) (f_path k) = file_content w (f_path k)"
        by simp
      then have "stream_view k (put_content (f_path f) c w) = stream_view k w"
        by (simp add: stream_view_def split: option.split)
      with Some False show ?thesis by (simp add: view_def swap_stream_def assms(3))
    qed
  qed
qed

section \<open>Reads and writes\<close>

lemma live_fields:
  assumes "live w i" and "d_fd (descs w i) = Some f"
  shows "is_file w (f_path f)" and "\<not> f_err f" and "faults w = []" and "view w i = stream_view f w"
    and "f_path f = path_of (srv_dir w) (d_hash (descs w i))"
  using assms by (auto elim!: liveE simp: view_def)

lemma read_from_live:
  assumes "live w i" and "d_fd (descs w i) = Some f" and "0 \<le> off"
  shows "read_from i n off w =
    (let bs = take n (drop (nat off) (view w i))
     in (length bs, bs, swap_stream i (f\<lparr>f_pend := None, f_pos := nat off + length bs\<rparr>) (view w i) w))"
proof -
  note l = live_fields [OF assms(1,2)]
  show ?thesis
    using assms(2,3) l(1-3)
    by (simp add: read_from_def fseek_def fflush_eq fread_def Let_def ferror_def l(4)
        stream_view_no_pend swap_stream_def clear_err)
qed

lemma write_to_live:
  assumes "live w i" and "d_fd (descs w i) = Some f" and "0 \<le> off" and "buf \<noteq> []"
  shows "write_to i buf off w =
    (length buf,
     upd_desc i (\<lambda>d. d\<lparr>d_length := max (d_length d) (nat off + length buf)\<rparr>)
       (swap_stream i (f\<lparr>f_pend := Some (nat off, buf), f_pos := nat off + length buf\<rparr>) (view w i) w))"
proof -
  note l = live_fields [OF assms(1,2)]
  have keep: "upd_desc i (\<lambda>d. d\<lparr>d_length := max (d_length d) m\<rparr>) v =
    (if d_length (descs v i) < m then upd_desc i (\<lambda>d. d\<lparr>d_length := m\<rparr>) v else v)" for m v
    by (simp add: upd_desc_def max_def fun_upd_idem)
  show ?thesis
    using assms(2-4) l(1-3) unfolding keep
    by (simp add: write_to_def fseek_def fflush_eq fwrite_def Let_def ferror_def ftell_def l(4)
        put_same stream_view_no_pend swap_stream_def clear_err)
qed

text \<open>A change of a length field alone.\<close>

lemma set_length_frame [simp]:
  "d_hash (((descs w)(i := d\<lparr>d_length := m\<rparr>)) j) = d_hash (((descs w)(i := d)) j)"
  "d_fd (((descs w)(i := d\<lparr>d_length := m\<rparr>)) j) = d_fd (((descs w)(i := d)) j)"
  "d_refs (((descs w)(i := d\<lparr>d_length := m\<rparr>)) j) = d_refs (((descs w)(i := d)) j)"
  "d_next (((descs w)(i := d\<lparr>d_length := m\<rparr>)) j) = d_next (((descs w)(i := d)) j)"
  "d_prev (((descs w)(i := d\<lparr>d_length := m\<rparr>)) j) = d_prev (((descs w)(i := d)) j)"
  by simp_all

lemma wf_cong:
  assumes "\<And>j. d_hash (descs v j) = d_hash (descs w j) \<and> d_fd (descs v j) = d_fd (descs w j) \<and>
      d_next (descs v j) = d_next (descs w j) \<and> d_prev (descs v j) = d_prev (descs w j)"
    and "XXTABLE v = XXTABLE w" "idx v = idx w" "crashed v = crashed w" "fs v = fs w"
    "faults v = faults w" "srv_dir v = srv_dir w"
  shows "table_wf v = table_wf w" and "view v = view w" and "live v = live w" and "db v = db w"
proof -
  have f: "is_file v = is_file w" "file_content v = file_content w"
    using assms(5) by (simp_all add: is_file_def file_content_def fun_eq_iff)
  have "stream_view g v = stream_view g w" for g by (rule stream_view_same [OF assms(5)])
  then show vw: "view v = view w" using assms(1) by (simp add: view_def fun_eq_iff split: option.split)
  show wf: "table_wf v = table_wf w"
  proof -
    have "slot_ok v j = slot_ok w j" for j
      using assms(1,2,7) f by (simp add: slot_ok_def Let_def split: option.split)
    moreover have "fs_ready v = fs_ready w" using assms(5,7) f by (simp add: fs_ready_def dirs_ready_def)
    moreover have "no_links v = no_links w" using assms(1) by (simp add: no_links_def)
    moreover have "chains_ok v = chains_ok w" using assms(1,2) by (simp add: chains_ok_def)
    moreover have "slots_used v = slots_used w" using assms(1,3) by (simp add: slots_used_def fun_eq_iff)
    ultimately show ?thesis using assms(4,6) by (simp add: table_wf_def)
  qed
  show "live v = live w" using wf assms(1) by (simp add: live_def fun_eq_iff)
  have "disk v = disk w" using assms by (simp add: disk_def fun_eq_iff)
  then show "db v = db w" using vw assms(1,2) by (simp add: db_def fun_eq_iff split: option.split)
qed

lemmas set_length_wf =
  wf_cong [of "upd_desc i (\<lambda>d. d\<lparr>d_length := m d\<rparr>) w" w for i m w, simplified]

end
