(* ===== verification/ByteStore.thy ===== *)
theory ByteStore
  imports TableInv
begin

text \<open>
  The interface between the table of open files and the bit commands: positioned reads and writes on
  byte strings of unbounded length. \<open>byte_store\<close> states the laws; the table provides them on its live
  slots.
\<close>

locale byte_store =
  fixes rd :: "'k \<Rightarrow> nat \<Rightarrow> int \<Rightarrow> 'w \<Rightarrow> nat \<times> byte list \<times> 'w"
    and wr :: "'k \<Rightarrow> byte list \<Rightarrow> int \<Rightarrow> 'w \<Rightarrow> nat \<times> 'w"
    and contents :: "'w \<Rightarrow> 'k \<Rightarrow> byte list"
    and size_of :: "'w \<Rightarrow> 'k \<Rightarrow> nat"
    and open_in :: "'w \<Rightarrow> 'k \<Rightarrow> bool"
    and frame :: "'w \<Rightarrow> 'w \<Rightarrow> bool"
  assumes frame_refl: "frame w w"
    and frame_trans: "frame w w' \<Longrightarrow> frame w' w'' \<Longrightarrow> frame w w''"
    and frame_open: "frame w w' \<Longrightarrow> open_in w k \<Longrightarrow> open_in w' k"
    and rd_law: "open_in w k \<Longrightarrow> \<exists>w'.
      rd k n (int off) w = (length (take n (drop off (contents w k))), take n (drop off (contents w k)), w') \<and>
      contents w' = contents w \<and> size_of w' = size_of w \<and> frame w w'"
    and wr_law: "open_in w k \<Longrightarrow> bs \<noteq> [] \<Longrightarrow> \<exists>w'.
      wr k bs (int off) w = (length bs, w') \<and>
      contents w' = (contents w)(k := write_at (contents w k) off bs) \<and>
      size_of w' = (size_of w)(k := max (size_of w k) (off + length bs)) \<and> frame w w'"
begin

text \<open>Reading and writing leave the other stores, and reading leaves everything, as it was.\<close>

lemma rdE:
  assumes "open_in w k"
  obtains w' where
    "rd k n (int off) w = (length (take n (drop off (contents w k))), take n (drop off (contents w k)), w')"
    "contents w' = contents w" "size_of w' = size_of w" "frame w w'"
  using rd_law [OF assms] by blast

lemma wrE:
  assumes "open_in w k" and "bs \<noteq> []"
  obtains w' where "wr k bs (int off) w = (length bs, w')"
    "contents w' = (contents w)(k := write_at (contents w k) off bs)"
    "size_of w' = (size_of w)(k := max (size_of w k) (off + length bs))" "frame w w'"
  using wr_law [OF assms] by blast

text \<open>What was written is read back.\<close>

lemma read_after_write:
  assumes "open_in w k" and "bs \<noteq> []" and "wr k bs (int off) w = (r, w')"
  shows "\<exists>w''. rd k (length bs) (int off) w' = (length bs, bs, w'')"
proof -
  from assms obtain c: "contents w' = (contents w)(k := write_at (contents w k) off bs)"
    and f: "frame w w'" by (auto elim: wrE [of w k bs off])
  have same: "take (length bs) (drop off (write_at (contents w k) off bs)) = bs"
    by (simp add: write_at_def min_def)
  obtain w'' where "rd k (length bs) (int off) w' =
      (length (take (length bs) (drop off (contents w' k))), take (length bs) (drop off (contents w' k)), w'')"
    using rdE [OF frame_open [OF f assms(1)]] by metis
  then show ?thesis unfolding c by (simp add: same)
qed

text \<open>A file whose recorded length is its length keeps that through writes.\<close>

lemma write_keeps_length:
  assumes "open_in w k" and "bs \<noteq> []" and "wr k bs (int off) w = (r, w')"
    and "\<And>j. size_of w j = length (contents w j)"
  shows "size_of w' j = length (contents w' j)"
proof -
  from assms(1-3) have "contents w' = (contents w)(k := write_at (contents w k) off bs)"
    "size_of w' = (size_of w)(k := max (size_of w k) (off + length bs))"
    by (auto elim: wrE [of w k bs off])
  then show ?thesis using assms(2,4) by simp
qed

end

section \<open>The table as a byte store\<close>

definition lengths :: "world \<Rightarrow> nat \<Rightarrow> nat" where
  "lengths w i = d_length (descs w i)"

text \<open>
  What reads and writes keep of the table: everything but the streams and lengths, and every file
  that is not open.
\<close>

definition table_frame :: "world \<Rightarrow> world \<Rightarrow> bool" where
  "table_frame w w' \<longleftrightarrow>
     live w' = live w \<and> table_wf w' = table_wf w \<and> XXTABLE w' = XXTABLE w \<and> idx w' = idx w \<and>
     hung w' = hung w \<and> srv_dir w' = srv_dir w \<and>
     (\<forall>j. d_hash (descs w' j) = d_hash (descs w j) \<and> d_refs (descs w' j) = d_refs (descs w j)) \<and>
     (\<forall>h. (\<forall>j. live w j \<longrightarrow> d_hash (descs w j) \<noteq> h) \<longrightarrow> disk w' h = disk w h)"

lemma table_frame_refl: "table_frame w w"
  by (simp add: table_frame_def)

lemma table_frame_trans: "table_frame w w' \<Longrightarrow> table_frame w' w'' \<Longrightarrow> table_frame w w''"
  by (simp add: table_frame_def)

lemma view_swap_same:
  assumes "live w i" and "d_fd (descs w i) = Some f" and "f_path g = f_path f" and "f_pend g = None"
  shows "view (swap_stream i g (view w i) w) = view w"
  using live_fields(1) [OF assms(1,2)] assms
  by (simp add: swap_stream_view stream_view_no_pend fun_upd_idem)

lemma frame_swap:
  assumes "live w i" and "d_fd (descs w i) = Some f" and "f_path g = f_path f" and "\<not> f_err g"
  shows "table_frame w (swap_stream i g c w)"
proof -
  have "disk (swap_stream i g c w) h = disk w h" if "\<forall>j. live w j \<longrightarrow> d_hash (descs w j) \<noteq> h" for h
  proof -
    have "d_hash (descs w i) \<noteq> h" using that assms(1) by blast
    then have "path_of (srv_dir w) h \<noteq> f_path g"
      using live_fields(5) [OF assms(1,2)] assms(3) by (simp add: path_of_inject)
    then show ?thesis by (simp add: disk_def fs_swap_other)
  qed
  then show ?thesis
    using swap_stream_live [OF assms] swap_stream_wf [OF assms] assms(1)
    by (simp add: table_frame_def live_def)
qed

text \<open>The data base is what the open files show, and the files on disk where none is open.\<close>

lemma db_frame_open: "table_frame w w' \<Longrightarrow> live w i \<Longrightarrow> db w' (d_hash (descs w i)) = Some (view w' i)"
  using db_live [of w' i] by (simp add: table_frame_def)

lemma db_frame_closed:
  assumes "table_wf w" and "table_frame w w'" and "\<And>i. live w i \<Longrightarrow> d_hash (descs w i) \<noteq> h"
  shows "db w' h = db w h"
proof -
  have "d_hash (descs w j) \<noteq> h" if "XXTABLE w (chain_id h) = Some j" for j
    using that assms(1,3) by (auto simp: live_def table_wf_def chains_ok_def)
  moreover have "disk w' h = disk w h" using assms(2,3) by (simp add: table_frame_def)
  ultimately show ?thesis using assms(2) by (simp add: table_frame_def db_def split: option.split)
qed

lemma db_frame_view:
  assumes "live w i" and "table_frame w w'" and "view w' = (view w)(i := c)"
  shows "db w' = (db w)(d_hash (descs w i) \<mapsto> c)"
proof
  fix h
  have wf: "table_wf w" using assms(1) by (simp add: live_def)
  show "db w' h = ((db w)(d_hash (descs w i) \<mapsto> c)) h"
  proof (cases "\<exists>j. live w j \<and> d_hash (descs w j) = h")
    case True
    then obtain j where j: "live w j" "d_hash (descs w j) = h" by blast
    have "d_hash (descs w i) = h \<longleftrightarrow> j = i"
      using wf_slot_unique [OF wf, of i j] j assms(1) by (auto simp: live_def)
    then show ?thesis
      using db_frame_open [OF assms(2) j(1)] db_frame_open [OF table_frame_refl j(1)] j(2) assms(3) by auto
  next
    case False
    then show ?thesis using db_frame_closed [OF wf assms(2), of h] assms(1) by auto
  qed
qed

lemma db_same_view:
  assumes "table_wf w" and "table_frame w w'" and "view w' = view w"
  shows "db w' = db w"
proof
  fix h
  show "db w' h = db w h"
  proof (cases "\<exists>j. live w j \<and> d_hash (descs w j) = h")
    case True
    then show ?thesis
      using db_frame_open [OF assms(2)] db_frame_open [OF table_frame_refl, of w] assms(3) by auto
  next
    case False
    then show ?thesis using db_frame_closed [OF assms(1,2), of h] by auto
  qed
qed

lemma read_from_law:
  assumes "live w i"
  shows "\<exists>w'. read_from i n (int off) w =
      (length (take n (drop off (view w i))), take n (drop off (view w i)), w') \<and>
    view w' = view w \<and> lengths w' = lengths w \<and> table_frame w w'"
proof -
  obtain f where f: "d_fd (descs w i) = Some f" using assms by (auto elim: liveE)
  note l = live_fields [OF assms f]
  let ?bs = "take n (drop off (view w i))"
  let ?g = "f\<lparr>f_pend := None, f_pos := off + length ?bs\<rparr>"
  let ?w = "swap_stream i ?g (view w i) w"
  have r: "read_from i n (int off) w = (length ?bs, ?bs, ?w)"
    using read_from_live [OF assms f, of "int off" n] by (simp add: Let_def)
  have v: "view ?w = view w" by (rule view_swap_same [OF assms f]) simp_all
  have "table_frame w ?w" by (rule frame_swap [OF assms f]) (simp_all add: l(2))
  then show ?thesis using r v by (intro exI [of _ ?w]) (simp add: lengths_def fun_eq_iff)
qed

lemma write_to_law:
  assumes "live w i" and "bs \<noteq> []"
  shows "\<exists>w'. write_to i bs (int off) w = (length bs, w') \<and>
    view w' = (view w)(i := write_at (view w i) off bs) \<and>
    lengths w' = (lengths w)(i := max (lengths w i) (off + length bs)) \<and> table_frame w w'"
proof -
  obtain f where f: "d_fd (descs w i) = Some f" using assms by (auto elim: liveE)
  note l = live_fields [OF assms(1) f]
  let ?g = "f\<lparr>f_pend := Some (off, bs), f_pos := off + length bs\<rparr>"
  let ?v = "swap_stream i ?g (view w i) w"
  let ?w = "upd_desc i (\<lambda>d. d\<lparr>d_length := max (d_length d) (off + length bs)\<rparr>) ?v"
  have r: "write_to i bs (int off) w = (length bs, ?w)"
    using write_to_live [OF assms(1) f, of "int off" bs] assms(2) by simp
  have sv: "stream_view ?g (put_content (f_path f) (view w i) w) = write_at (view w i) off bs"
    using l(1) by (simp add: stream_view_def)
  have v: "view ?w = (view w)(i := write_at (view w i) off bs)"
    using swap_stream_view [OF assms(1) f, of ?g "view w i"] sv by (simp add: set_length_wf)
  have "table_frame w ?v" by (rule frame_swap [OF assms(1) f]) (simp_all add: l(2))
  then have t: "table_frame w ?w" by (simp add: table_frame_def set_length_wf disk_def)
  have "lengths ?w = (lengths w)(i := max (lengths w i) (off + length bs))"
    by (simp add: lengths_def fun_eq_iff)
  with r v t show ?thesis by blast
qed

interpretation files: byte_store read_from write_to view lengths live table_frame
proof unfold_locales
  show "table_frame w w" for w by (rule table_frame_refl)
  show "table_frame w w' \<Longrightarrow> table_frame w' w'' \<Longrightarrow> table_frame w w''" for w w' w''
    by (rule table_frame_trans)
  show "table_frame w w' \<Longrightarrow> live w k \<Longrightarrow> live w' k" for w w' k by (simp add: table_frame_def)
qed (use read_from_law write_to_law in blast)+

end
