(* ===== verification/TableOpen.thy ===== *)
theory TableOpen
  imports ByteStore
begin

text \<open>
  What \<open>prepare_file\<close> does on a well-formed table without failing calls: it finds the open file of
  the key, or opens or creates the file in the next free slot; the table stays well-formed and only
  the key's entry of the data base can change.
\<close>

section \<open>The next free slot\<close>

lemma scan_free:
  assumes "i \<le> n" and "n < DESC_TABLE_SIZE" and "d_hash (ds n) = 0"
    and "\<And>j. i \<le> j \<Longrightarrow> j < n \<Longrightarrow> d_hash (ds j) \<noteq> 0"
  shows "scan_slots ds i tmp lowest = Inl n"
  using assms
proof (induction "n - i" arbitrary: i tmp lowest)
  case 0
  then have "i = n" by simp
  with 0 show ?case by (subst scan_slots.simps) simp
next
  case (Suc k)
  then have "scan_slots ds (i + 1) t l = Inl n" for t l by simp
  moreover have "d_hash (ds i) \<noteq> 0" "i < DESC_TABLE_SIZE" using Suc by simp_all
  ultimately show ?case by (subst scan_slots.simps) simp
qed

lemma get_avalible_slot_free:
  assumes "slots_used w n" and "n < DESC_TABLE_SIZE"
  shows "get_avalible_slot w = (int n, (snd (get_us w))\<lparr>idx := n\<rparr>)"
proof -
  have "scan_slots (descs w) (idx w) tmp None = Inl n" for tmp
    using assms by (intro scan_free) (auto simp: slots_used_def)
  then show ?thesis
    by (simp add: get_avalible_slot_def Let_def split_def table_frames)
qed

section \<open>The state after opening\<close>

text \<open>
  Slot \<open>i\<close> was empty and now holds the file of hash \<open>h\<close>, with content \<open>c\<close> and recorded length \<open>sz\<close>;
  the directories of its path exist, and nothing else changed.
\<close>

definition opened :: "world \<Rightarrow> world \<Rightarrow> nat \<Rightarrow> u64 \<Rightarrow> byte list \<Rightarrow> nat \<Rightarrow> bool" where
  "opened w w' i h c sz \<longleftrightarrow>
     (\<exists>d. descs w' = (descs w)(i := d) \<and> d_hash d = h \<and>
        d_fd d = Some (new_stream (path_of (srv_dir w) h)) \<and> d_length d = sz \<and> d_refs d = 1 \<and>
        d_next d = d_next (descs w i) \<and> d_prev d = d_prev (descs w i)) \<and>
     XXTABLE w' = (XXTABLE w)(chain_id h := Some i) \<and> idx w' = i \<and> faults w' = faults w \<and>
     crashed w' = crashed w \<and> hung w' = hung w \<and> lost w' = lost w \<and> srv_dir w' = srv_dir w \<and>
     fs w' = (fs (mkdirs h w))(path_of (srv_dir w) h \<mapsto> Reg True c)"

lemma opened_enter:
  assumes "descs v = (descs w)(i := d)" "d_fd d = Some (new_stream (path_of (srv_dir w) h))"
    "d_length d = sz" "d_next d = d_next (descs w i)" "d_prev d = d_prev (descs w i)"
    "XXTABLE v = XXTABLE w" "idx v = i" "faults v = faults w" "crashed v = crashed w" "hung v = hung w"
    "lost v = lost w" "srv_dir v = srv_dir w"
    "fs v = (fs (mkdirs h w))(path_of (srv_dir w) h \<mapsto> Reg True c)"
  shows "opened w (enter_desc i h tmp 0 v) i h c sz"
  using assms
  by (auto simp: opened_def enter_desc_def Let_def split_def table_frames split: option.split)

text \<open>\<open>open_slot\<close> on an empty slot: the stream is stored, nothing is lost.\<close>

lemma open_slot_empty:
  assumes "faults v = []" and "d_fd (descs v (idx v)) = None"
    and "fs v p = Some (Reg True b) \<or> m = W_plus \<and> fs v p = None \<and> fs v (parent_of p) = Some (Dir True)"
  shows "open_slot p m n v =
    (int (idx v),
     upd_desc (idx v) (\<lambda>d. d\<lparr>d_fd := Some (new_stream p), d_length := n\<rparr>)
       (if m = R_plus then v else v\<lparr>fs := (fs v)(p \<mapsto> Reg True [])\<rparr>))"
  using assms
  by (cases m) (auto simp: open_slot_def fopen_def set_fd_def upd_desc_def Let_def)

definition opened_content :: "nat \<Rightarrow> byte list option \<Rightarrow> byte list" where
  "opened_content mode c = (if mode = 2 then [] else case c of None \<Rightarrow> [] | Some c \<Rightarrow> c)"

definition opened_size :: "byte list option \<Rightarrow> nat" where
  "opened_size c = (case c of None \<Rightarrow> 0 | Some c \<Rightarrow> length c)"

lemma table_wf_parts:
  assumes "table_wf w"
  shows "faults w = []" "\<not> crashed w" "no_links w" "fs_ready w" "dirs_ready w" "slot_ok w i" "chains_ok w"
    "0 \<notin> set (srv_dir w)" "fs w (path_of (srv_dir w) h) = None \<or> is_file w (path_of (srv_dir w) h)"
  using assms by (auto simp: table_wf_def fs_ready_def dirs_ready_def)

lemma empty_slot:
  assumes "table_wf w" and "slots_used w n"
  shows "d_hash (descs w n) = 0" and "d_fd (descs w n) = None"
proof -
  show "d_hash (descs w n) = 0" using assms(2) unfolding slots_used_def by (metis less_irrefl)
  then show "d_fd (descs w n) = None"
    using table_wf_parts(6) [OF assms(1), of n] by (auto simp: slot_ok_def Let_def split: option.splits)
qed

lemma open_file_fresh:
  assumes wf: "table_wf w" and used: "slots_used w n" and room: "n < DESC_TABLE_SIZE" and mode: "mode \<le> 2"
  shows "if mode = 1 \<and> disk w h = None
    then \<exists>w'. open_file h mode w = (-2, w') \<and> descs w' = descs w \<and> XXTABLE w' = XXTABLE w \<and> idx w' = n \<and>
      faults w' = [] \<and> crashed w' = crashed w \<and> hung w' = hung w \<and> lost w' = lost w \<and>
      srv_dir w' = srv_dir w \<and> fs w' = fs (mkdirs h w)
    else \<exists>w'. open_file h mode w = (int n, w') \<and>
      opened w (enter_desc n h tmp 0 w') n h (opened_content mode (disk w h)) (opened_size (disk w h))"
proof -
  note p = table_wf_parts [OF wf] and e = empty_slot [OF wf used]
  let ?path = "path_of (srv_dir w) h"
  define v where "v = (snd (get_us w))\<lparr>idx := n\<rparr>"
  have v: "descs v = descs w" "XXTABLE v = XXTABLE w" "idx v = n" "faults v = []" "crashed v = crashed w"
    "hung v = hung w" "lost v = lost w" "srv_dir v = srv_dir w" "fs v = fs w"
    using p by (simp_all add: v_def table_frames)
  define u where "u = mkdirs h v"
  have u: "descs u = descs w" "XXTABLE u = XXTABLE w" "idx u = n" "faults u = []" "crashed u = crashed w"
    "hung u = hung w" "lost u = lost w" "srv_dir u = srv_dir w" "fs u = fs (mkdirs h w)"
    using v by (simp_all add: u_def mkdirs_def)
  have fsu: "fs u ?path = fs w ?path" using mkdirs_frame(5) [of h w h] by (simp add: u)
  have up: "fs u (parent_of ?path) = Some (Dir True)"
    using mkdirs_parent [OF p(5), of h] by (simp add: u)
  have rv: "dirs_ready v" using p by (simp add: dirs_ready_def v)
  have gp: "gen_path path_buffer h v = (0, ?path @ replicate (237 - length (srv_dir w)) 0, u)"
    using gen_path_ready [OF rv v(4), of h] by (simp add: u_def v)
  have open_eq: "open_file h mode w =
    (case fs w ?path of
       Some (Reg _ c) \<Rightarrow>
         (if mode < 2 then open_slot ?path R_plus (length c) u else open_slot ?path W_plus (length c) u)
     | _ \<Rightarrow> if mode = 1 then (-2, u) else open_slot ?path W_plus 0 u)"
    using mode fsu unfolding open_file_def get_avalible_slot_free [OF used room] v_def [symmetric]
    by (auto simp: Let_def gp cstr_path p split: option.split fnode.split)
  show ?thesis
  proof (cases "fs w ?path")
    case None
    then have d: "disk w h = None" by (simp add: disk_def)
    show ?thesis
    proof (cases "mode = 1")
      case True
      then have "open_file h mode w = (-2, u)" using None open_eq by simp
      then show ?thesis using True d u by auto
    next
      case False
      let ?u = "upd_desc n (\<lambda>d. d\<lparr>d_fd := Some (new_stream ?path), d_length := 0\<rparr>)
        (u\<lparr>fs := (fs u)(?path \<mapsto> Reg True [])\<rparr>)"
      have "open_file h mode w = (int n, ?u)"
        using open_slot_empty [of u ?path "[]" W_plus 0] None False e up fsu by (simp add: open_eq u)
      moreover have "opened w (enter_desc n h tmp 0 ?u) n h [] 0"
        by (rule opened_enter
            [where d = "(descs w n)\<lparr>d_fd := Some (new_stream ?path), d_length := 0\<rparr>"])
          (simp_all add: u p)
      ultimately show ?thesis using False d
        by (auto simp: opened_content_def opened_size_def)
    qed
  next
    case (Some nd)
    then obtain c where c: "fs w ?path = Some (Reg True c)" using p(9) [of h] by (auto simp: is_file_def)
    then have d: "disk w h = Some c" by (simp add: disk_def)
    let ?m = "if mode < 2 then R_plus else W_plus"
    let ?u = "upd_desc n (\<lambda>d. d\<lparr>d_fd := Some (new_stream ?path), d_length := length c\<rparr>)
      (if mode < 2 then u else u\<lparr>fs := (fs u)(?path \<mapsto> Reg True [])\<rparr>)"
    have "open_file h mode w = (int n, ?u)"
      using open_slot_empty [of u ?path c ?m "length c"] c e fsu
      by (cases "mode < 2") (simp_all add: open_eq u)
    moreover have "opened w (enter_desc n h tmp 0 ?u) n h (opened_content mode (Some c)) (length c)"
      using mode c fsu
      by (intro opened_enter
          [where d = "(descs w n)\<lparr>d_fd := Some (new_stream ?path), d_length := length c\<rparr>"])
        (auto simp: u p opened_content_def fun_upd_idem)
    ultimately show ?thesis by (auto simp: d opened_size_def)
  qed
qed

section \<open>A newly opened file\<close>

text \<open>The conditions under which a closed key is opened in slot \<open>n\<close>.\<close>

definition opens :: "world \<Rightarrow> world \<Rightarrow> nat \<Rightarrow> u64 \<Rightarrow> byte list \<Rightarrow> nat \<Rightarrow> bool" where
  "opens w w' n h c sz \<longleftrightarrow>
     table_wf w \<and> slots_used w n \<and> n < DESC_TABLE_SIZE \<and> h \<noteq> 0 \<and> XXTABLE w (chain_id h) = None \<and>
     opened w w' n h c sz"

lemma opensE:
  assumes "opens w w' n h c sz"
  obtains d where "table_wf w" "slots_used w n" "n < DESC_TABLE_SIZE" "h \<noteq> 0" "XXTABLE w (chain_id h) = None"
    "descs w' = (descs w)(n := d)" "d_hash d = h" "d_fd d = Some (new_stream (path_of (srv_dir w) h))"
    "d_length d = sz" "d_refs d = 1" "d_next d = None" "d_prev d = None"
    "XXTABLE w' = (XXTABLE w)(chain_id h := Some n)" "idx w' = n" "faults w' = []" "\<not> crashed w'"
    "hung w' = hung w" "lost w' = lost w" "srv_dir w' = srv_dir w"
    "fs w' = (fs (mkdirs h w))(path_of (srv_dir w) h \<mapsto> Reg True c)"
proof -
  have "table_wf w" using assms by (simp add: opens_def)
  note p = table_wf_parts [OF this]
  show thesis using assms that p(1-3) by (auto simp: opens_def opened_def no_linksD)
qed

lemma opens_other_hash:
  assumes "opens w w' n h c sz" and "live w j"
  shows "d_hash (descs w j) \<noteq> h" and "j \<noteq> n"
proof -
  show "d_hash (descs w j) \<noteq> h"
    using assms by (auto elim!: liveE simp: opens_def)
  show "j \<noteq> n" using assms empty_slot(1) [of w n] by (auto simp: opens_def live_def)
qed

lemma opens_files:
  assumes "opens w w' n h c sz" and "g \<noteq> h"
  shows "fs w' (path_of (srv_dir w) g) = fs w (path_of (srv_dir w) g)"
  using assms mkdirs_frame(5) [of h w g] by (auto elim!: opensE simp: path_of_inject)

lemma opens_wf:
  assumes "opens w w' n h c sz"
  shows "table_wf w'" and "slots_used w' (n + 1)"
proof -
  obtain d where wf: "table_wf w" and used: "slots_used w n" and room: "n < DESC_TABLE_SIZE" and h: "h \<noteq> 0"
    and head: "XXTABLE w (chain_id h) = None" and ds: "descs w' = (descs w)(n := d)" and dh: "d_hash d = h"
    and fd: "d_fd d = Some (new_stream (path_of (srv_dir w) h))"
    and lk: "d_next d = None" "d_prev d = None" and xt: "XXTABLE w' = (XXTABLE w)(chain_id h := Some n)"
    and r: "idx w' = n" "faults w' = []" "\<not> crashed w'" "srv_dir w' = srv_dir w"
    and fsw: "fs w' = (fs (mkdirs h w))(path_of (srv_dir w) h \<mapsto> Reg True c)"
    using assms by (elim opensE)
  note p = table_wf_parts [OF wf] and e = empty_slot [OF wf used]
  have "no_links w'" using p(3) lk by (simp add: no_links_def ds)
  have lv: "\<And>g. level1 (srv_dir w) g \<noteq> path_of (srv_dir w) h" "\<And>g. level2 (srv_dir w) g \<noteq> path_of (srv_dir w) h"
    "srv_dir w \<noteq> path_of (srv_dir w) h"
    by (metis paths_distinct)+
  have "dirs_ready (mkdirs h w)" by (rule dirs_ready_mkdirs [OF p(5)])
  then have dirs: "dirs_ready w'" by (simp add: dirs_ready_def fsw r lv)
  have file_h: "is_file w' (path_of (srv_dir w) h)" by (simp add: is_file_def fsw)
  have file_g: "is_file w' (path_of (srv_dir w) g) = (g = h \<or> is_file w (path_of (srv_dir w) g))" for g
    using opens_files [OF assms, of g] file_h by (cases "g = h") (simp_all add: is_file_def)
  have "fs w' (path_of (srv_dir w) g) = None \<or> is_file w' (path_of (srv_dir w) g)" for g
    using p(9) [of g] opens_files [OF assms, of g] by (cases "g = h") (simp_all add: file_g)
  then have ready: "fs_ready w'" using dirs by (simp add: fs_ready_def r)
  have "slot_ok w' j" for j
  proof (cases "j = n")
    case True
    then show ?thesis using h file_h by (simp add: slot_ok_def ds fd dh xt r new_stream_def)
  next
    case False
    have "slot_ok w j" by (rule p(6))
    moreover have "chain_id (d_hash (descs w j)) \<noteq> chain_id h" if "d_fd (descs w j) \<noteq> None"
      using that head \<open>slot_ok w j\<close> by (auto simp: slot_ok_def Let_def)
    ultimately show ?thesis using False
      by (auto simp: slot_ok_def Let_def ds xt r file_g split: option.splits)
  qed
  moreover have "chains_ok w'"
    using p(7) e by (auto simp: chains_ok_def ds xt dh h)
  moreover show sl: "slots_used w' (n + 1)"
    using used room by (auto simp: slots_used_def r ds dh h less_Suc_eq)
  ultimately show "table_wf w'"
    using \<open>no_links w'\<close> ready r by (auto simp: table_wf_def)
qed

lemma opens_view:
  assumes "opens w w' n h c sz"
  shows "view w' = (view w)(n := c)"
proof
  fix j
  show "view w' j = ((view w)(n := c)) j"
  proof (cases "j = n")
    case True
    then show ?thesis using assms
      by (auto elim!: opensE simp: view_def stream_view_def new_stream_def file_content_def)
  next
    case False
    have same: "d_fd (descs w' j) = d_fd (descs w j)" using assms False by (auto elim!: opensE)
    show ?thesis
    proof (cases "d_fd (descs w j)")
      case None
      with False same show ?thesis by (simp add: view_def)
    next
      case (Some f)
      have wf: "table_wf w" using assms by (simp add: opens_def)
      have s: "slot_ok w j" by (rule table_wf_parts(6) [OF wf])
      then have l: "live w j" using Some wf by (auto simp: live_def slot_ok_def)
      have "fs w' (f_path f) = fs w (f_path f)"
        using opens_files [OF assms opens_other_hash(1) [OF assms l]] s Some
        by (simp add: slot_ok_def Let_def)
      then have "file_content w' (f_path f) = file_content w (f_path f)" by (simp add: file_content_def)
      then have "stream_view f w' = stream_view f w" by (simp add: stream_view_def split: option.split)
      with False same Some show ?thesis by (simp add: view_def)
    qed
  qed
qed

lemma opens_db:
  assumes "opens w w' n h c sz"
  shows "db w' = (db w)(h \<mapsto> c)"
proof
  fix g
  show "db w' g = ((db w)(h \<mapsto> c)) g"
  proof (cases "g = h")
    case True
    then show ?thesis using assms opens_view [OF assms]
      by (auto elim!: opensE simp: db_def)
  next
    case False
    have dk: "disk w' g = disk w g"
      using opens_files [OF assms False] assms by (auto elim!: opensE simp: disk_def)
    have x: "XXTABLE w (chain_id g) \<noteq> Some n"
      using empty_slot(1) [of w n] assms by (auto simp: opens_def table_wf_def chains_ok_def)
    obtain d where t: "XXTABLE w (chain_id h) = None" "XXTABLE w' = (XXTABLE w)(chain_id h := Some n)"
      "descs w' = (descs w)(n := d)" "d_hash d = h"
      using assms by (elim opensE)
    show ?thesis
    proof (cases "chain_id g = chain_id h")
      case True
      with t False dk show ?thesis by (simp add: db_def)
    next
      case c: False
      then show ?thesis using x t False dk opens_view [OF assms] by (simp add: db_def split: option.split)
    qed
  qed
qed

lemma opens_fields:
  assumes "opens w w' n h c sz"
  shows "live w' n" and "d_hash (descs w' n) = h" and "lengths w' = (lengths w)(n := sz)"
    and "d_refs (descs w' n) = 1" and "j \<noteq> n \<Longrightarrow> descs w' j = descs w j" and "hung w' = hung w"
    and "srv_dir w' = srv_dir w" and "live w j \<Longrightarrow> live w' j"
proof -
  show "live w' n" "d_hash (descs w' n) = h" "lengths w' = (lengths w)(n := sz)" "d_refs (descs w' n) = 1"
    "j \<noteq> n \<Longrightarrow> descs w' j = descs w j" "hung w' = hung w" "srv_dir w' = srv_dir w"
    using assms opens_wf(1) [OF assms] by (auto elim!: opensE simp: live_def lengths_def)
  show "live w' j" if "live w j"
    using opens_other_hash(2) [OF assms that] opens_wf(1) [OF assms] that assms
    by (auto elim!: opensE simp: live_def)
qed

section \<open>Acquiring and releasing\<close>

lemma touch_same:
  shows "table_wf (touch_desc i w) = table_wf w" and "view (touch_desc i w) = view w"
    and "live (touch_desc i w) = live w" and "db (touch_desc i w) = db w"
    and "lengths (touch_desc i w) = lengths w" and "d_hash (descs (touch_desc i w) j) = d_hash (descs w j)"
    and "d_refs (descs (touch_desc i w) j) = d_refs (descs w j) + (if j = i then 1 else 0)"
    and "XXTABLE (touch_desc i w) = XXTABLE w" and "srv_dir (touch_desc i w) = srv_dir w"
    and "hung (touch_desc i w) = hung w" and "idx (touch_desc i w) = idx w"
proof -
  have f: "d_hash (descs (touch_desc i w) j) = d_hash (descs w j)"
    "d_fd (descs (touch_desc i w) j) = d_fd (descs w j)"
    "d_next (descs (touch_desc i w) j) = d_next (descs w j)"
    "d_prev (descs (touch_desc i w) j) = d_prev (descs w j)"
    "d_length (descs (touch_desc i w) j) = d_length (descs w j)"
    "d_refs (descs (touch_desc i w) j) = d_refs (descs w j) + (if j = i then 1 else 0)" for j
    by (simp_all add: touch_desc_def Let_def split_def table_frames)
  have g: "XXTABLE (touch_desc i w) = XXTABLE w" "idx (touch_desc i w) = idx w"
    "crashed (touch_desc i w) = crashed w" "hung (touch_desc i w) = hung w" "fs (touch_desc i w) = fs w"
    "faults (touch_desc i w) = faults w" "srv_dir (touch_desc i w) = srv_dir w"
    by (simp_all add: touch_desc_def Let_def split_def table_frames)
  show "table_wf (touch_desc i w) = table_wf w" "view (touch_desc i w) = view w"
    "live (touch_desc i w) = live w" "db (touch_desc i w) = db w"
    by (rule wf_cong; simp add: f g)+
  show "lengths (touch_desc i w) = lengths w" by (simp add: lengths_def f fun_eq_iff)
  show "d_hash (descs (touch_desc i w) j) = d_hash (descs w j)"
    "d_refs (descs (touch_desc i w) j) = d_refs (descs w j) + (if j = i then 1 else 0)" by (simp_all add: f)
qed (simp_all add: touch_desc_def Let_def split_def table_frames)

lemma release_same:
  shows "table_wf (release_desc dt w) = table_wf w" and "view (release_desc dt w) = view w"
    and "live (release_desc dt w) = live w" and "db (release_desc dt w) = db w"
    and "lengths (release_desc dt w) = lengths w" and "d_hash (descs (release_desc dt w) j) = d_hash (descs w j)"
    and "d_refs (descs (release_desc dt w) j) = d_refs (descs w j) - (if dt = Some j then 1 else 0)"
    and "XXTABLE (release_desc dt w) = XXTABLE w" and "srv_dir (release_desc dt w) = srv_dir w"
    and "hung (release_desc dt w) = hung w" and "idx (release_desc dt w) = idx w"
proof -
  show "table_wf (release_desc dt w) = table_wf w" "view (release_desc dt w) = view w"
    "live (release_desc dt w) = live w" "db (release_desc dt w) = db w"
    by (rule wf_cong; simp add: release_desc_def split: option.split)+
qed (auto simp: release_desc_def lengths_def split: option.split)

text \<open>A key can be opened: its chain is free and a slot is left, or it is open already.\<close>

definition can_open :: "world \<Rightarrow> u64 \<Rightarrow> bool" where
  "can_open w h \<longleftrightarrow>
     h \<noteq> 0 \<and>
     (case XXTABLE w (chain_id h) of
        Some i \<Rightarrow> d_hash (descs w i) = h
      | None \<Rightarrow> \<exists>n<DESC_TABLE_SIZE. slots_used w n)"

text \<open>Everything the holders of open files rely on.\<close>

definition holders_kept :: "world \<Rightarrow> world \<Rightarrow> bool" where
  "holders_kept w w' \<longleftrightarrow>
     table_wf w' \<and> hung w' = hung w \<and> srv_dir w' = srv_dir w \<and>
     (\<forall>j. live w j \<longrightarrow> live w' j \<and> view w' j = view w j \<and> lengths w' j = lengths w j \<and>
        d_hash (descs w' j) = d_hash (descs w j))"

lemma holders_kept_trans: "holders_kept w w' \<Longrightarrow> holders_kept w' w'' \<Longrightarrow> holders_kept w w''"
  by (simp add: holders_kept_def)

lemma holders_kept_opens: "opens w w' n h c sz \<Longrightarrow> holders_kept w w'"
  using opens_other_hash(2)
  by (auto simp: holders_kept_def opens_wf opens_fields opens_view)

lemma holders_kept_touch: "table_wf w \<Longrightarrow> holders_kept w (touch_desc i w)"
  by (simp add: holders_kept_def touch_same)

lemma holders_kept_release: "table_wf w \<Longrightarrow> holders_kept w (release_desc dt w)"
  by (simp add: holders_kept_def release_same)

text \<open>The three outcomes of \<open>prepare_file\<close>: the file is open, is opened or created, or is not there.\<close>

lemma prepare_file_open:
  assumes "table_wf w" and "XXTABLE w (chain_id (key_hash key)) = Some i"
    and "d_hash (descs w i) = key_hash key"
  shows "prepare_file key mode w = (0, Some i, touch_desc i w)"
  using assms by (simp add: prepare_file_no_links table_wf_parts)

lemma prepare_file_closed:
  assumes "table_wf w" and "can_open w (key_hash key)" and "XXTABLE w (chain_id (key_hash key)) = None"
    and "mode \<le> 2" and "mode = 1 \<Longrightarrow> disk w (key_hash key) \<noteq> None"
  obtains n w' where "prepare_file key mode w = (0, Some n, w')"
    "opens w w' n (key_hash key) (opened_content mode (disk w (key_hash key))) (opened_size (disk w (key_hash key)))"
proof -
  obtain n where n: "n < DESC_TABLE_SIZE" "slots_used w n" using assms(2,3) by (auto simp: can_open_def)
  obtain v where v: "open_file (key_hash key) mode w = (int n, v)"
    "opened w (enter_desc n (key_hash key) None 0 v) n (key_hash key)
      (opened_content mode (disk w (key_hash key))) (opened_size (disk w (key_hash key)))"
    using open_file_fresh [OF assms(1) n(2,1) assms(4), of "key_hash key" None] assms(5) by (auto split: if_splits)
  show thesis
  proof (rule that)
    show "prepare_file key mode w = (0, Some n, enter_desc n (key_hash key) None 0 v)"
      using v(1) assms(1,3) by (simp add: prepare_file_no_links table_wf_parts Let_def)
    show "opens w (enter_desc n (key_hash key) None 0 v) n (key_hash key)
        (opened_content mode (disk w (key_hash key))) (opened_size (disk w (key_hash key)))"
      using v(2) assms n by (auto simp: opens_def can_open_def)
  qed
qed

lemma prepare_file_absent:
  assumes wf: "table_wf w" and "can_open w (key_hash key)" and head: "XXTABLE w (chain_id (key_hash key)) = None"
    and "disk w (key_hash key) = None"
  obtains w' where "prepare_file key 1 w = (-2, None, w')" "holders_kept w w'" "db w' = db w"
    "descs w' = descs w" "XXTABLE w' = XXTABLE w"
proof -
  let ?h = "key_hash key"
  obtain n where n: "n < DESC_TABLE_SIZE" "slots_used w n" using assms(2,3) by (auto simp: can_open_def)
  obtain v where v: "open_file ?h 1 w = (-2, v)" "descs v = descs w" "XXTABLE v = XXTABLE w" "idx v = n"
    "faults v = []" "crashed v = crashed w" "hung v = hung w" "srv_dir v = srv_dir w"
    "fs v = fs (mkdirs ?h w)"
    using open_file_fresh [OF wf n(2,1), of 1 ?h] assms(4) by auto
  note p = table_wf_parts [OF wf]
  have f: "fs v (path_of (srv_dir w) g) = fs w (path_of (srv_dir w) g)" for g
    using mkdirs_frame(5) [of ?h w g] by (simp add: v)
  then have isf: "is_file v (path_of (srv_dir w) g) = is_file w (path_of (srv_dir w) g)" for g
    by (simp add: is_file_def)
  have "dirs_ready v" using dirs_ready_mkdirs [OF p(5), of ?h] by (simp add: dirs_ready_def v)
  then have "fs_ready v" using p(9) by (simp add: fs_ready_def v f isf)
  moreover have "slot_ok v j" for j
    using p(6) [of j] by (auto simp: slot_ok_def Let_def v isf split: option.splits)
  moreover have "slots_used v n" using n by (simp add: slots_used_def v)
  ultimately have wfv: "table_wf v"
    using p by (auto simp: table_wf_def no_links_def chains_ok_def v)
  have vw: "view v j = view w j" for j
  proof (cases "d_fd (descs w j)")
    case (Some g)
    then have "f_path g = path_of (srv_dir w) (d_hash (descs w j))"
      using p(6) [of j] by (simp add: slot_ok_def Let_def)
    then have "file_content v (f_path g) = file_content w (f_path g)" by (simp add: file_content_def f)
    then show ?thesis using Some by (simp add: view_def v stream_view_def split: option.split)
  qed (simp add: view_def v)
  have "disk v g = disk w g" for g using f by (simp add: disk_def v)
  then have "db v = db w" using vw by (simp add: db_def v fun_eq_iff split: option.split)
  moreover have "holders_kept w v"
    using wfv vw by (simp add: holders_kept_def v live_def lengths_def)
  moreover have "prepare_file key 1 w = (-2, None, v)"
    using v(1) head p by (simp add: prepare_file_no_links Let_def)
  ultimately show thesis using that v(2,3) by blast
qed

end
