(* ===== verification/Popcount.thy ===== *)
theory Popcount
  imports Prelude
begin

text \<open>
  \<open>redisPopcount\<close> of \<open>bitops.c\<close>: the population count of a memory area, 28 bytes at a time with
  the parallel-sum trick on seven 32-bit words, then byte by byte through a table. The result is
  the number of set bits of the area (\<open>redisPopcount_correct\<close>). A pointer is the list of bytes from
  it on; 32-bit loads are little-endian.
\<close>

unbundle bit_operations_syntax

section \<open>The code\<close>

definition bitsinbyte :: "nat list" where
  "bitsinbyte = [
     0, 1, 1, 2, 1, 2, 2, 3, 1, 2, 2, 3, 2, 3, 3, 4, 1, 2, 2, 3, 2, 3, 3, 4, 2, 3, 3, 4, 3, 4, 4, 5,
     1, 2, 2, 3, 2, 3, 3, 4, 2, 3, 3, 4, 3, 4, 4, 5, 2, 3, 3, 4, 3, 4, 4, 5, 3, 4, 4, 5, 4, 5, 5, 6,
     1, 2, 2, 3, 2, 3, 3, 4, 2, 3, 3, 4, 3, 4, 4, 5, 2, 3, 3, 4, 3, 4, 4, 5, 3, 4, 4, 5, 4, 5, 5, 6,
     2, 3, 3, 4, 3, 4, 4, 5, 3, 4, 4, 5, 4, 5, 5, 6, 3, 4, 4, 5, 4, 5, 5, 6, 4, 5, 5, 6, 5, 6, 6, 7,
     1, 2, 2, 3, 2, 3, 3, 4, 2, 3, 3, 4, 3, 4, 4, 5, 2, 3, 3, 4, 3, 4, 4, 5, 3, 4, 4, 5, 4, 5, 5, 6,
     2, 3, 3, 4, 3, 4, 4, 5, 3, 4, 4, 5, 4, 5, 5, 6, 3, 4, 4, 5, 4, 5, 5, 6, 4, 5, 5, 6, 5, 6, 6, 7,
     2, 3, 3, 4, 3, 4, 4, 5, 3, 4, 4, 5, 4, 5, 5, 6, 3, 4, 4, 5, 4, 5, 5, 6, 4, 5, 5, 6, 5, 6, 6, 7,
     3, 4, 4, 5, 4, 5, 5, 6, 4, 5, 5, 6, 5, 6, 6, 7, 4, 5, 5, 6, 5, 6, 6, 7, 5, 6, 6, 7, 6, 7, 7, 8]"

definition load_u32 :: "byte list \<Rightarrow> u32" where
  "load_u32 p = of_nat (le_load 4 p)"

text \<open>The two statements applied to each of \<open>aux1\<close> to \<open>aux7\<close>.\<close>

definition popcount_aux :: "u32 \<Rightarrow> u32" where
  "popcount_aux aux =
     (let aux = aux - (drop_bit 1 aux AND 0x55555555);
          aux = (aux AND 0x33333333) + (drop_bit 2 aux AND 0x33333333)
      in aux)"

text \<open>One summand of the update of \<open>bits\<close>.\<close>

definition popcount_fold :: "u32 \<Rightarrow> u32" where
  "popcount_fold aux = (aux + drop_bit 4 aux) AND 0x0F0F0F0F"

text \<open>The seven loads of one iteration and the expression added to \<open>bits\<close>.\<close>

definition popcount_28 :: "byte list \<Rightarrow> u32" where
  "popcount_28 p4 =
     (let aux1 = popcount_aux (load_u32 p4);
          aux2 = popcount_aux (load_u32 (drop 4 p4));
          aux3 = popcount_aux (load_u32 (drop 8 p4));
          aux4 = popcount_aux (load_u32 (drop 12 p4));
          aux5 = popcount_aux (load_u32 (drop 16 p4));
          aux6 = popcount_aux (load_u32 (drop 20 p4));
          aux7 = popcount_aux (load_u32 (drop 24 p4))
      in drop_bit 24
           ((popcount_fold aux1 + popcount_fold aux2 + popcount_fold aux3 + popcount_fold aux4 +
             popcount_fold aux5 + popcount_fold aux6 + popcount_fold aux7) * 0x01010101))"

function popcount_words :: "byte list \<Rightarrow> nat \<Rightarrow> u64 \<Rightarrow> byte list \<times> nat \<times> u64" where
  "popcount_words p4 count bits =
     (if 28 \<le> count
      then popcount_words (drop 28 p4) (count - 28) (bits + ucast (popcount_28 p4))
      else (p4, count, bits))"
  by pat_completeness auto
termination
  by (relation "measure (\<lambda>(p4, count, bits). count)") auto

declare popcount_words.simps [simp del]

fun popcount_bytes :: "byte list \<Rightarrow> nat \<Rightarrow> u64 \<Rightarrow> u64" where
  "popcount_bytes p 0 bits = bits"
| "popcount_bytes p (Suc count) bits =
     popcount_bytes (drop 1 p) count (bits + of_nat (bitsinbyte ! unat (byte_at p 0)))"

definition redisPopcount :: "byte list \<Rightarrow> nat \<Rightarrow> u64" where
  "redisPopcount s count =
     (let (p, count, bits) = popcount_words s count 0 in popcount_bytes p count bits)"

section \<open>Specification\<close>

definition popcount :: "byte \<Rightarrow> nat" where
  "popcount b = length (filter (bit b) [0..<8])"

definition popcount_list :: "byte list \<Rightarrow> nat" where
  "popcount_list bs = sum_list (map popcount bs)"

lemma popcount_list_simps [simp]:
  "popcount_list [] = 0"
  "popcount_list (b # bs) = popcount b + popcount_list bs"
  "popcount_list (bs @ cs) = popcount_list bs + popcount_list cs"
  by (simp_all add: popcount_list_def)

lemma popcount_le: "popcount b \<le> 8"
  using length_filter_le [of "bit b" "[0..<8]"] by (simp add: popcount_def)

lemma popcount_list_le: "popcount_list bs \<le> 8 * length bs"
  by (induction bs) (use popcount_le in \<open>auto simp: add_mono\<close>)

section \<open>Byte lanes\<close>

text \<open>Masking, shifting and adding act on each byte of a number separately.\<close>

lemma and_nat_le: "(a::nat) AND c \<le> a"
proof -
  have "int (a AND c) \<le> int a" by (simp add: of_nat_and_eq)
  then show ?thesis by simp
qed

lemma and_nat_le2: "(a::nat) AND c \<le> c"
  using and_nat_le [of c a] by (simp add: and.commute)

lemma and_lanes:
  fixes a b c d :: nat
  assumes "a < 2 ^ n" and "c < 2 ^ n"
  shows "(a + 2 ^ n * b) AND (c + 2 ^ n * d) = (a AND c) + 2 ^ n * (b AND d)"
proof -
  have split: "x + 2 ^ n * y = x OR push_bit n y" if "x < 2 ^ n" for x y :: nat
  proof -
    have "take_bit n x = x" using that by (simp add: take_bit_nat_eq_self)
    then have "\<not> bit x i" if "n \<le> i" for i using that by (metis bit_take_bit_iff not_le)
    then have "x AND push_bit n y = 0" by (intro bit_eqI) (auto simp: bit_simps)
    then show ?thesis using disjunctive_add_eq_or [of x "push_bit n y"] by (simp add: push_bit_eq_mult mult.commute)
  qed
  have hi: "\<not> bit a i" "\<not> bit c i" if "n \<le> i" for i
    using assms that by (metis bit_take_bit_iff not_le take_bit_nat_eq_self)+
  have "a AND c < 2 ^ n" using assms(1) by (rule le_less_trans [OF and_nat_le])
  then show ?thesis
    unfolding split [OF assms(1)] split [OF assms(2)] split [OF \<open>a AND c < 2 ^ n\<close>]
    using hi by (intro bit_eqI) (auto simp: bit_simps)
qed

lemma and_byte:
  fixes a b c d :: nat
  assumes "a < 256" and "c < 256"
  shows "(a + 256 * b) AND (c + 256 * d) = (a AND c) + 256 * (b AND d)"
  using and_lanes [of a 8 c b d] assms by simp

text \<open>The three steps of the parallel sum on one byte.\<close>

definition pair_sums :: "nat \<Rightarrow> nat" where
  "pair_sums u = u - ((u div 2) AND 85)"

definition nibble_sums :: "nat \<Rightarrow> nat" where
  "nibble_sums u = (u AND 51) + ((u div 4) AND 51)"

definition byte_sum :: "nat \<Rightarrow> nat" where
  "byte_sum u = (u + u div 16) AND 15"

text \<open>Every step maps the lowest byte on its own and leaves the same step to the rest.\<close>

lemma pair_sums_lane:
  assumes "u < 256"
  shows "(u + 256 * v) - (((u + 256 * v) div 2) AND (85 + 256 * m)) = pair_sums u + 256 * (v - ((v div 2) AND m))"
proof -
  have "(u div 2 + 128 * (v mod 2)) AND 85 = (u div 2) AND 85"
    using and_lanes [of "u div 2" 7 85 "v mod 2" 0] assms by simp
  moreover have "(u + 256 * v) div 2 = (u div 2 + 128 * (v mod 2)) + 256 * (v div 2)"
    using mult_div_mod_eq [of 2 v] by linarith
  moreover have "u div 2 + 128 * (v mod 2) < 256" using assms mod_less_divisor [of 2 v] by linarith
  ultimately have "((u + 256 * v) div 2) AND (85 + 256 * m) = ((u div 2) AND 85) + 256 * ((v div 2) AND m)"
    using and_byte [of "u div 2 + 128 * (v mod 2)" 85 "v div 2" m] by simp
  moreover have "(u div 2) AND 85 \<le> u" "(v div 2) AND m \<le> v"
    using and_nat_le [of "u div 2" 85] and_nat_le [of "v div 2" m] by linarith+
  ultimately show ?thesis unfolding pair_sums_def by linarith
qed

lemma nibble_sums_lane:
  assumes "u < 256"
  shows "((u + 256 * v) AND (51 + 256 * m)) + (((u + 256 * v) div 4) AND (51 + 256 * m)) =
    nibble_sums u + 256 * ((v AND m) + ((v div 4) AND m))"
proof -
  have "(u div 4 + 64 * (v mod 4)) AND 51 = (u div 4) AND 51"
    using and_lanes [of "u div 4" 6 51 "v mod 4" 0] assms by simp
  moreover have "(u + 256 * v) div 4 = (u div 4 + 64 * (v mod 4)) + 256 * (v div 4)"
    using mult_div_mod_eq [of 4 v] by linarith
  moreover have "u div 4 + 64 * (v mod 4) < 256" using assms mod_less_divisor [of 4 v] by linarith
  ultimately have "((u + 256 * v) div 4) AND (51 + 256 * m) = ((u div 4) AND 51) + 256 * ((v div 4) AND m)"
    using and_byte [of "u div 4 + 64 * (v mod 4)" 51 "v div 4" m] by simp
  then show ?thesis using and_byte [of u 51 v m] assms by (simp add: nibble_sums_def)
qed

lemma byte_sum_lane:
  assumes "u + u div 16 + 16 * (v mod 16) < 256"
  shows "((u + 256 * v) + (u + 256 * v) div 16) AND (15 + 256 * m) = byte_sum u + 256 * ((v + v div 16) AND m)"
proof -
  obtain q r where v: "v = 16 * q + r" "r < 16" by (metis mod_less_divisor mult_div_mod_eq zero_less_numeral)
  then have qr: "v div 16 = q" "v mod 16 = r" by simp_all
  have "(u + 256 * v) div 16 = u div 16 + 16 * v" by linarith
  then have e: "(u + 256 * v) + (u + 256 * v) div 16 = (u + u div 16 + 16 * r) + 256 * (v + q)"
    using v by simp
  have f: "(u + u div 16 + 16 * r) AND 15 = byte_sum u"
    using take_bit_eq_mask [of 4 "u + u div 16 + 16 * r"] take_bit_eq_mask [of 4 "u + u div 16"]
    by (simp add: byte_sum_def take_bit_eq_mod mask_numeral)
  have "u + u div 16 + 16 * r < 256" using assms qr by simp
  then have "((u + u div 16 + 16 * r) + 256 * (v + q)) AND (15 + 256 * m) = byte_sum u + 256 * ((v + q) AND m)"
    by (subst and_byte) (simp_all add: f)
  then show ?thesis unfolding e qr .
qed

text \<open>On a single byte the steps compute the population count; checked for all 256 bytes.\<close>

definition nibbles :: "nat list" where
  "nibbles = [0, 1, 2, 3, 4, 5, 6, 7, 8, 9, 10, 11, 12, 13, 14, 15]"

lemma all_bytes:
  assumes "list_all (\<lambda>h. list_all (\<lambda>l. P (16 * h + l)) nibbles) nibbles" and "u < 256"
  shows "P u"
proof -
  have n: "x < 16 \<Longrightarrow> x \<in> set nibbles" for x :: nat
    by (simp add: nibbles_def numeral_eq_Suc less_Suc_eq)
  have "u div 16 \<in> set nibbles" "u mod 16 \<in> set nibbles" using assms(2) by (intro n; simp)+
  with assms(1) have "P (16 * (u div 16) + u mod 16)" unfolding list_all_iff by blast
  then show ?thesis by (simp only: mult_div_mod_eq)
qed

text \<open>The binary digits of a byte, summed.\<close>

definition bitsum :: "nat \<Rightarrow> nat" where
  "bitsum u = u mod 2 + u div 2 mod 2 + u div 4 mod 2 + u div 8 mod 2 +
     u div 16 mod 2 + u div 32 mod 2 + u div 64 mod 2 + u div 128 mod 2"

lemma length_filter_sum: "length (filter P xs) = (\<Sum>x\<leftarrow>xs. of_bool (P x))"
  by (induction xs) auto

lemma popcount_bitsum: "popcount b = bitsum (unat b)"
proof -
  have b: "of_bool (bit u k) = u div 2 ^ k mod 2" for u k :: nat
    by (simp add: bit_iff_odd of_bool_odd_eq_mod_2)
  have u: "[0..<8] = [0, 1, 2, 3, 4, 5, 6, 7]" by (simp add: upt_rec)
  have "popcount b = length (filter (bit (unat b)) [0..<8])"
    by (auto simp: popcount_def bit_unsigned_iff intro!: arg_cong [where f = length] filter_cong)
  then show ?thesis unfolding length_filter_sum bitsum_def b unfolding u by simp
qed

lemma step_bounds:
  assumes "u < 256"
  shows "pair_sums u < 256 \<and> nibble_sums (pair_sums u) < 69 \<and> nibble_sums (pair_sums u) mod 16 \<le> 4"
    (is "?P u")
proof -
  have "list_all (\<lambda>h. list_all (\<lambda>l. ?P (16 * h + l)) nibbles) nibbles"
    by (simp add: nibbles_def) (simp add: pair_sums_def nibble_sums_def)
  then show ?thesis using assms by (rule all_bytes)
qed

lemma steps_bitsum:
  assumes "u < 256"
  shows "byte_sum (nibble_sums (pair_sums u)) = bitsum u" (is "?P u")
proof -
  have "list_all (\<lambda>h. list_all (\<lambda>l. ?P (16 * h + l)) nibbles) nibbles"
    apply (simp add: nibbles_def)
    apply (simp add: pair_sums_def nibble_sums_def byte_sum_def bitsum_def)
    apply (simp flip: numeral_2_eq_2 numeral_3_eq_3)
    done
  then show ?thesis using assms by (rule all_bytes)
qed

lemma table_bitsum:
  assumes "u < 256"
  shows "bitsinbyte ! u = bitsum u" (is "?P u")
proof -
  have "list_all (\<lambda>h. list_all (\<lambda>l. ?P (16 * h + l)) nibbles) nibbles"
    by (simp add: nibbles_def) (simp add: bitsinbyte_def bitsum_def)
  then show ?thesis using assms by (rule all_bytes)
qed

lemma bitsinbyte_eq: "bitsinbyte ! unat b = popcount b"
  using table_bitsum [OF unat_byte_less, of b] by (simp add: popcount_bitsum)

section \<open>One word\<close>

lemma unat_popcount_aux:
  "unat (popcount_aux x) =
     (let y = unat x - ((unat x div 2) AND 0x55555555)
      in (y AND 0x33333333) + ((y div 4) AND 0x33333333))"
proof -
  let ?y = "x - (drop_bit 1 x AND 0x55555555)"
  have shr: "unat (drop_bit k w AND m) = (unat w div 2 ^ k) AND unat m" for k and w m :: u32
    by (simp only: unsigned_and_eq unat_drop_bit_eq) (simp add: drop_bit_eq_div)
  have m1: "unat (drop_bit 1 x AND 0x55555555) = (unat x div 2) AND 0x55555555"
    using shr [of 1 x "0x55555555"] by simp
  have "unat (drop_bit 1 x AND 0x55555555) \<le> unat x"
    unfolding m1 by (rule le_trans [OF and_nat_le]) simp
  then have y: "unat ?y = unat x - ((unat x div 2) AND 0x55555555)"
    unfolding m1 [symmetric] by (intro unat_sub) (simp add: word_le_nat_alt)
  have "unat (?y AND 0x33333333) \<le> 0x33333333" "unat (drop_bit 2 ?y AND 0x33333333) \<le> 0x33333333"
    by (simp_all add: unsigned_and_eq and_nat_le2)
  then have "unat ((?y AND 0x33333333) + (drop_bit 2 ?y AND 0x33333333)) =
      unat (?y AND 0x33333333) + unat (drop_bit 2 ?y AND 0x33333333)"
    by (subst unat_add_lem [THEN iffD1]) simp_all
  then show ?thesis using shr [of 2 ?y "0x33333333"] y
    by (simp add: popcount_aux_def Let_def unsigned_and_eq)
qed

text \<open>Four bytes as a little-endian number.\<close>

definition lanes4 :: "nat \<Rightarrow> nat \<Rightarrow> nat \<Rightarrow> nat \<Rightarrow> nat" where
  "lanes4 a b c d = a + 256 * (b + 256 * (c + 256 * d))"

lemma lanes4_masks:
  "(0x55555555 :: nat) = 85 + 256 * (85 + 256 * (85 + 256 * 85))"
  "(0x33333333 :: nat) = 51 + 256 * (51 + 256 * (51 + 256 * 51))"
  "(0x0F0F0F0F :: nat) = 15 + 256 * (15 + 256 * (15 + 256 * 15))"
  by simp_all

lemma lanes4_less:
  assumes "a < 256" "b < 256" "c < 256" "d < 256"
  shows "lanes4 a b c d < 2 ^ 32"
  using assms by (simp add: lanes4_def)

lemma pair_sums4:
  assumes "a < 256" "b < 256" "c < 256"
  shows "lanes4 a b c d - ((lanes4 a b c d div 2) AND 0x55555555) =
    lanes4 (pair_sums a) (pair_sums b) (pair_sums c) (pair_sums d)"
  unfolding lanes4_def lanes4_masks pair_sums_lane [OF assms(1)] pair_sums_lane [OF assms(2)]
    pair_sums_lane [OF assms(3)] by (simp add: pair_sums_def)

lemma nibble_sums4:
  assumes "a < 256" "b < 256" "c < 256"
  shows "(lanes4 a b c d AND 0x33333333) + ((lanes4 a b c d div 4) AND 0x33333333) =
    lanes4 (nibble_sums a) (nibble_sums b) (nibble_sums c) (nibble_sums d)"
  unfolding lanes4_def lanes4_masks nibble_sums_lane [OF assms(1)] nibble_sums_lane [OF assms(2)]
    nibble_sums_lane [OF assms(3)] by (simp add: nibble_sums_def)

lemma byte_sum4:
  assumes "a < 69" "b < 69" "c < 69" "b mod 16 \<le> 4" "c mod 16 \<le> 4" "d mod 16 \<le> 4"
  shows "(lanes4 a b c d + lanes4 a b c d div 16) AND 0x0F0F0F0F =
    lanes4 (byte_sum a) (byte_sum b) (byte_sum c) (byte_sum d)"
proof -
  have lo: "u + u div 16 + 16 * (v mod 16) < 256" if "u < 69" "v mod 16 \<le> 4" for u v :: nat
    using that by linarith
  have m: "(x + 256 * y) mod 16 = x mod 16" for x y :: nat
    using mod_mult_self2 [of x 16 "16 * y"] by simp
  have step: "((u + 256 * v) + (u + 256 * v) div 16) AND (15 + 256 * k) = byte_sum u + 256 * ((v + v div 16) AND k)"
    if "u < 69" "v mod 16 \<le> 4" for u v k :: nat
    using byte_sum_lane [OF lo [OF that]] .
  show ?thesis
    unfolding lanes4_def lanes4_masks by (simp only: step m assms) (simp add: byte_sum_def)
qed

lemma unat_load_u32:
  "unat (load_u32 (a # b # c # d # p)) = lanes4 (unat a) (unat b) (unat c) (unat d)"
proof -
  have "lanes4 (unat a) (unat b) (unat c) (unat d) < 2 ^ LENGTH(32)"
    using lanes4_less [OF unat_byte_less unat_byte_less unat_byte_less unat_byte_less, of a b c d] by simp
  moreover have "le_load 4 (a # b # c # d # p) = lanes4 (unat a) (unat b) (unat c) (unat d)"
    by (simp add: lanes4_def)
  ultimately show ?thesis unfolding load_u32_def by (simp only: unat_of_nat_small)
qed

lemma popcount_word:
  "unat (popcount_fold (popcount_aux (load_u32 (a # b # c # d # p)))) =
    lanes4 (popcount a) (popcount b) (popcount c) (popcount d)"
proof -
  let ?f = "\<lambda>x :: byte. nibble_sums (pair_sums (unat x))"
  have bd: "pair_sums (unat x) < 256" "?f x < 69" "?f x mod 16 \<le> 4" "byte_sum (?f x) = popcount x" for x
    using step_bounds [OF unat_byte_less, of x] steps_bitsum [OF unat_byte_less, of x] popcount_bitsum [of x]
    by auto
  let ?w = "popcount_aux (load_u32 (a # b # c # d # p))"
  have w: "unat ?w = lanes4 (?f a) (?f b) (?f c) (?f d)"
    unfolding unat_popcount_aux unat_load_u32 Let_def
    by (simp only: pair_sums4 nibble_sums4 unat_byte_less bd)
  have s: "unat (?w + drop_bit 4 ?w) = unat ?w + unat ?w div 16"
  proof -
    have d: "unat (drop_bit 4 ?w) = unat ?w div 16"
      by (simp only: unat_drop_bit_eq) (simp add: drop_bit_eq_div)
    have "unat ?w < 2 ^ 31"
      unfolding w lanes4_def using bd(2) [of a] bd(2) [of b] bd(2) [of c] bd(2) [of d] by simp
    then have "unat ?w + unat (drop_bit 4 ?w) < 2 ^ LENGTH(32)" unfolding d by simp
    then show ?thesis by (simp only: unat_add_lem [THEN iffD1] d)
  qed
  show ?thesis
    unfolding popcount_fold_def unsigned_and_eq s w
    using byte_sum4 [of "?f a" "?f b" "?f c" "?f d"] bd by simp
qed

section \<open>Seven words\<close>

text \<open>
  \<open>x\<close> holds in its four byte lanes the sums of \<open>m\<close> population counts each, \<open>t\<close> in all.
\<close>

definition lane_sums :: "u32 \<Rightarrow> nat \<Rightarrow> nat \<Rightarrow> bool" where
  "lane_sums x m t \<longleftrightarrow> (\<exists>a b c d. unat x = lanes4 a b c d \<and>
     a \<le> 8 * m \<and> b \<le> 8 * m \<and> c \<le> 8 * m \<and> d \<le> 8 * m \<and> a + b + c + d = t)"

lemma lane_sums_word:
  assumes "4 \<le> length p"
  shows "lane_sums (popcount_fold (popcount_aux (load_u32 p))) 1 (popcount_list (take 4 p))"
proof -
  from assms obtain w x y z q where p: "p = w # x # y # z # q"
    by (auto simp: numeral_eq_Suc Suc_le_length_iff)
  show ?thesis
    unfolding lane_sums_def p
    by (intro exI [of _ "popcount w"] exI [of _ "popcount x"] exI [of _ "popcount y"] exI [of _ "popcount z"])
       (simp add: popcount_word popcount_le)
qed

lemma lanes4_add: "lanes4 a b c d + lanes4 a' b' c' d' = lanes4 (a + a') (b + b') (c + c') (d + d')"
  by (simp add: lanes4_def)

lemma lane_sums_add:
  assumes "lane_sums x m t" and "lane_sums y 1 t'" and "m < 31"
  shows "lane_sums (x + y) (m + 1) (t + t')"
proof -
  from assms(1) obtain a b c d where x: "unat x = lanes4 a b c d"
    "a \<le> 8 * m" "b \<le> 8 * m" "c \<le> 8 * m" "d \<le> 8 * m" "a + b + c + d = t"
    by (auto simp: lane_sums_def)
  from assms(2) obtain a' b' c' d' where y: "unat y = lanes4 a' b' c' d'"
    "a' \<le> 8" "b' \<le> 8" "c' \<le> 8" "d' \<le> 8" "a' + b' + c' + d' = t'"
    by (auto simp: lane_sums_def)
  have "unat x + unat y < 2 ^ LENGTH(32)"
    unfolding x(1) y(1) lanes4_add using x y assms(3) lanes4_less [of "a + a'" "b + b'" "c + c'" "d + d'"] by simp
  then have "unat (x + y) = lanes4 (a + a') (b + b') (c + c') (d + d')"
    by (simp only: unat_add_lem [THEN iffD1] x(1) y(1) lanes4_add)
  then show ?thesis
    unfolding lane_sums_def using x y
    by (intro exI [of _ "a + a'"] exI [of _ "b + b'"] exI [of _ "c + c'"] exI [of _ "d + d'"]) simp
qed

text \<open>Multiplying by \<open>0x01010101\<close> collects the four lanes in the top byte.\<close>

lemma lanes4_collect:
  assumes "a + b + c + d < 256"
  shows "lanes4 a b c d * 0x01010101 mod 2 ^ 32 div 2 ^ 24 = a + b + c + d"
proof -
  let ?lo = "a + 2 ^ 8 * (a + b) + 2 ^ 16 * (a + b + c)"
  let ?low = "?lo + 2 ^ 24 * (a + b + c + d)"
  have e: "lanes4 a b c d * 0x01010101 = ?low + 2 ^ 32 * (b + c + d + 256 * (c + d) + 65536 * d)"
    by (simp add: lanes4_def algebra_simps)
  have "?low < 2 ^ 32" "?lo < 2 ^ 24" using assms by simp_all
  then show ?thesis unfolding e mod_mult_self2 by (simp only: mod_less div_mult_self2 div_less)
qed

lemma lane_sums_collect:
  assumes "lane_sums x m t" and "m \<le> 7"
  shows "unat (drop_bit 24 (x * 0x01010101)) = t"
proof -
  from assms obtain a b c d where x: "unat x = lanes4 a b c d" "a + b + c + d = t" "a + b + c + d < 256"
    by (fastforce simp: lane_sums_def)
  have "unat (drop_bit 24 (x * 0x01010101)) = lanes4 a b c d * 0x01010101 mod 2 ^ 32 div 2 ^ 24"
    by (simp only: unat_drop_bit_eq unat_word_ariths x(1)) (simp add: drop_bit_eq_div)
  then show ?thesis using lanes4_collect [OF x(3)] x(2) by simp
qed

lemma popcount_group:
  assumes "28 \<le> length p"
  shows "unat (popcount_28 p) = popcount_list (take 28 p)"
proof -
  define x where "x = popcount_fold (popcount_aux (load_u32 p)) +
      popcount_fold (popcount_aux (load_u32 (drop 4 p))) + popcount_fold (popcount_aux (load_u32 (drop 8 p))) +
      popcount_fold (popcount_aux (load_u32 (drop 12 p))) + popcount_fold (popcount_aux (load_u32 (drop 16 p))) +
      popcount_fold (popcount_aux (load_u32 (drop 20 p))) + popcount_fold (popcount_aux (load_u32 (drop 24 p)))"
  have "lane_sums x (1 + 1 + 1 + 1 + 1 + 1 + 1)
     (popcount_list (take 4 p) + popcount_list (take 4 (drop 4 p)) + popcount_list (take 4 (drop 8 p)) +
      popcount_list (take 4 (drop 12 p)) + popcount_list (take 4 (drop 16 p)) +
      popcount_list (take 4 (drop 20 p)) + popcount_list (take 4 (drop 24 p)))"
    unfolding x_def using assms by (intro lane_sums_add lane_sums_word) simp_all
  then have "unat (drop_bit 24 (x * 0x01010101)) =
      popcount_list (take 4 p) + popcount_list (take 4 (drop 4 p)) + popcount_list (take 4 (drop 8 p)) +
      popcount_list (take 4 (drop 12 p)) + popcount_list (take 4 (drop 16 p)) +
      popcount_list (take 4 (drop 20 p)) + popcount_list (take 4 (drop 24 p))"
    by (rule lane_sums_collect) simp
  moreover have "take 28 p = take 4 p @ take 4 (drop 4 p) @ take 4 (drop 8 p) @ take 4 (drop 12 p) @
      take 4 (drop 16 p) @ take 4 (drop 20 p) @ take 4 (drop 24 p)"
    using take_add [of 4 24 p] take_add [of 4 20 "drop 4 p"] take_add [of 4 16 "drop 8 p"]
      take_add [of 4 12 "drop 12 p"] take_add [of 4 8 "drop 16 p"] take_add [of 4 4 "drop 20 p"]
    by simp
  ultimately show ?thesis unfolding popcount_28_def Let_def x_def by (simp only: popcount_list_simps add.assoc)
qed

section \<open>The whole area\<close>

lemma popcount_words_eq:
  "n \<le> length p \<Longrightarrow> popcount_words p n bits =
     (drop (28 * (n div 28)) p, n mod 28, bits + of_nat (popcount_list (take (28 * (n div 28)) p)))"
proof (induction p n bits rule: popcount_words.induct)
  case (1 p n bits)
  show ?case
  proof (cases "28 \<le> n")
    case True
    have n: "n div 28 = Suc ((n - 28) div 28)" "n mod 28 = (n - 28) mod 28"
      using True by (simp_all add: le_div_geq le_mod_geq)
    have g: "ucast (popcount_28 p) = (of_nat (popcount_list (take 28 p)) :: u64)"
    proof -
      have "unat (popcount_28 p) = popcount_list (take 28 p)"
        using True "1.prems" by (intro popcount_group) simp
      then show ?thesis by (metis of_nat_unat)
    qed
    have "popcount_words p n bits = popcount_words (drop 28 p) (n - 28) (bits + ucast (popcount_28 p))"
      using True by (subst popcount_words.simps) simp
    also have "\<dots> = (drop (28 * ((n - 28) div 28)) (drop 28 p), (n - 28) mod 28,
        bits + ucast (popcount_28 p) + of_nat (popcount_list (take (28 * ((n - 28) div 28)) (drop 28 p))))"
      using True "1.prems" by (intro "1.IH") auto
    finally show ?thesis by (simp add: n g take_add add.commute)
  next
    case False
    then show ?thesis by (subst popcount_words.simps) simp
  qed
qed

lemma popcount_bytes_eq:
  "n \<le> length p \<Longrightarrow> popcount_bytes p n bits = bits + of_nat (popcount_list (take n p))"
proof (induction n arbitrary: p bits)
  case (Suc n)
  then obtain b q where "p = b # q" by (cases p) auto
  with Suc show ?case by (simp add: byte_at_def bitsinbyte_eq)
qed simp

theorem redisPopcount_correct:
  assumes "count \<le> length s"
  shows "redisPopcount s count = of_nat (popcount_list (take count s))"
proof -
  have "count mod 28 \<le> length (drop (28 * (count div 28)) s)"
    using assms by (metis diff_le_mono length_drop minus_mult_div_eq_mod)
  then have "redisPopcount s count = of_nat (popcount_list (take (28 * (count div 28)) s) +
      popcount_list (take (count mod 28) (drop (28 * (count div 28)) s)))"
    using assms by (simp add: redisPopcount_def popcount_words_eq popcount_bytes_eq)
  also have "popcount_list (take (28 * (count div 28)) s) +
      popcount_list (take (count mod 28) (drop (28 * (count div 28)) s)) = popcount_list (take count s)"
    using take_add [of "28 * (count div 28)" "count mod 28" s] by simp
  finally show ?thesis .
qed

end
