(* ===== verification/BitOps.thy ===== *)
theory BitOps
  imports TableOpen Popcount
begin

text \<open>
  The single-key commands of \<open>bitops.c\<close>: \<open>setbitCommand\<close>, \<open>getbitCommand\<close> and \<open>bitcountCommand\<close>.
  Bit \<open>i\<close> of a content is bit \<open>7 - i mod 8\<close> of byte \<open>i div 8\<close>. The lemmas show that the commands
  read, write and count these bits, with the counting loop verified against any byte store.
\<close>

definition FILE_BUFFER_SIZE :: nat where "FILE_BUFFER_SIZE = 1146880"

lemma FILE_BUFFER_SIZE_pos [simp]: "0 < FILE_BUFFER_SIZE"
  by (simp add: FILE_BUFFER_SIZE_def)

section \<open>Commands\<close>

record setbit_cmd =
  sb_key :: "byte list"
  sb_offset :: int
  sb_value :: int

record getbit_cmd =
  gb_key :: "byte list"
  gb_offset :: int

record bitcount_cmd =
  bc_key :: "byte list"
  bc_start :: int
  bc_end :: int

text \<open>The byte a command works on: \<open>None\<close> if the read fails, the number 0 beyond the end.\<close>

definition setbitCommand :: "setbit_cmd \<Rightarrow> nat \<Rightarrow> world \<Rightarrow> int \<times> world" where
  "setbitCommand cmd dt w =
     (let offset = to_size (sb_offset cmd div 8);
          bit = 7 - nat (sb_offset cmd mod 8);
          update = (\<lambda>byteval :: byte. \<lambda>bitval :: byte. \<lambda>w.
            let byteval = byteval AND NOT (push_bit bit 1);
                byteval = byteval OR push_bit bit (of_int (sb_value cmd AND 1));
                (r, w) = write_to dt [byteval] (to_off offset) w
            in if r = 0 then (-1, w) else (if bitval \<noteq> 0 then 1 else 0, w))
      in if offset < d_length (descs w dt)
         then (let (r, dst, w) = read_from dt 1 (to_off offset) w
               in if r = 0 then (-1, w)
                  else update (hd dst) (hd dst AND push_bit bit 1) w)
         else if sb_value cmd = 0 then (0, w)
         else update 0 0 w)"

definition getbitCommand :: "getbit_cmd \<Rightarrow> nat \<Rightarrow> world \<Rightarrow> int \<times> world" where
  "getbitCommand cmd dt w =
     (let offset = to_size (gb_offset cmd div 8);
          bit = 7 - nat (gb_offset cmd mod 8)
      in if offset < d_length (descs w dt)
         then (let (r, dst, w) = read_from dt 1 (to_off offset) w
               in if r = 0 then (-1, w)
                  else (if hd dst AND push_bit bit 1 \<noteq> 0 then 1 else 0, w))
         else (0, w))"

text \<open>The reading loop of \<open>bitcountCommand\<close>; \<open>rd\<close> is \<open>read_from dt\<close>.\<close>

function count_loop ::
    "(nat \<Rightarrow> int \<Rightarrow> 'w \<Rightarrow> nat \<times> byte list \<times> 'w) \<Rightarrow> nat \<Rightarrow> nat \<Rightarrow> u64 \<Rightarrow> 'w \<Rightarrow> u64 \<times> 'w" where
  "count_loop rd remaining off bits w =
     (if 0 < remaining
      then (let to_read = (if remaining < FILE_BUFFER_SIZE then remaining else FILE_BUFFER_SIZE);
                (r, s, w) = rd to_read (to_off off) w
            in if r = 0 then (bits, w)
               else count_loop rd (remaining - r) (off + r) (bits + redisPopcount s r) w)
      else (bits, w))"
  by pat_completeness auto
termination by (relation "measure (\<lambda>(rd, remaining, _). remaining)") auto

declare count_loop.simps [simp del]

text \<open>The interval after \<open>bitcountCommand\<close> has resolved negative positions and the end.\<close>

definition clamp_start :: "nat \<Rightarrow> int \<Rightarrow> int" where
  "clamp_start len s = (if s < 0 then (if int len + s < 0 then 0 else int len + s) else s)"

definition clamp_end :: "nat \<Rightarrow> int \<Rightarrow> int" where
  "clamp_end len e =
     (let e = (if e < 0 then (if int len + e < 0 then 0 else int len + e) else e)
      in if len \<le> to_size e then int len - 1 else e)"

definition bitcountCommand :: "bitcount_cmd \<Rightarrow> nat \<Rightarrow> world \<Rightarrow> int \<times> world" where
  "bitcountCommand cmd dt w =
     (let len = d_length (descs w dt)
      in if bc_start cmd < 0 \<and> bc_end cmd < 0 \<and> bc_end cmd < bc_start cmd then (0, w)
         else let s = clamp_start len (bc_start cmd); e = clamp_end len (bc_end cmd)
              in if e < s then (0, w)
                 else let (ok, w) = alloc_ok w
                      in if \<not> ok then (-1, w)
                         else let (bits, w) = count_loop (read_from dt) (nat (e - s + 1)) (nat s) 0 w
                              in (sint bits, w))"

section \<open>Bits of a content\<close>

definition get_bit :: "byte list \<Rightarrow> nat \<Rightarrow> bool" where
  "get_bit c i = bit (byte_at c (i div 8)) (7 - i mod 8)"

text \<open>The byte with one bit replaced, and the content with one bit replaced.\<close>

definition put_bit :: "byte \<Rightarrow> nat \<Rightarrow> bool \<Rightarrow> byte" where
  "put_bit b k v = (b AND NOT (push_bit k 1)) OR push_bit k (of_bool v)"

definition set_bit_at :: "byte list \<Rightarrow> nat \<Rightarrow> bool \<Rightarrow> byte list" where
  "set_bit_at c i v = write_at c (i div 8) [put_bit (byte_at c (i div 8)) (7 - i mod 8) v]"

text \<open>What \<open>setbitCommand\<close> leaves: a 0 beyond the end is not written.\<close>

definition setbit_content :: "byte list \<Rightarrow> nat \<Rightarrow> bool \<Rightarrow> byte list" where
  "setbit_content c i v = (if length c \<le> i div 8 \<and> \<not> v then c else set_bit_at c i v)"

lemma bit_put_bit: "k < 8 \<Longrightarrow> j < 8 \<Longrightarrow> bit (put_bit b k v) j = (if j = k then v else bit b j)"
  by (cases v) (auto simp: put_bit_def bit_and_iff bit_or_iff bit_not_iff bit_exp_iff)

lemma and_bit_iff: "k < 8 \<Longrightarrow> ((b :: byte) AND push_bit k 1 \<noteq> 0) = bit b k"
  by (simp add: and_exp_eq_0_iff_not_bit push_bit_eq_mult)

lemma same_bit_iff: "i div 8 = j div 8 \<Longrightarrow> (7 - i mod 8 = 7 - j mod 8) = (i = (j :: nat))"
proof -
  assume d: "i div 8 = j div 8"
  have "i mod 8 < 8" "j mod 8 < 8" by simp_all
  then have "(7 - i mod 8 = 7 - j mod 8) = (i mod 8 = j mod 8)" by linarith
  also have "\<dots> = (i = j)" using d by (metis div_mult_mod_eq)
  finally show ?thesis .
qed

lemma get_set_bit: "get_bit (set_bit_at c i v) j = (if j = i then v else get_bit c j)"
proof (cases "j div 8 = i div 8")
  case True
  have "7 - i mod 8 < 8" "7 - j mod 8 < 8" by simp_all
  then show ?thesis using same_bit_iff [OF True] True
    by (auto simp: get_bit_def set_bit_at_def byte_at_write_at bit_put_bit)
next
  case False
  then have "\<not> (i div 8 \<le> j div 8 \<and> j div 8 < i div 8 + 1)" by linarith
  then have "byte_at (set_bit_at c i v) (j div 8) = byte_at c (j div 8)"
    unfolding set_bit_at_def byte_at_write_at by auto
  then show ?thesis using False by (auto simp: get_bit_def)
qed

lemma get_bit_beyond: "length c \<le> i div 8 \<Longrightarrow> \<not> get_bit c i"
  by (simp add: get_bit_def)

lemma get_setbit_content: "get_bit (setbit_content c i v) j = (if j = i then v else get_bit c j)"
  by (auto simp: setbit_content_def get_set_bit get_bit_beyond)

lemma length_setbit_content:
  "length (setbit_content c i v) = (if v then max (length c) (i div 8 + 1) else length c)"
  by (auto simp: setbit_content_def set_bit_at_def)

text \<open>The population count is the number of set bits.\<close>

definition set_bits :: "byte list \<Rightarrow> nat set" where
  "set_bits c = {i. i < 8 * length c \<and> get_bit c i}"

lemma popcount_card: "popcount b = card {k. k < 8 \<and> bit b (7 - k)}"
proof -
  have "popcount b = card (set (filter (bit b) [0..<8]))"
    unfolding popcount_def by (rule distinct_card [symmetric]) simp
  also have "set (filter (bit b) [0..<8]) = (\<lambda>k. 7 - k) ` {k. k < 8 \<and> bit b (7 - k)}"
  proof (rule set_eqI)
    fix j
    show "j \<in> set (filter (bit b) [0..<8]) \<longleftrightarrow> j \<in> (\<lambda>k. 7 - k) ` {k. k < 8 \<and> bit b (7 - k)}"
    proof
      assume "j \<in> set (filter (bit b) [0..<8])"
      then show "j \<in> (\<lambda>k. 7 - k) ` {k. k < 8 \<and> bit b (7 - k)}"
        by (intro rev_image_eqI [of "7 - j"]) auto
    qed auto
  qed
  also have "card \<dots> = card {k. k < 8 \<and> bit b (7 - k)}"
    by (rule card_image) (auto simp: inj_on_def)
  finally show ?thesis .
qed

lemma set_bits_Cons:
  "set_bits (b # c) = {k. k < 8 \<and> bit b (7 - k)} \<union> (\<lambda>i. i + 8) ` set_bits c"
proof (rule set_eqI)
  fix i
  show "i \<in> set_bits (b # c) \<longleftrightarrow> i \<in> {k. k < 8 \<and> bit b (7 - k)} \<union> (\<lambda>i. i + 8) ` set_bits c"
  proof (cases "i < 8")
    case True
    then show ?thesis by (auto simp: set_bits_def get_bit_def)
  next
    case False
    then obtain j where j: "i = j + 8" by (metis add.commute le_Suc_ex not_less)
    have "(j + 8) div 8 = j div 8 + 1" "(j + 8) mod 8 = j mod 8" by simp_all
    then have "get_bit (b # c) (j + 8) = get_bit c j"
      by (simp add: get_bit_def byte_at_def)
    then show ?thesis by (auto simp: set_bits_def j image_iff)
  qed
qed

lemma finite_set_bits: "finite (set_bits c)"
  by (rule finite_subset [of _ "{..<8 * length c}"]) (auto simp: set_bits_def)

lemma popcount_list_card: "popcount_list c = card (set_bits c)"
proof (induction c)
  case Nil
  then show ?case by (simp add: set_bits_def)
next
  case (Cons b c)
  have "card (set_bits (b # c)) =
      card {k. k < 8 \<and> bit b (7 - k)} + card ((\<lambda>i. i + 8) ` set_bits c)"
    unfolding set_bits_Cons by (rule card_Un_disjoint) (auto simp: finite_set_bits)
  also have "card ((\<lambda>i. i + 8) ` set_bits c) = card (set_bits c)"
    by (rule card_image) simp
  finally show ?case using Cons by (simp add: popcount_card)
qed

section \<open>Reading and writing a bit\<close>

lemma position:
  assumes "0 \<le> p" and "p < 2 ^ 63"
  shows "to_size (p div 8) = nat p div 8" and "nat (p mod 8) = nat p mod 8"
    and "to_off (nat p div 8) = int (nat p div 8)"
proof -
  have "p div 8 \<le> p" using assms(1) by (simp add: div_le_dividend)
  then have "p div 8 < 2 ^ 63" using assms(2) by (rule le_less_trans)
  then have "0 \<le> p div 8" "p div 8 < 2 ^ 64" using assms(1) by (simp_all add: pos_imp_zdiv_nonneg_iff)
  then show "to_size (p div 8) = nat p div 8" using assms(1) by (simp add: to_size_id nat_div_distrib)
  show "nat (p mod 8) = nat p mod 8" using assms(1) by (simp add: nat_mod_distrib)
  have "nat p div 8 \<le> nat p" by simp
  also have "nat p < 2 ^ 63" using assms by (simp add: nat_less_iff)
  finally show "to_off (nat p div 8) = int (nat p div 8)" by (rule to_off_id)
qed

lemma one_byte:
  assumes "off < length c"
  shows "take 1 (drop off c) = [byte_at c off]"
  using assms by (simp add: take_Suc_conv_app_nth hd_drop_conv_nth take_Suc)

lemma getbit_live:
  assumes "live w i" and len: "lengths w i = length (view w i)"
    and range: "0 \<le> gb_offset cmd" "gb_offset cmd < 2 ^ 63"
  shows "\<exists>w'. getbitCommand cmd i w = (of_bool (get_bit (view w i) (nat (gb_offset cmd))), w') \<and>
    view w' = view w \<and> lengths w' = lengths w \<and> table_frame w w'"
proof -
  let ?p = "nat (gb_offset cmd)"
  note pos = position [OF range]
  show ?thesis
  proof (cases "?p div 8 < length (view w i)")
    case True
    obtain w' where w': "read_from i 1 (int (?p div 8)) w = (1, [byte_at (view w i) (?p div 8)], w')"
      "view w' = view w" "lengths w' = lengths w" "table_frame w w'"
      using files.rdE [OF assms(1), of 1 "?p div 8"] one_byte [OF True] by (metis length_Cons list.size(3) One_nat_def)
    have "getbitCommand cmd i w = (of_bool (get_bit (view w i) ?p), w')"
      using True len w'(1) and_bit_iff [of "7 - ?p mod 8"]
      by (simp add: getbitCommand_def pos lengths_def get_bit_def Let_def)
    with w' show ?thesis by blast
  next
    case False
    then show ?thesis using len
      by (simp add: getbitCommand_def pos lengths_def get_bit_def Let_def table_frame_refl)
  qed
qed

lemma new_byte:
  assumes "v = 0 \<or> v = 1"
  shows "(b AND NOT (2 ^ k)) OR push_bit k (of_int (v AND 1)) = put_bit b k (v = 1)"
  using assms by (auto simp: put_bit_def)

lemma setbit_live:
  assumes "live w i" and len: "lengths w i = length (view w i)"
    and range: "0 \<le> sb_offset cmd" "sb_offset cmd < 2 ^ 63" and val: "sb_value cmd = 0 \<or> sb_value cmd = 1"
  defines "c \<equiv> setbit_content (view w i) (nat (sb_offset cmd)) (sb_value cmd = 1)"
  shows "\<exists>w'. setbitCommand cmd i w = (of_bool (get_bit (view w i) (nat (sb_offset cmd))), w') \<and>
    view w' = (view w)(i := c) \<and> lengths w' = (lengths w)(i := length c) \<and> table_frame w w'"
proof -
  let ?p = "nat (sb_offset cmd)" and ?v = "sb_value cmd = 1" and ?o = "view w i"
  let ?b = "byte_at ?o (?p div 8)"
  let ?new = "put_bit ?b (7 - ?p mod 8) ?v"
  note pos = position [OF range] and nb = new_byte [OF val]
  have wrt: "\<exists>w'. write_to i [?new] (int (?p div 8)) v = (1, w') \<and> view w' = (view w)(i := set_bit_at ?o ?p ?v) \<and>
      lengths w' = (lengths w)(i := max (length ?o) (?p div 8 + 1)) \<and> table_frame w w'"
    if v: "view v = view w" "lengths v = lengths w" "table_frame w v" for v
  proof -
    have "live v i" using v(3) assms(1) by (simp add: table_frame_def)
    then obtain w' where "write_to i [?new] (int (?p div 8)) v = (length [?new], w')"
      "view w' = (view v)(i := write_at (view v i) (?p div 8) [?new])"
      "lengths w' = (lengths v)(i := max (lengths v i) (?p div 8 + length [?new]))" "table_frame v w'"
      by (rule files.wrE [of _ _ "[?new]"]) auto
    then show ?thesis using v len table_frame_trans [OF v(3)] by (auto simp: set_bit_at_def)
  qed
  show ?thesis
  proof (cases "?p div 8 < length ?o")
    case True
    obtain v where v: "read_from i 1 (int (?p div 8)) w = (1, [?b], v)"
      "view v = view w" "lengths v = lengths w" "table_frame w v"
      using files.rdE [OF assms(1), of 1 "?p div 8"] one_byte [OF True] by (metis length_Cons list.size(3) One_nat_def)
    obtain w' where w': "write_to i [?new] (int (?p div 8)) v = (1, w')"
      "view w' = (view w)(i := set_bit_at ?o ?p ?v)"
      "lengths w' = (lengths w)(i := max (length ?o) (?p div 8 + 1))" "table_frame w w'"
      using wrt [OF v(2-4)] by blast
    have "setbitCommand cmd i w = (of_bool (get_bit ?o ?p), w')"
      using True len v(1) w'(1) and_bit_iff [of "7 - ?p mod 8" ?b]
      by (simp add: setbitCommand_def pos nb lengths_def get_bit_def Let_def)
    moreover have "c = set_bit_at ?o ?p ?v" using True by (simp add: c_def setbit_content_def)
    ultimately show ?thesis using w' by (auto simp: set_bit_at_def)
  next
    case False
    then have b0: "?b = 0" by simp
    show ?thesis
    proof (cases ?v)
      case True
      obtain w' where w': "write_to i [?new] (int (?p div 8)) w = (1, w')"
        "view w' = (view w)(i := set_bit_at ?o ?p ?v)"
        "lengths w' = (lengths w)(i := max (length ?o) (?p div 8 + 1))" "table_frame w w'"
        using wrt [of w] table_frame_refl by blast
      have "setbitCommand cmd i w = (of_bool (get_bit ?o ?p), w')"
        using False True len w'(1) nb [of 0 "7 - ?p mod 8"] b0
        by (simp add: setbitCommand_def pos lengths_def get_bit_def Let_def)
      moreover have "c = set_bit_at ?o ?p ?v" using True by (simp add: c_def setbit_content_def)
      ultimately show ?thesis using w' by (auto simp: set_bit_at_def)
    next
      case v0: False
      then have "c = ?o" using False by (simp add: c_def setbit_content_def)
      moreover have "setbitCommand cmd i w = (0, w)"
        using False v0 val len by (simp add: setbitCommand_def pos lengths_def Let_def)
      moreover have "\<not> get_bit ?o ?p" using False by (simp add: get_bit_beyond)
      ultimately show ?thesis using len by (auto simp: table_frame_refl fun_upd_idem)
    qed
  qed
qed

section \<open>Counting bits\<close>

context byte_store
begin

text \<open>The counting loop ends and counts exactly the bytes asked for, whatever the block size.\<close>

lemma count_loop_total:
  assumes "open_in w k" and "off + n \<le> length (contents w k)" and "length (contents w k) < 2 ^ 63"
  shows "\<exists>w'. count_loop (rd k) n off bits w =
      (bits + of_nat (popcount_list (take n (drop off (contents w k)))), w') \<and>
    contents w' = contents w \<and> size_of w' = size_of w \<and> frame w w'"
  using assms
proof (induction n arbitrary: off bits w rule: less_induct)
  case (less n)
  show ?case
  proof (cases "n = 0")
    case True
    then show ?thesis by (simp add: count_loop.simps [of _ 0] frame_refl)
  next
    case False
    define m where "m = (if n < FILE_BUFFER_SIZE then n else FILE_BUFFER_SIZE)"
    have m: "0 < m" "m \<le> n" using False by (simp_all add: m_def)
    let ?c = "contents w k"
    obtain v where v: "rd k m (int off) w = (length (take m (drop off ?c)), take m (drop off ?c), v)"
      "contents v = contents w" "size_of v = size_of w" "frame w v"
      using rdE [OF less.prems(1)] by metis
    have lm: "length (take m (drop off ?c)) = m" using less.prems(2) m by simp
    have oo: "to_off off = int off" using less.prems by (intro to_off_id) simp
    have open_v: "open_in v k" by (rule frame_open [OF v(4) less.prems(1)])
    obtain w' where w': "count_loop (rd k) (n - m) (off + m)
        (bits + redisPopcount (take m (drop off ?c)) m) v =
        (bits + redisPopcount (take m (drop off ?c)) m +
          of_nat (popcount_list (take (n - m) (drop (off + m) (contents v k)))), w')"
      "contents w' = contents v" "size_of w' = size_of v" "frame v w'"
      using less.IH [of "n - m" v "off + m"] less.prems m open_v v(2) by auto
    have split: "take n (drop off ?c) = take m (drop off ?c) @ take (n - m) (drop (off + m) ?c)"
      using m by (metis add.commute append_take_drop_id drop_drop drop_take le_add_diff_inverse take_add)
    have pc: "redisPopcount (take m (drop off ?c)) m = of_nat (popcount_list (take m (drop off ?c)))"
      using redisPopcount_correct [of m "take m (drop off ?c)"] lm by simp
    have "count_loop (rd k) n off bits w =
        count_loop (rd k) (n - m) (off + m) (bits + redisPopcount (take m (drop off ?c)) m) v"
      using False v(1) m lm by (subst count_loop.simps) (simp add: m_def [symmetric] oo)
    then show ?thesis using w' v(2-4) frame_trans [OF v(4) w'(4)] by (auto simp: pc split)
  qed
qed

end

text \<open>The set bits in the bytes from \<open>s\<close> to \<open>e\<close>; positions below 0 count from the end.\<close>

definition position_of :: "nat \<Rightarrow> int \<Rightarrow> int" where
  "position_of len p = (if p < 0 then max 0 (int len + p) else p)"

definition bitcount_spec :: "byte list \<Rightarrow> int \<Rightarrow> int \<Rightarrow> nat" where
  "bitcount_spec c s e =
     (if s < 0 \<and> e < 0 \<and> e < s then 0
      else card {b \<in> set_bits c. position_of (length c) s \<le> int (b div 8) \<and>
        int (b div 8) \<le> position_of (length c) e})"

lemma popcount_range:
  assumes "s + n \<le> length c"
  shows "popcount_list (take n (drop s c)) = card {b \<in> set_bits c. s \<le> b div 8 \<and> b div 8 < s + n}"
proof -
  have gb: "get_bit (take n (drop s c)) i = get_bit c (i + 8 * s)" if "i < 8 * n" for i
  proof -
    have d: "(i + 8 * s) div 8 = i div 8 + s" "(i + 8 * s) mod 8 = i mod 8" by simp_all
    have "i div 8 < n" using that by simp
    then show ?thesis using assms d by (simp add: get_bit_def byte_at_def add.commute)
  qed
  have "{b \<in> set_bits c. s \<le> b div 8 \<and> b div 8 < s + n} = (\<lambda>i. i + 8 * s) ` set_bits (take n (drop s c))"
  proof (rule set_eqI)
    fix b
    show "b \<in> {b \<in> set_bits c. s \<le> b div 8 \<and> b div 8 < s + n} \<longleftrightarrow>
        b \<in> (\<lambda>i. i + 8 * s) ` set_bits (take n (drop s c))"
    proof
      assume b: "b \<in> {b \<in> set_bits c. s \<le> b div 8 \<and> b div 8 < s + n}"
      then have "8 * s \<le> b" "b < 8 * (s + n)" by auto
      then show "b \<in> (\<lambda>i. i + 8 * s) ` set_bits (take n (drop s c))"
        using b gb [of "b - 8 * s"] assms
        by (intro rev_image_eqI [of "b - 8 * s"]) (auto simp: set_bits_def)
    next
      assume "b \<in> (\<lambda>i. i + 8 * s) ` set_bits (take n (drop s c))"
      then show "b \<in> {b \<in> set_bits c. s \<le> b div 8 \<and> b div 8 < s + n}"
        using gb assms by (auto simp: set_bits_def)
    qed
  qed
  then have "card {b \<in> set_bits c. s \<le> b div 8 \<and> b div 8 < s + n} = card (set_bits (take n (drop s c)))"
    by (simp add: card_image)
  then show ?thesis by (simp add: popcount_list_card)
qed

lemma set_bits_byte: "b \<in> set_bits c \<Longrightarrow> b div 8 < length c"
  by (auto simp: set_bits_def)

lemma bitcount_live:
  assumes "live w i" and len: "lengths w i = length (view w i)" and small: "length (view w i) < 2 ^ 60"
    and bounds: "LONG_MIN \<le> bc_start cmd" "LONG_MIN \<le> bc_end cmd" "bc_end cmd \<le> LONG_MAX"
  shows "\<exists>w'. bitcountCommand cmd i w =
      (int (bitcount_spec (view w i) (bc_start cmd) (bc_end cmd)), w') \<and>
    view w' = view w \<and> lengths w' = lengths w \<and> table_frame w w'"
proof -
  let ?c = "view w i" and ?s = "bc_start cmd" and ?e = "bc_end cmd"
  let ?n = "length ?c"
  have l: "d_length (descs w i) = ?n" using len by (simp add: lengths_def)
  have s': "clamp_start ?n ?s = position_of ?n ?s" by (simp add: clamp_start_def position_of_def)
  have "position_of ?n ?e < 2 ^ 64" "0 \<le> position_of ?n ?e"
    using bounds small by (auto simp: position_of_def LONG_MAX_def)
  then have "to_size (position_of ?n ?e) = nat (position_of ?n ?e)" by (intro to_size_id)
  moreover have "clamp_end ?n ?e = (if ?n \<le> to_size (position_of ?n ?e) then int ?n - 1 else position_of ?n ?e)"
    by (simp add: clamp_end_def position_of_def Let_def max_def)
  ultimately have e': "clamp_end ?n ?e = min (int ?n - 1) (position_of ?n ?e)"
    using \<open>0 \<le> position_of ?n ?e\<close> by (auto simp: min_def le_nat_iff)
  have s0: "0 \<le> position_of ?n ?s" by (simp add: position_of_def)
  consider (empty) "?s < 0 \<and> ?e < 0 \<and> ?e < ?s" | (none) "\<not> (?s < 0 \<and> ?e < 0 \<and> ?e < ?s)"
      "clamp_end ?n ?e < position_of ?n ?s"
    | (some) "\<not> (?s < 0 \<and> ?e < 0 \<and> ?e < ?s)" "position_of ?n ?s \<le> clamp_end ?n ?e"
    by linarith
  then show ?thesis
  proof cases
    case empty
    then show ?thesis by (simp add: bitcountCommand_def bitcount_spec_def table_frame_refl)
  next
    case none
    have "{b \<in> set_bits ?c. position_of ?n ?s \<le> int (b div 8) \<and> int (b div 8) \<le> position_of ?n ?e} = {}"
      using none(2) e' set_bits_byte by fastforce
    then have "bitcount_spec ?c ?s ?e = 0" by (simp only: bitcount_spec_def card.empty if_cancel)
    moreover have "bitcountCommand cmd i w = (0, w)"
      unfolding bitcountCommand_def Let_def l s' if_not_P [OF none(1)] by (rule if_P [OF none(2)])
    ultimately show ?thesis by (simp add: table_frame_refl)
  next
    case some
    let ?a = "nat (position_of ?n ?s)" and ?m = "nat (clamp_end ?n ?e - position_of ?n ?s + 1)"
    have am: "?a + ?m \<le> ?n" using some(2) s0 e' by linarith
    have "?n < 2 ^ 63" using small by (rule less_le_trans) simp
    then obtain w' where w': "count_loop (read_from i) ?m ?a 0 w = (0 + of_nat (popcount_list (take ?m (drop ?a ?c))), w')"
      "view w' = view w" "lengths w' = lengths w" "table_frame w w'"
      using files.count_loop_total [OF assms(1) am] by blast
    have "popcount_list (take ?m (drop ?a ?c)) \<le> 8 * ?n"
      by (rule order_trans [OF popcount_list_le]) simp
    then have "int (popcount_list (take ?m (drop ?a ?c))) < 2 ^ 63" using small by simp
    then have si: "sint (of_nat (popcount_list (take ?m (drop ?a ?c))) :: u64) = int (popcount_list (take ?m (drop ?a ?c)))"
      by (simp add: signed_of_nat signed_take_bit_int_eq_self)
    have f: "faults w = []" using assms(1) by (rule liveE)
    have "(?a \<le> b div 8 \<and> b div 8 < ?a + ?m) =
        (position_of ?n ?s \<le> int (b div 8) \<and> int (b div 8) \<le> position_of ?n ?e)"
      if "b \<in> set_bits ?c" for b
    proof -
      have "b div 8 < ?n" by (rule set_bits_byte [OF that])
      then show ?thesis using some(2) s0 e' by linarith
    qed
    then have "{b \<in> set_bits ?c. ?a \<le> b div 8 \<and> b div 8 < ?a + ?m} =
        {b \<in> set_bits ?c. position_of ?n ?s \<le> int (b div 8) \<and> int (b div 8) \<le> position_of ?n ?e}"
      by blast
    then have "popcount_list (take ?m (drop ?a ?c)) = bitcount_spec ?c ?s ?e"
      using popcount_range [OF am] unfolding bitcount_spec_def if_not_P [OF some(1)] by (simp only:)
    moreover have "bitcountCommand cmd i w = (int (popcount_list (take ?m (drop ?a ?c))), w')"
      using some(2) w'(1) si f unfolding bitcountCommand_def Let_def l s' if_not_P [OF some(1)]
      by (simp add: not_less)
    ultimately show ?thesis using w' by simp
  qed
qed

end
