(* ===== verification/BitOp.thy ===== *)
theory BitOp
  imports BitOps XXHMem
begin

unbundle bit_operations_syntax

text \<open>
  \<open>bitopCommand\<close> of \<open>bitops.c\<close>: the sources are read in blocks of \<open>FILE_BUFFER_SIZE\<close>, combined in
  groups of four machine words and then byte by byte, and written, counted or dropped. Buffers are
  byte lists; a \<open>unsigned long\<close> access is a little-endian load or store of eight bytes.
\<close>

section \<open>Commands\<close>

datatype OP_OPTIONS = OP_AND | OP_OR | OP_XOR | OP_NOT

datatype OP_HOOKS = NONE | COUNTOP | GETOP

record bitop_cmd =
  bo_key :: "byte list"
  bo_count :: nat
  bo_hook :: OP_HOOKS
  bo_option :: OP_OPTIONS

definition op_malloc_step :: "int \<times> 'a io_scheme \<Rightarrow> int \<times> 'a io_scheme" where
  "op_malloc_step = (\<lambda>(r, s). if r \<noteq> 0 then (r, s) else let (ok, s) = alloc_ok s in (if ok then 0 else -1, s))"

definition op_malloc :: "nat \<Rightarrow> 'a io_scheme \<Rightarrow> int \<times> 'a io_scheme" where
  "op_malloc count s = (op_malloc_step ^^ count) (0, s)"

text \<open>The operators, on words of any length.\<close>

fun binop :: "OP_OPTIONS \<Rightarrow> 'a::len word \<Rightarrow> 'a word \<Rightarrow> 'a word" where
  "binop OP_AND a b = a AND b"
| "binop OP_OR a b = a OR b"
| "binop OP_XOR a b = a XOR b"
| "binop OP_NOT a b = a"

section \<open>Combining one block\<close>

text \<open>\<open>lp[0][k]\<close> where \<open>lp\<close> points \<open>off\<close> bytes into \<open>p\<close>, and the store to it.\<close>

definition load_long :: "byte list \<Rightarrow> nat \<Rightarrow> u64" where
  "load_long p off = of_nat (le_load 8 (drop off p))"

definition bytes_of_long :: "u64 \<Rightarrow> byte list" where
  "bytes_of_long v = map (\<lambda>k. ucast (drop_bit (8 * k) v)) [0..<8]"

definition store_long :: "byte list \<Rightarrow> nat \<Rightarrow> u64 \<Rightarrow> byte list" where
  "store_long p off v = take off p @ bytes_of_long v @ drop (off + 8) p"

text \<open>Four words of \<open>p0\<close> and \<open>pi\<close> at \<open>pos\<close>: the body of the inner loop over the sources.\<close>

definition long_step :: "(u64 \<Rightarrow> u64 \<Rightarrow> u64) \<Rightarrow> byte list \<Rightarrow> nat \<Rightarrow> byte list \<Rightarrow> byte list" where
  "long_step f pi off p0 = store_long p0 off (f (load_long p0 off) (load_long pi off))"

definition group_step :: "(u64 \<Rightarrow> u64 \<Rightarrow> u64) \<Rightarrow> nat \<Rightarrow> byte list \<Rightarrow> byte list \<Rightarrow> byte list" where
  "group_step f pos pi p0 =
     (let p0 = long_step f pi pos p0;
          p0 = long_step f pi (pos + 8) p0;
          p0 = long_step f pi (pos + 16) p0;
          p0 = long_step f pi (pos + 24) p0
      in p0)"

definition word_step :: "OP_OPTIONS \<Rightarrow> nat \<Rightarrow> byte list list \<Rightarrow> byte list \<Rightarrow> byte list" where
  "word_step op pos ps p0 =
     (if op = OP_NOT then group_step (\<lambda>a _. NOT a) pos p0 p0
      else fold (group_step (binop op) pos) ps p0)"

fun word_groups ::
    "OP_OPTIONS \<Rightarrow> nat \<Rightarrow> byte list \<Rightarrow> byte list list \<Rightarrow> nat \<Rightarrow> byte list" where
  "word_groups op 0 p0 ps pos = p0"
| "word_groups op (Suc n) p0 ps pos =
     word_groups op n (word_step op pos ps p0) ps (pos + 32)"

text \<open>The remaining bytes.\<close>

definition byte_step :: "OP_OPTIONS \<Rightarrow> nat \<Rightarrow> byte list \<Rightarrow> byte list \<Rightarrow> byte list" where
  "byte_step op pos pi p0 = p0[pos := binop op (p0 ! pos) (pi ! pos)]"

definition tail_step :: "OP_OPTIONS \<Rightarrow> nat \<Rightarrow> byte list list \<Rightarrow> byte list \<Rightarrow> byte list" where
  "tail_step op pos ps p0 =
     (if op = OP_NOT then p0[pos := NOT (p0 ! pos)] else fold (byte_step op pos) ps p0)"

fun tail_bytes ::
    "OP_OPTIONS \<Rightarrow> nat \<Rightarrow> byte list \<Rightarrow> byte list list \<Rightarrow> nat \<Rightarrow> byte list" where
  "tail_bytes op 0 p0 ps pos = p0"
| "tail_bytes op (Suc n) p0 ps pos =
     tail_bytes op n (tail_step op pos ps p0) ps (pos + 1)"

definition combine :: "OP_OPTIONS \<Rightarrow> byte list list \<Rightarrow> nat \<Rightarrow> byte list" where
  "combine op bufs sz =
     (let n = sz div 32;
          p0 = word_groups op n (hd bufs) (tl bufs) 0
      in tail_bytes op (sz - 32 * n) p0 (tl bufs) (32 * n))"

section \<open>Reading the sources block by block\<close>

text \<open>
  A source: \<open>None\<close> for a missing file (for which \<open>t[i] = r[i] = 0\<close>), or its descriptor with the
  number of blocks left \<open>t[i]\<close> and the size of the last one \<open>r[i]\<close>.
\<close>

type_synonym 'k source = "('k \<times> nat \<times> nat) option"

definition blocks :: "nat \<Rightarrow> nat" where
  "blocks len = (if len mod FILE_BUFFER_SIZE \<noteq> 0 then len div FILE_BUFFER_SIZE + 1 else len div FILE_BUFFER_SIZE)"

definition last_block :: "nat \<Rightarrow> nat" where
  "last_block len = (if len mod FILE_BUFFER_SIZE \<noteq> 0 then len mod FILE_BUFFER_SIZE else FILE_BUFFER_SIZE)"

definition source_of :: "('k \<Rightarrow> nat) \<Rightarrow> 'k option \<Rightarrow> 'k source" where
  "source_of flen dt = map_option (\<lambda>d. (d, blocks (flen d), last_block (flen d))) dt"

text \<open>The first source of greatest length, and that length.\<close>

fun find_max :: "('k \<Rightarrow> nat) \<Rightarrow> nat \<Rightarrow> 'k option list \<Rightarrow> nat \<times> nat \<Rightarrow> nat \<times> nat" where
  "find_max flen i [] m = m"
| "find_max flen i (None # dts) m = find_max flen (i + 1) dts m"
| "find_max flen i (Some d # dts) (maxidx, maxlen) =
     find_max flen (i + 1) dts (if maxlen < flen d then (i, flen d) else (maxidx, maxlen))"

definition pad_block :: "byte list \<Rightarrow> byte list" where
  "pad_block bs = bs @ replicate (FILE_BUFFER_SIZE - length bs) 0"

fun load_block ::
    "('k \<Rightarrow> nat \<Rightarrow> int \<Rightarrow> 'w \<Rightarrow> nat \<times> byte list \<times> 'w) \<Rightarrow> int \<Rightarrow> 'k source list \<Rightarrow> 'w \<Rightarrow>
      byte list list \<times> 'k source list \<times> 'w" where
  "load_block rd offset [] w = ([], [], w)"
| "load_block rd offset (None # ss) w =
     (let (bufs, ss, w) = load_block rd offset ss w in (pad_block [] # bufs, None # ss, w))"
| "load_block rd offset (Some (d, t, r) # ss) w =
     (if t = 0
      then (let (bufs, ss, w) = load_block rd offset ss w in (pad_block [] # bufs, Some (d, t, r) # ss, w))
      else (let (_, bs, w) = rd d (if t = 1 then r else FILE_BUFFER_SIZE) offset w;
                (bufs, ss, w) = load_block rd offset ss w
            in (pad_block bs # bufs, Some (d, t - 1, r) # ss, w)))"

fun blocks_left :: "'k source list \<Rightarrow> nat \<Rightarrow> nat" where
  "blocks_left ss i = (if i < length ss then (case ss ! i of None \<Rightarrow> 0 | Some (d, t, r) \<Rightarrow> t) else 0)"

fun last_left :: "'k source list \<Rightarrow> nat \<Rightarrow> nat" where
  "last_left ss i = (case ss ! i of None \<Rightarrow> 0 | Some (d, t, r) \<Rightarrow> r)"

lemma load_block_sources:
  "fst (snd (load_block rd offset ss w)) = map (map_option (\<lambda>(d, t, r). (d, t - 1, r))) ss"
  by (induction rd offset ss w rule: load_block.induct) (auto simp: Let_def split: prod.split)

lemma blocks_left_load:
  "blocks_left (fst (snd (load_block rd offset ss w))) i = blocks_left ss i - 1"
  by (auto simp: load_block_sources split: option.split)

declare blocks_left.simps [simp del]

lemma blocks_left_decreases:
  "load_block rd offset ss w = (bufs, ss', w') \<Longrightarrow> blocks_left ss i \<noteq> 0 \<Longrightarrow> blocks_left ss' i < blocks_left ss i"
  using blocks_left_load [of rd offset ss w i] by simp

text \<open>The loop over the blocks: the final offset and bit count, or \<open>None\<close> when a write failed.\<close>

function bitop_loop ::
    "('k \<Rightarrow> nat \<Rightarrow> int \<Rightarrow> 'w \<Rightarrow> nat \<times> byte list \<times> 'w) \<Rightarrow> (byte list \<Rightarrow> int \<Rightarrow> 'w \<Rightarrow> nat \<times> 'w) \<Rightarrow>
      OP_OPTIONS \<Rightarrow> OP_HOOKS \<Rightarrow> nat \<Rightarrow> 'k source list \<Rightarrow> int \<Rightarrow> u64 \<Rightarrow> 'w \<Rightarrow> (int \<times> u64) option \<times> 'w" where
  "bitop_loop rd wr op hook maxidx ss offset bits w =
     (if blocks_left ss maxidx \<noteq> 0
      then (let (bufs, ss', w) = load_block rd offset ss w;
                sz = (if blocks_left ss' maxidx \<noteq> 0 then FILE_BUFFER_SIZE else last_left ss' maxidx);
                p0 = combine op bufs sz;
                next = to_int32 (offset + int sz)
            in case hook of
                 NONE \<Rightarrow>
                   (let (r, w) = wr (take sz p0) offset w
                    in if r = 0 then (None, w) else bitop_loop rd wr op hook maxidx ss' next bits w)
               | COUNTOP \<Rightarrow> bitop_loop rd wr op hook maxidx ss' next (bits + redisPopcount p0 sz) w
               | GETOP \<Rightarrow> bitop_loop rd wr op hook maxidx ss' next bits w)
      else (Some (offset, bits), w))"
  by pat_completeness auto
termination
  by (relation "measure (\<lambda>(rd, wr, op, hook, maxidx, ss, offset, bits, w). blocks_left ss maxidx)")
    (auto simp: blocks_left_decreases [OF sym])

declare bitop_loop.simps [simp del]

definition bitopCommand :: "bitop_cmd \<Rightarrow> nat option \<Rightarrow> nat option list \<Rightarrow> world \<Rightarrow> int \<times> world" where
  "bitopCommand cmd dest dts w =
     (let flen = (\<lambda>d. d_length (descs w d));
          (maxidx, maxlen) = find_max flen 0 dts (0, 0);
          ss = map (source_of flen) dts
      in if maxlen = 0 then (0, w)
         else let (r, w) = op_malloc (bo_count cmd) w
              in if r \<noteq> 0 then (-1, w)
                 else let wr = (case dest of
                                  None \<Rightarrow> (\<lambda>buf off w. (0, w\<lparr>crashed := True\<rparr>))
                                | Some d \<Rightarrow> write_to d)
                      in case bitop_loop read_from wr (bo_option cmd) (bo_hook cmd) maxidx ss 0 0 w of
                           (None, w) \<Rightarrow> (-1, w)
                         | (Some (offset, bits), w) \<Rightarrow>
                             (if bo_hook cmd = COUNTOP then sint bits else offset, w))"

end
