(* ===== verification/BlockOps.thy ===== *)
theory BlockOps
  imports BitOp
begin

unbundle bit_operations_syntax

text \<open>
  The combination of one block is pointwise: whether a byte falls into a group of machine words or
  into the tail, it becomes the operator applied to the bytes at its position, in the order of the
  sources. The locale says what makes a word operator and a byte operator agree.
\<close>

section \<open>Word operators that act on each byte\<close>

locale bytewise =
  fixes g :: "bool \<Rightarrow> bool \<Rightarrow> bool"
    and f8 :: "byte \<Rightarrow> byte \<Rightarrow> byte"
    and f64 :: "u64 \<Rightarrow> u64 \<Rightarrow> u64"
  assumes bit_f8: "k < 8 \<Longrightarrow> bit (f8 a b) k = g (bit a k) (bit b k)"
    and bit_f64: "k < 64 \<Longrightarrow> bit (f64 x y) k = g (bit x k) (bit y k)"
begin

lemma bytes_of_op:
  assumes "off + 8 \<le> length p" and "off + 8 \<le> length q"
  shows "bytes_of_long (f64 (load_long p off) (load_long q off)) =
    map (\<lambda>k. f8 (p ! (off + k)) (q ! (off + k))) [0..<8]"
proof (rule nth_equalityI)
  fix k assume "k < length (bytes_of_long (f64 (load_long p off) (load_long q off)))"
  then have k: "k < 8" by (simp add: bytes_of_long_def)
  have ld: "bit (load_long r off) (8 * k + n) = bit (r ! (off + k)) n"
    if "n < 8" "off + 8 \<le> length r" for r n
  proof -
    have "(8 * k + n) div 8 = k" "(8 * k + n) mod 8 = n" "8 * k + n < 64" using k that(1) by auto
    then show ?thesis using k that
      by (simp add: load_long_def bit_of_nat_iff possible_bit_word bit_le_load add.commute)
  qed
  have "ucast (drop_bit (8 * k) (f64 (load_long p off) (load_long q off))) = f8 (p ! (off + k)) (q ! (off + k))"
  proof (rule bit_word_eqI)
    fix n assume "n < LENGTH(8)"
    then have n: "n < 8" by simp
    then have "8 * k + n < 64" using k by simp
    then show "bit (ucast (drop_bit (8 * k) (f64 (load_long p off) (load_long q off))) :: byte) n =
        bit (f8 (p ! (off + k)) (q ! (off + k))) n"
      using n k assms by (simp add: bit_ucast_iff bit_drop_bit_eq bit_f64 bit_f8 ld possible_bit_word)
  qed
  then show "bytes_of_long (f64 (load_long p off) (load_long q off)) ! k =
      map (\<lambda>k. f8 (p ! (off + k)) (q ! (off + k))) [0..<8] ! k"
    using k by (simp add: bytes_of_long_def)
qed (simp add: bytes_of_long_def)

lemma long_step_nth:
  assumes "off + 8 \<le> length p" and "off + 8 \<le> length q"
  shows "length (long_step f64 q off p) = length p"
    and "j < length p \<Longrightarrow>
      long_step f64 q off p ! j = (if off \<le> j \<and> j < off + 8 then f8 (p ! j) (q ! j) else p ! j)"
proof -
  have e: "long_step f64 q off p = take off p @ map (\<lambda>k. f8 (p ! (off + k)) (q ! (off + k))) [0..<8] @ drop (off + 8) p"
    unfolding long_step_def store_long_def bytes_of_op [OF assms] by (rule refl)
  show "length (long_step f64 q off p) = length p" using assms by (simp add: e)
  show "long_step f64 q off p ! j = (if off \<le> j \<and> j < off + 8 then f8 (p ! j) (q ! j) else p ! j)"
    if "j < length p"
    using assms that by (auto simp: e nth_append min_def simp del: upt_Suc)
qed

lemma group_step_nth:
  assumes "off + 32 \<le> length p" and "off + 32 \<le> length q"
  shows "length (group_step f64 off q p) = length p"
    and "j < length p \<Longrightarrow>
      group_step f64 off q p ! j = (if off \<le> j \<and> j < off + 32 then f8 (p ! j) (q ! j) else p ! j)"
proof -
  let ?p1 = "long_step f64 q off p"
  let ?p2 = "long_step f64 q (off + 8) ?p1"
  let ?p3 = "long_step f64 q (off + 16) ?p2"
  have l: "length ?p1 = length p" "length ?p2 = length p" "length ?p3 = length p"
    using assms by (simp_all add: long_step_nth)
  show "length (group_step f64 off q p) = length p"
    using assms l by (simp add: group_step_def long_step_nth)
  show "group_step f64 off q p ! j = (if off \<le> j \<and> j < off + 32 then f8 (p ! j) (q ! j) else p ! j)"
    if "j < length p"
    using assms l that
    by (simp add: group_step_def long_step_nth [of "off + 24" ?p3] long_step_nth [of "off + 16" ?p2]
        long_step_nth [of "off + 8" ?p1] long_step_nth [of off p])
qed

text \<open>All sources in turn.\<close>

lemma group_fold_nth:
  assumes "off + 32 \<le> length p" and "\<And>q. q \<in> set ps \<Longrightarrow> off + 32 \<le> length q"
  shows "length (fold (group_step f64 off) ps p) = length p \<and>
    (\<forall>j<length p. fold (group_step f64 off) ps p ! j =
      (if off \<le> j \<and> j < off + 32 then fold (\<lambda>q b. f8 b (q ! j)) ps (p ! j) else p ! j))"
  using assms
proof (induction ps arbitrary: p)
  case (Cons q ps)
  have "off + 32 \<le> length p" "off + 32 \<le> length q" using Cons.prems by simp_all
  note s = group_step_nth [OF this]
  then show ?case using Cons.prems Cons.IH [of "group_step f64 off q p"] by simp
qed simp

end

interpretation and_op: bytewise "(\<and>)" "binop OP_AND" "binop OP_AND"
  by unfold_locales (simp_all add: bit_and_iff)

interpretation or_op: bytewise "(\<or>)" "binop OP_OR" "binop OP_OR"
  by unfold_locales (simp_all add: bit_or_iff)

interpretation xor_op: bytewise "(\<noteq>)" "binop OP_XOR" "binop OP_XOR"
  by unfold_locales (simp_all add: bit_xor_iff)

interpretation not_op: bytewise "\<lambda>a _. \<not> a" "\<lambda>a _. NOT a" "\<lambda>a _. NOT a"
  by unfold_locales (simp_all add: bit_not_iff)

section \<open>A block is combined pointwise\<close>

text \<open>The byte that the operator gives for one byte of each source.\<close>

definition op_column :: "OP_OPTIONS \<Rightarrow> byte list \<Rightarrow> byte" where
  "op_column op bs = (if op = OP_NOT then NOT (hd bs) else foldl (binop op) (hd bs) (tl bs))"

lemma fold_column:
  "op \<noteq> OP_NOT \<Longrightarrow> fold (\<lambda>q b. binop op b (q ! j)) ps b = op_column op (b # map (\<lambda>q. q ! j) ps)"
  by (simp add: op_column_def foldl_conv_fold fold_map comp_def)

lemma word_step_nth:
  assumes "off + 32 \<le> length p" and "\<And>q. q \<in> set ps \<Longrightarrow> off + 32 \<le> length q"
  shows "length (word_step op off ps p) = length p \<and> (\<forall>j<length p. word_step op off ps p ! j =
    (if off \<le> j \<and> j < off + 32 then op_column op (map (\<lambda>q. q ! j) (p # ps)) else p ! j))"
proof (cases op)
  case OP_AND
  then show ?thesis using and_op.group_fold_nth [OF assms] fold_column [of op _ ps]
    by (simp add: word_step_def)
next
  case OP_OR
  then show ?thesis using or_op.group_fold_nth [OF assms] fold_column [of op _ ps]
    by (simp add: word_step_def)
next
  case OP_XOR
  then show ?thesis using xor_op.group_fold_nth [OF assms] fold_column [of op _ ps]
    by (simp add: word_step_def)
next
  case OP_NOT
  then show ?thesis using not_op.group_step_nth [OF assms(1,1)]
    by (simp add: word_step_def op_column_def)
qed

lemma word_groups_nth:
  assumes "off + 32 * n \<le> length p" and "\<And>q. q \<in> set ps \<Longrightarrow> off + 32 * n \<le> length q"
  shows "length (word_groups op n p ps off) = length p \<and> (\<forall>j<length p. word_groups op n p ps off ! j =
    (if off \<le> j \<and> j < off + 32 * n then op_column op (map (\<lambda>q. q ! j) (p # ps)) else p ! j))"
  using assms
proof (induction n arbitrary: p off)
  case (Suc n)
  have b: "off + 32 \<le> length p" "\<And>q. q \<in> set ps \<Longrightarrow> off + 32 \<le> length q"
    "off + 32 + 32 * n \<le> length p" "\<And>q. q \<in> set ps \<Longrightarrow> off + 32 + 32 * n \<le> length q"
    using Suc.prems by fastforce+
  note s = word_step_nth [OF b(1,2), where op = op]
  then have "off + 32 + 32 * n \<le> length (word_step op off ps p)" using b(3) by simp
  note r = Suc.IH [OF this b(4)]
  show ?case
  proof (intro conjI allI impI)
    show "length (word_groups op (Suc n) p ps off) = length p" using s r by simp
    fix j assume j: "j < length p"
    show "word_groups op (Suc n) p ps off ! j =
      (if off \<le> j \<and> j < off + 32 * Suc n then op_column op (map (\<lambda>q. q ! j) (p # ps)) else p ! j)"
      using s r j by auto
  qed
qed auto

lemma byte_fold_nth:
  assumes "pos < length p"
  shows "fold (byte_step op pos) ps p = p[pos := fold (\<lambda>q b. binop op b (q ! pos)) ps (p ! pos)]"
  using assms
proof (induction ps arbitrary: p)
  case (Cons q ps)
  then show ?case by (simp add: byte_step_def)
qed simp

lemma tail_step_eq:
  assumes "pos < length p"
  shows "tail_step op pos ps p = p[pos := op_column op (map (\<lambda>q. q ! pos) (p # ps))]"
  using byte_fold_nth [OF assms] fold_column [of op pos ps "p ! pos"]
  by (simp add: tail_step_def op_column_def)

lemma tail_bytes_nth:
  assumes "pos + n \<le> length p"
  shows "length (tail_bytes op n p ps pos) = length p \<and> (\<forall>j<length p. tail_bytes op n p ps pos ! j =
    (if pos \<le> j \<and> j < pos + n then op_column op (map (\<lambda>q. q ! j) (p # ps)) else p ! j))"
  using assms
proof (induction n arbitrary: p pos)
  case (Suc n)
  have s: "tail_step op pos ps p = p[pos := op_column op (map (\<lambda>q. q ! pos) (p # ps))]"
    using Suc.prems by (intro tail_step_eq) simp
  note r = Suc.IH [of "pos + 1" "tail_step op pos ps p"]
  show ?case
  proof (intro conjI allI impI)
    show "length (tail_bytes op (Suc n) p ps pos) = length p" using r Suc.prems by (simp add: s)
    fix j assume j: "j < length p"
    show "tail_bytes op (Suc n) p ps pos ! j =
      (if pos \<le> j \<and> j < pos + Suc n then op_column op (map (\<lambda>q. q ! j) (p # ps)) else p ! j)"
      using r j Suc.prems by (cases "j = pos") (auto simp: s)
  qed
qed auto

theorem combine_pointwise:
  assumes "bufs \<noteq> []" and "\<And>q. q \<in> set bufs \<Longrightarrow> sz \<le> length q"
  shows "length (combine op bufs sz) = length (hd bufs) \<and>
    (\<forall>j. j < sz \<longrightarrow> combine op bufs sz ! j = op_column op (map (\<lambda>q. q ! j) bufs))"
proof -
  obtain p ps where b: "bufs = p # ps" using assms(1) by (cases bufs) auto
  have m: "32 * (sz div 32) \<le> sz" by simp
  have w: "0 + 32 * (sz div 32) \<le> length p" "\<And>q. q \<in> set ps \<Longrightarrow> 0 + 32 * (sz div 32) \<le> length q"
    using assms(2) m unfolding b by (metis add_0 le_trans list.set_intros)+
  let ?p0 = "word_groups op (sz div 32) p ps 0"
  note g = word_groups_nth [OF w, where op = op]
  have t: "32 * (sz div 32) + (sz - 32 * (sz div 32)) \<le> length ?p0"
    using g assms(2) m by (simp add: b)
  note tb = tail_bytes_nth [OF t, where op = op and ps = ps]
  have "sz \<le> length p" using assms(2) by (simp add: b)
  then show ?thesis
    using tb g by (auto simp: combine_def Let_def b)
qed

end
