(* ===== verification/BitOpLoop.thy ===== *)
theory BitOpLoop
  imports BlockOps
begin

text \<open>
  The block loop of \<open>bitopCommand\<close> on any byte store: it ends, and writes or counts the operator
  applied position by position to the sources, missing and shorter sources counting as zero bytes.
  The destination may be one of the sources.
\<close>

section \<open>Invariant of a source\<close>

text \<open>
  Source \<open>s\<close> with original content \<open>c\<close> when everything before \<open>off\<close> has been read: the blocks left
  end exactly at the end of \<open>c\<close>, and nothing from \<open>off\<close> on has been overwritten.
\<close>

definition source_ok ::
    "('k \<Rightarrow> bool) \<Rightarrow> ('k \<Rightarrow> byte list) \<Rightarrow> nat \<Rightarrow> 'k source \<Rightarrow> byte list \<Rightarrow> bool" where
  "source_ok opn cont off s c \<longleftrightarrow>
     (case s of
        None \<Rightarrow> c = []
      | Some (d, t, r) \<Rightarrow>
          opn d \<and> (\<forall>j\<ge>off. byte_at (cont d) j = byte_at c j) \<and>
          (if t = 0 then length c \<le> off
           else 0 < r \<and> r \<le> FILE_BUFFER_SIZE \<and> off + (t - 1) * FILE_BUFFER_SIZE + r = length c))"

definition next_source :: "'k source \<Rightarrow> 'k source" where
  "next_source s = map_option (\<lambda>(d, t, r). (d, t - 1, r)) s"

definition block_of :: "nat \<Rightarrow> byte list \<Rightarrow> byte list" where
  "block_of off c = map (\<lambda>j. byte_at c (off + j)) [0..<FILE_BUFFER_SIZE]"

text \<open>The result of the operator at position \<open>j\<close>.\<close>

definition op_at :: "OP_OPTIONS \<Rightarrow> byte list list \<Rightarrow> nat \<Rightarrow> byte" where
  "op_at op cs j = op_column op (map (\<lambda>c. byte_at c j) cs)"

lemma blocks_split:
  assumes "0 < len"
  shows "blocks len \<noteq> 0" and "0 < last_block len" and "last_block len \<le> FILE_BUFFER_SIZE"
    and "(blocks len - 1) * FILE_BUFFER_SIZE + last_block len = len"
proof -
  have dm: "FILE_BUFFER_SIZE * (len div FILE_BUFFER_SIZE) + len mod FILE_BUFFER_SIZE = len" by simp
  show b: "blocks len \<noteq> 0"
    using assms dm by (auto simp: blocks_def intro: ccontr)
  show "0 < last_block len" "last_block len \<le> FILE_BUFFER_SIZE"
    using mod_less_divisor [of FILE_BUFFER_SIZE len] by (auto simp: last_block_def)
  show "(blocks len - 1) * FILE_BUFFER_SIZE + last_block len = len"
  proof (cases "len mod FILE_BUFFER_SIZE = 0")
    case True
    then have "blocks len = len div FILE_BUFFER_SIZE" by (simp add: blocks_def)
    then have "(blocks len - 1) * FILE_BUFFER_SIZE + FILE_BUFFER_SIZE = blocks len * FILE_BUFFER_SIZE"
      using b by (metis Suc_pred' add.commute mult_Suc neq0_conv diff_Suc_1)
    then show ?thesis using True dm \<open>blocks len = _\<close> by (simp add: last_block_def mult.commute)
  next
    case False
    then show ?thesis using dm by (simp add: blocks_def last_block_def mult.commute)
  qed
qed

lemma blocks_0: "blocks 0 = 0"
  by (simp add: blocks_def)

lemma source_ok_init:
  assumes "\<And>d. s = Some d \<Longrightarrow> opn d \<and> cont d = c \<and> flen d = length c" and "s = None \<Longrightarrow> c = []"
  shows "source_ok opn cont 0 (source_of flen s) c"
proof (cases s)
  case (Some d)
  then have "opn d" "cont d = c" "flen d = length c" using assms(1) by simp_all
  then show ?thesis
    using blocks_split [of "length c"] blocks_0 Some
    by (cases "c = []") (auto simp: source_ok_def source_of_def)
qed (simp add: source_ok_def source_of_def assms(2))

lemma pad_block_read:
  assumes "\<forall>j\<ge>off. byte_at c' j = byte_at c j" and "n \<le> FILE_BUFFER_SIZE"
    and "n < FILE_BUFFER_SIZE \<Longrightarrow> length c \<le> off + n"
  shows "pad_block (take n (drop off c')) = block_of off c"
proof (rule nth_equalityI)
  show "length (pad_block (take n (drop off c'))) = length (block_of off c)"
    using assms(2) by (simp add: pad_block_def block_of_def)
  fix j assume "j < length (pad_block (take n (drop off c')))"
  then have j: "j < FILE_BUFFER_SIZE" using assms(2) by (simp add: pad_block_def)
  have "pad_block (take n (drop off c')) ! j = (if j < n then byte_at c' (off + j) else 0)"
    using j by (auto simp: pad_block_def nth_append byte_at_def)
  also have "\<dots> = byte_at c (off + j)"
    using assms(1,3) j by auto
  finally show "pad_block (take n (drop off c')) ! j = block_of off c ! j"
    using j by (simp add: block_of_def)
qed

lemma pad_block_empty:
  assumes "length c \<le> off"
  shows "pad_block [] = block_of off c"
  using pad_block_read [of off c c 0] assms by simp

lemma source_ok_next:
  assumes "source_ok opn cont off s c"
    and "\<And>d j. off + FILE_BUFFER_SIZE \<le> j \<Longrightarrow> byte_at (cont' d) j = byte_at (cont d) j"
    and "\<And>d. opn d \<Longrightarrow> opn' d"
  shows "source_ok opn' cont' (off + FILE_BUFFER_SIZE) (next_source s) c"
proof (cases s)
  case (Some x)
  obtain d t r where x: "x = (d, t, r)" by (cases x) auto
  have "(t - 1 - 1) * FILE_BUFFER_SIZE + FILE_BUFFER_SIZE = (t - 1) * FILE_BUFFER_SIZE" if "t - 1 \<noteq> 0"
  proof -
    have "t - 1 = Suc (t - 1 - 1)" using that by simp
    then show ?thesis by (metis add.commute mult_Suc)
  qed
  then show ?thesis using assms unfolding Some x
    by (auto simp: source_ok_def next_source_def split: if_splits)
qed (use assms in \<open>simp add: source_ok_def next_source_def\<close>)

lemma write_at_join:
  assumes "xs \<noteq> []"
  shows "write_at (write_at c off xs) (off + length xs) ys = write_at c off (xs @ ys)"
proof (rule image_eqI)
  show "length (write_at (write_at c off xs) (off + length xs) ys) = length (write_at c off (xs @ ys))"
    using assms by auto
  show "byte_at (write_at (write_at c off xs) (off + length xs) ys) i = byte_at (write_at c off (xs @ ys)) i" for i
    by (auto simp: byte_at_write_at nth_append)
qed

section \<open>The loop\<close>

context byte_store
begin

lemma load_block_law:
  assumes "list_all2 (source_ok (open_in w) (contents w) off) ss cs"
  shows "\<exists>w'. load_block rd (int off) ss w = (map (block_of off) cs, map next_source ss, w') \<and>
    contents w' = contents w \<and> size_of w' = size_of w \<and> frame w w'"
  using assms
proof (induction ss arbitrary: cs w)
  case Nil
  then show ?case by (simp add: frame_refl)
next
  case (Cons s ss)
  then obtain c cs' where cs: "cs = c # cs'" and s: "source_ok (open_in w) (contents w) off s c"
    and ss: "list_all2 (source_ok (open_in w) (contents w) off) ss cs'"
    by (auto simp: list_all2_Cons1)
  show ?case
  proof (cases s)
    case None
    then have "c = []" using s by (simp add: source_ok_def)
    then show ?thesis using Cons.IH [OF ss] None pad_block_empty [of "[]" off]
      by (auto simp: cs next_source_def)
  next
    case (Some x)
    obtain d t r where x: "x = (d, t, r)" by (cases x) auto
    show ?thesis
    proof (cases "t = 0")
      case True
      then have "length c \<le> off" using s Some x by (simp add: source_ok_def)
      then show ?thesis using Cons.IH [OF ss] Some x True pad_block_empty
        by (auto simp: cs next_source_def)
    next
      case False
      let ?n = "if t = 1 then r else FILE_BUFFER_SIZE"
      have d: "open_in w d" and same: "\<forall>j\<ge>off. byte_at (contents w d) j = byte_at c j"
        and r: "r \<le> FILE_BUFFER_SIZE" "off + (t - 1) * FILE_BUFFER_SIZE + r = length c"
        using s Some x False by (simp_all add: source_ok_def)
      obtain v where v: "rd d ?n (int off) w =
          (length (take ?n (drop off (contents w d))), take ?n (drop off (contents w d)), v)"
        "contents v = contents w" "size_of v = size_of w" "frame w v"
        using rdE [OF d] by metis
      have blk: "pad_block (take ?n (drop off (contents w d))) = block_of off c"
        using r by (intro pad_block_read same) (auto split: if_splits)
      have "list_all2 (source_ok (open_in v) (contents v) off) ss cs'"
        using ss frame_open [OF v(4)] unfolding v(2)
        by (elim list_all2_mono) (auto simp: source_ok_def split: option.splits)
      from Cons.IH [OF this] obtain w' where
        "load_block rd (int off) ss v = (map (block_of off) cs', map next_source ss, w')"
        "contents w' = contents v" "size_of w' = size_of v" "frame v w'" by blast
      then show ?thesis using v blk False frame_trans [OF v(4)]
        by (auto simp: cs Some x next_source_def)
    qed
  qed
qed

end

lemma combine_blocks:
  assumes "cs \<noteq> []" and "sz \<le> FILE_BUFFER_SIZE"
  shows "take sz (combine op (map (block_of off) cs) sz) = map (op_at op cs) [off..<off + sz]"
proof -
  have bl: "length (block_of off c) = FILE_BUFFER_SIZE" for c by (simp add: block_of_def)
  have b: "map (block_of off) cs \<noteq> []" "\<And>q. q \<in> set (map (block_of off) cs) \<Longrightarrow> sz \<le> length q"
    using assms bl by auto
  note c = combine_pointwise [OF b, of op]
  have l: "length (combine op (map (block_of off) cs) sz) = FILE_BUFFER_SIZE"
    using c assms(1) bl by (simp add: hd_map)
  show ?thesis
  proof (rule nth_equalityI)
    show "length (take sz (combine op (map (block_of off) cs) sz)) = length (map (op_at op cs) [off..<off + sz])"
      using l assms(2) by simp
    fix j assume "j < length (take sz (combine op (map (block_of off) cs) sz))"
    then have j: "j < sz" by simp
    moreover have "map (\<lambda>q. q ! j) (map (block_of off) cs) = map (\<lambda>c. byte_at c (off + j)) cs"
      using j assms(2) by (simp add: block_of_def)
    ultimately have "combine op (map (block_of off) cs) sz ! j = op_at op cs (off + j)"
      using c unfolding op_at_def by metis
    then show "take sz (combine op (map (block_of off) cs) sz) ! j = map (op_at op cs) [off..<off + sz] ! j"
      using j by simp
  qed
qed

text \<open>
  The offset is an \<open>int\<close>: it is the position itself up to the last round, and wraps in the last
  addition when the longest source has exactly \<open>2 ^ 31\<close> bytes, the most a file can have.
\<close>

lemma position_id: "off < 2 ^ 31 \<Longrightarrow> to_int32 (int off) = int off"
  by (subst to_int32_id) auto

lemma position_start: "to_int32 (int 0) = 0"
  by (simp add: to_int32_def)

text \<open>What the loop needs of its sources: some source of greatest length \<open>m\<close>, in range.\<close>

definition loop_ready :: "('k \<Rightarrow> bool) \<Rightarrow> ('k \<Rightarrow> byte list) \<Rightarrow> nat \<Rightarrow> 'k source list \<Rightarrow> byte list list \<Rightarrow> nat \<Rightarrow> nat \<Rightarrow> bool" where
  "loop_ready opn cont off ss cs maxidx m \<longleftrightarrow>
     list_all2 (source_ok opn cont off) ss cs \<and> maxidx < length ss \<and> length (cs ! maxidx) = m \<and>
     off \<le> m \<and> m \<le> 2 ^ 31"

lemma loop_readyD:
  assumes "loop_ready opn cont off ss cs maxidx m" and "blocks_left ss maxidx = t"
  shows "t = 0 \<Longrightarrow> off = m"
    and "t \<noteq> 0 \<Longrightarrow> 0 < last_left ss maxidx \<and> last_left ss maxidx \<le> FILE_BUFFER_SIZE \<and>
      off + (t - 1) * FILE_BUFFER_SIZE + last_left ss maxidx = m"
    and "last_left (map next_source ss) maxidx = last_left ss maxidx"
    and "cs \<noteq> []"
proof -
  have "source_ok opn cont off (ss ! maxidx) (cs ! maxidx)" and l: "maxidx < length ss" "off \<le> m" "length (cs ! maxidx) = m"
    using assms(1) by (auto simp: loop_ready_def list_all2_conv_all_nth)
  then show "t = 0 \<Longrightarrow> off = m" "t \<noteq> 0 \<Longrightarrow> 0 < last_left ss maxidx \<and> last_left ss maxidx \<le> FILE_BUFFER_SIZE \<and>
      off + (t - 1) * FILE_BUFFER_SIZE + last_left ss maxidx = m"
    using assms(2) by (auto simp: source_ok_def blocks_left.simps split: option.splits prod.splits if_splits)
  show "last_left (map next_source ss) maxidx = last_left ss maxidx"
    using l by (auto simp: next_source_def split: option.split)
  show "cs \<noteq> []" using assms(1) by (auto simp: loop_ready_def list_all2_conv_all_nth)
qed

lemma blocks_left_next: "blocks_left (map next_source ss) i = blocks_left ss i - 1"
  by (auto simp: blocks_left.simps next_source_def split: option.split)

lemma loop_ready_next:
  assumes "loop_ready opn cont off ss cs maxidx m" and "off + FILE_BUFFER_SIZE \<le> m"
    and "\<And>d j. off + FILE_BUFFER_SIZE \<le> j \<Longrightarrow> byte_at (cont' d) j = byte_at (cont d) j"
    and "\<And>d. opn d \<Longrightarrow> opn' d"
  shows "loop_ready opn' cont' (off + FILE_BUFFER_SIZE) (map next_source ss) cs maxidx m"
proof -
  have "source_ok opn' cont' (off + FILE_BUFFER_SIZE) (next_source s) c" if "source_ok opn cont off s c" for s c
    using that assms(3,4) by (rule source_ok_next)
  then show ?thesis using assms(1,2) by (simp add: loop_ready_def list_all2_conv_all_nth)
qed

section \<open>The result of the loop\<close>

context byte_store
begin

text \<open>One round: the block read and combined, and what is left to do.\<close>

lemma round:
  assumes rdy: "loop_ready (open_in w) (contents w) off ss cs maxidx m"
    and t: "blocks_left ss maxidx = Suc t"
  obtains v sz where "contents v = contents w" "size_of v = size_of w" "frame w v" "0 < sz" "off + sz \<le> m"
    "sz \<le> FILE_BUFFER_SIZE"
    "t = 0 \<Longrightarrow> off + sz = m" "t \<noteq> 0 \<Longrightarrow> sz = FILE_BUFFER_SIZE"
    "\<And>put bits. bitop_loop rd put op NONE maxidx ss (to_int32 (int off)) bits w =
      (let (r, u) = put (map (op_at op cs) [off..<off + sz]) (int off) v
       in if r = 0 then (None, u)
          else bitop_loop rd put op NONE maxidx (map next_source ss) (to_int32 (int (off + sz))) bits u)"
    "\<And>put bits. bitop_loop rd put op COUNTOP maxidx ss (to_int32 (int off)) bits w =
      bitop_loop rd put op COUNTOP maxidx (map next_source ss) (to_int32 (int (off + sz)))
        (bits + redisPopcount (combine op (map (block_of off) cs) sz) sz) v"
    "\<And>put bits. bitop_loop rd put op GETOP maxidx ss (to_int32 (int off)) bits w =
      bitop_loop rd put op GETOP maxidx (map next_source ss) (to_int32 (int (off + sz))) bits v"
proof -
  note d = loop_readyD [OF rdy t]
  define sz where "sz = (if t \<noteq> 0 then FILE_BUFFER_SIZE else last_left ss maxidx)"
  have left: "off + t * FILE_BUFFER_SIZE + last_left ss maxidx = m" "last_left ss maxidx \<le> FILE_BUFFER_SIZE"
    "0 < last_left ss maxidx"
    using d(2) by simp_all
  have sz: "0 < sz" "off + sz \<le> m" "sz \<le> FILE_BUFFER_SIZE" "t = 0 \<Longrightarrow> off + sz = m" "t \<noteq> 0 \<Longrightarrow> sz = FILE_BUFFER_SIZE"
    using left by (cases t; simp add: sz_def)+
  obtain v where v: "load_block rd (int off) ss w = (map (block_of off) cs, map next_source ss, v)"
    "contents v = contents w" "size_of v = size_of w" "frame w v"
    using load_block_law [of w off ss cs] rdy by (auto simp: loop_ready_def)
  have "off < 2 ^ 31" using sz(1,2) rdy by (simp add: loop_ready_def)
  note pos = position_id [OF this]
  have szeq: "(if blocks_left (map next_source ss) maxidx \<noteq> 0 then FILE_BUFFER_SIZE
      else last_left (map next_source ss) maxidx) = sz"
    using t d(3) by (simp add: blocks_left_next sz_def del: last_left.simps)
  have nz: "blocks_left ss maxidx \<noteq> 0" using t by simp
  have step: "bitop_loop rd put op hook maxidx ss (to_int32 (int off)) bits w =
      (case hook of
         NONE \<Rightarrow>
           (let (r, u) = put (map (op_at op cs) [off..<off + sz]) (int off) v
            in if r = 0 then (None, u)
               else bitop_loop rd put op hook maxidx (map next_source ss) (to_int32 (int (off + sz))) bits u)
       | COUNTOP \<Rightarrow>
           bitop_loop rd put op hook maxidx (map next_source ss) (to_int32 (int (off + sz)))
             (bits + redisPopcount (combine op (map (block_of off) cs) sz) sz) v
       | GETOP \<Rightarrow> bitop_loop rd put op hook maxidx (map next_source ss) (to_int32 (int (off + sz))) bits v)" for put hook bits
    unfolding pos bitop_loop.simps [of rd put op hook maxidx ss "int off" bits w] if_P [OF nz] v(1) Let_def prod.case
      szeq of_nat_add [symmetric] combine_blocks [OF d(4) sz(3)] by (rule refl)
  show thesis
    using that [OF v(2-4) sz(1-3) sz(4) sz(5)] step [of _ NONE] step [of _ COUNTOP] step [of _ GETOP]
    unfolding OP_HOOKS.case by blast
qed

text \<open>With a destination: the operator's result is written from the offset on.\<close>

lemma bitop_loop_store:
  assumes "loop_ready (open_in w) (contents w) off ss cs maxidx m" and "open_in w d"
  shows "\<exists>w'. bitop_loop rd (wr d) op NONE maxidx ss (to_int32 (int off)) bits w = (Some (to_int32 (int m), bits), w') \<and>
    contents w' = (contents w)(d := write_at (contents w d) off (map (op_at op cs) [off..<m])) \<and>
    size_of w' = (size_of w)(d := if off = m then size_of w d else max (size_of w d) m) \<and> frame w w'"
  using assms
proof (induction "blocks_left ss maxidx" arbitrary: ss off w)
  case 0
  then have "off = m" using loop_readyD(1) [OF 0(2) refl] by simp
  then show ?case using 0
    by (subst bitop_loop.simps) (simp add: write_at_def fun_upd_idem frame_refl)
next
  case (Suc t)
  obtain v sz where v: "contents v = contents w" "size_of v = size_of w" "frame w v"
    and sz: "0 < sz" "off + sz \<le> m" "sz \<le> FILE_BUFFER_SIZE" "t = 0 \<Longrightarrow> off + sz = m" "t \<noteq> 0 \<Longrightarrow> sz = FILE_BUFFER_SIZE"
    and step: "\<And>put bits. bitop_loop rd put op NONE maxidx ss (to_int32 (int off)) bits w =
      (let (r, u) = put (map (op_at op cs) [off..<off + sz]) (int off) v
       in if r = 0 then (None, u)
          else bitop_loop rd put op NONE maxidx (map next_source ss) (to_int32 (int (off + sz))) bits u)"
    by (rule round [OF Suc.prems(1) Suc.hyps(2) [symmetric], where op = op], rule that)
  let ?blk = "map (op_at op cs) [off..<off + sz]"
  have ne: "?blk \<noteq> []" using sz(1) by simp
  have "open_in v d" by (rule frame_open [OF v(3) Suc.prems(2)])
  then obtain u where u: "wr d ?blk (int off) v = (length ?blk, u)"
    "contents u = (contents w)(d := write_at (contents w d) off ?blk)"
    "size_of u = (size_of w)(d := max (size_of w d) (off + sz))" "frame v u"
    by (rule wrE [OF _ ne]) (simp add: v)
  have wu: "frame w u" by (rule frame_trans [OF v(3) u(4)])
  have step': "bitop_loop rd (wr d) op NONE maxidx ss (to_int32 (int off)) bits w =
      bitop_loop rd (wr d) op NONE maxidx (map next_source ss) (to_int32 (int (off + sz))) bits u"
    using step u(1) sz(1) by simp
  have bl: "blocks_left (map next_source ss) maxidx = t" using Suc.hyps(2) by (simp add: blocks_left_next)
  show ?case
  proof (cases "t = 0")
    case True
    then have "off + sz = m" by (rule sz(4))
    moreover have "bitop_loop rd (wr d) op NONE maxidx (map next_source ss) (to_int32 (int (off + sz))) bits u =
        (Some (to_int32 (int (off + sz)), bits), u)"
      using True bl by (subst bitop_loop.simps) simp
    ultimately show ?thesis using step' u(2,3) wu sz(1) by auto
  next
    case False
    then have szB: "sz = FILE_BUFFER_SIZE" by (rule sz(5))
    have "loop_ready (open_in u) (contents u) (off + FILE_BUFFER_SIZE) (map next_source ss) cs maxidx m"
      using sz(2) frame_open [OF wu] szB
      by (intro loop_ready_next [OF Suc.prems(1)]) (auto simp: u(2) byte_at_write_at)
    from Suc.hyps(1) [OF bl [symmetric] this frame_open [OF wu Suc.prems(2)]] obtain w' where
      w': "bitop_loop rd (wr d) op NONE maxidx (map next_source ss) (to_int32 (int (off + sz))) bits u = (Some (to_int32 (int m), bits), w')"
      "contents w' = (contents u)(d := write_at (contents u d) (off + sz) (map (op_at op cs) [off + sz..<m]))"
      "size_of w' = (size_of u)(d := if off + sz = m then size_of u d else max (size_of u d) m)" "frame u w'"
      using szB by auto
    have app: "map (op_at op cs) [off..<m] = ?blk @ map (op_at op cs) [off + sz..<m]"
      using sz(2) upt_add_eq_append [of off "off + sz" "m - (off + sz)"] by simp
    have "contents w' = (contents w)(d := write_at (contents w d) off (map (op_at op cs) [off..<m]))"
      using write_at_join [OF ne, of "contents w d" off "map (op_at op cs) [off + sz..<m]"]
      by (simp add: w'(2) u(2) app)
    moreover have "size_of w' = (size_of w)(d := if off = m then size_of w d else max (size_of w d) m)"
      using sz(1,2) by (auto simp: w'(3) u(3) max_def)
    ultimately show ?thesis using step' w'(1) frame_trans [OF wu w'(4)] by auto
  qed
qed

text \<open>With a hook nothing is written; \<open>COUNTOP\<close> counts the bits of the result.\<close>

lemma bitop_loop_hook:
  assumes "loop_ready (open_in w) (contents w) off ss cs maxidx m" and "hook \<noteq> NONE"
  shows "\<exists>w'. bitop_loop rd put op hook maxidx ss (to_int32 (int off)) bits w =
      (Some (to_int32 (int m), if hook = COUNTOP then bits + of_nat (popcount_list (map (op_at op cs) [off..<m])) else bits), w') \<and>
    contents w' = contents w \<and> size_of w' = size_of w \<and> frame w w'"
  using assms(1)
proof (induction "blocks_left ss maxidx" arbitrary: ss off w bits)
  case 0
  then have "off = m" using loop_readyD(1) [OF 0(2) refl] by simp
  then show ?case using 0 by (subst bitop_loop.simps) (simp add: frame_refl)
next
  case (Suc t)
  obtain v sz where v: "contents v = contents w" "size_of v = size_of w" "frame w v"
    and sz: "0 < sz" "off + sz \<le> m" "sz \<le> FILE_BUFFER_SIZE" "t = 0 \<Longrightarrow> off + sz = m" "t \<noteq> 0 \<Longrightarrow> sz = FILE_BUFFER_SIZE"
    and steps: "\<And>put bits. bitop_loop rd put op COUNTOP maxidx ss (to_int32 (int off)) bits w =
      bitop_loop rd put op COUNTOP maxidx (map next_source ss) (to_int32 (int (off + sz)))
        (bits + redisPopcount (combine op (map (block_of off) cs) sz) sz) v"
    "\<And>put bits. bitop_loop rd put op GETOP maxidx ss (to_int32 (int off)) bits w =
      bitop_loop rd put op GETOP maxidx (map next_source ss) (to_int32 (int (off + sz))) bits v"
    by (rule round [OF Suc.prems(1) Suc.hyps(2) [symmetric], where op = op], rule that)
  have step: "bitop_loop rd put op hook maxidx ss (to_int32 (int off)) bits w =
      bitop_loop rd put op hook maxidx (map next_source ss) (to_int32 (int (off + sz)))
        (if hook = COUNTOP then bits + redisPopcount (combine op (map (block_of off) cs) sz) sz else bits) v"
    using steps assms(2) by (cases hook) simp_all
  have "cs \<noteq> []" by (rule loop_readyD(4) [OF Suc.prems(1) refl])
  then have tk: "take sz (combine op (map (block_of off) cs) sz) = map (op_at op cs) [off..<off + sz]"
    using sz(3) by (rule combine_blocks)
  then have "sz \<le> length (combine op (map (block_of off) cs) sz)"
    by (metis length_map length_upt length_take add_diff_cancel_left' min.cobounded1)
  then have pc: "redisPopcount (combine op (map (block_of off) cs) sz) sz =
      of_nat (popcount_list (map (op_at op cs) [off..<off + sz]))"
    using redisPopcount_correct tk by metis
  have bl: "blocks_left (map next_source ss) maxidx = t" using Suc.hyps(2) by (simp add: blocks_left_next)
  show ?case
  proof (cases "t = 0")
    case True
    then have "off + sz = m" by (rule sz(4))
    moreover have "bitop_loop rd put op hook maxidx (map next_source ss) (to_int32 (int (off + sz))) b v =
        (Some (to_int32 (int (off + sz)), b), v)" for b
      using True bl by (subst bitop_loop.simps) simp
    ultimately show ?thesis using step v by (auto simp: pc)
  next
    case False
    then have szB: "sz = FILE_BUFFER_SIZE" by (rule sz(5))
    have rdy: "loop_ready (open_in v) (contents v) (off + sz) (map next_source ss) cs maxidx m"
      using sz(2) frame_open [OF v(3)] v(1) szB
      by (auto intro!: loop_ready_next [OF Suc.prems(1)])
    have app: "map (op_at op cs) [off..<m] = map (op_at op cs) [off..<off + sz] @ map (op_at op cs) [off + sz..<m]"
      using sz(2) upt_add_eq_append [of off "off + sz" "m - (off + sz)"] by simp
    show ?thesis
      using Suc.hyps(1) [OF bl [symmetric] rdy, of "if hook = COUNTOP
          then bits + redisPopcount (combine op (map (block_of off) cs) sz) sz else bits"] step v frame_trans [OF v(3)]
      by (auto simp: pc app add.assoc)
  qed
qed

end

end
