(* ===== verification/BitOpCommand.thy ===== *)
theory BitOpCommand
  imports BitOpLoop
begin

text \<open>
  \<open>bitopCommand\<close> on the table of open files: its result as a function of the contents of its sources.
\<close>

section \<open>The longest source\<close>

lemma find_max_spec:
  assumes "find_max flen i dts (mi, ml) = (mi', ml')"
  shows "ml \<le> ml' \<and> (\<forall>d. Some d \<in> set dts \<longrightarrow> flen d \<le> ml') \<and>
    (ml' = ml \<and> mi' = mi \<or> (\<exists>k d. k < length dts \<and> mi' = i + k \<and> dts ! k = Some d \<and> flen d = ml'))"
  using assms
proof (induction dts arbitrary: i mi ml)
  case (Cons dt dts)
  have shift: "\<exists>k d. k < length (dt # dts) \<and> mi' = i + k \<and> (dt # dts) ! k = Some d \<and> flen d = ml'"
    if "k < length dts" "mi' = i + 1 + k" "dts ! k = Some d" "flen d = ml'" for k d
    using that by (intro exI [of _ "Suc k"] exI [of _ d]) simp
  show ?case
  proof (cases dt)
    case None
    then have "find_max flen (i + 1) dts (mi, ml) = (mi', ml')" using Cons.prems by simp
    from Cons.IH [OF this] show ?thesis using None shift by auto
  next
    case (Some d)
    have here: "\<exists>k d. k < length (dt # dts) \<and> mi' = i + k \<and> (dt # dts) ! k = Some d \<and> flen d = ml'"
      if "ml' = flen d" "mi' = i"
      using that Some by (intro exI [of _ 0] exI [of _ d]) simp
    show ?thesis
    proof (cases "ml < flen d")
      case True
      then have "find_max flen (i + 1) dts (i, flen d) = (mi', ml')" using Cons.prems Some by simp
      from Cons.IH [OF this] show ?thesis using Some True shift here by auto
    next
      case False
      then have "find_max flen (i + 1) dts (mi, ml) = (mi', ml')" using Cons.prems Some by simp
      from Cons.IH [OF this] show ?thesis using Some False shift by auto
    qed
  qed
qed simp

section \<open>Sources in the table\<close>

text \<open>The content of a source; a missing file is empty.\<close>

definition source_content :: "world \<Rightarrow> nat option \<Rightarrow> byte list" where
  "source_content w dt = (case dt of None \<Rightarrow> [] | Some d \<Rightarrow> view w d)"

definition sources_ready :: "world \<Rightarrow> nat option list \<Rightarrow> bool" where
  "sources_ready w dts \<longleftrightarrow>
     faults w = [] \<and> (\<forall>d. Some d \<in> set dts \<longrightarrow> live w d \<and> lengths w d = length (view w d))"

text \<open>The length of the result: that of the longest source.\<close>

definition result_length :: "byte list list \<Rightarrow> nat" where
  "result_length cs = Max (insert 0 (length ` set cs))"

text \<open>The result of the command: the operator at each position up to the longest source's end.\<close>

definition op_result :: "OP_OPTIONS \<Rightarrow> byte list list \<Rightarrow> byte list" where
  "op_result op cs = map (op_at op cs) [0..<result_length cs]"

lemma length_op_result [simp]: "length (op_result op cs) = result_length cs"
  by (simp add: op_result_def)

lemma op_malloc_ok: "faults s = [] \<Longrightarrow> op_malloc n s = (0, s)"
  unfolding op_malloc_def by (induction n) (simp_all add: op_malloc_step_def)

lemma sources_longest:
  assumes "sources_ready w dts" and "find_max (\<lambda>d. d_length (descs w d)) 0 dts (0, 0) = (mi, ml)"
  shows "ml = result_length (map (source_content w) dts)"
    and "ml \<noteq> 0 \<Longrightarrow> mi < length dts \<and> length (source_content w (dts ! mi)) = ml"
proof -
  have len: "d_length (descs w d) = length (source_content w (Some d))" if "Some d \<in> set dts" for d
    using assms(1) that by (simp add: sources_ready_def lengths_def source_content_def)
  note sp = find_max_spec [OF assms(2)]
  have ub: "length c \<le> ml" if "c \<in> source_content w ` set dts" for c
  proof -
    from that obtain dt where dt: "dt \<in> set dts" "c = source_content w dt" by blast
    show ?thesis
    proof (cases dt)
      case (Some d)
      then have "Some d \<in> set dts" using dt(1) by simp
      then show ?thesis using sp len [of d] dt(2) Some by auto
    qed (simp add: dt(2) source_content_def)
  qed
  have at: "mi < length dts \<and> length (source_content w (dts ! mi)) = ml" if "ml \<noteq> 0"
    using sp that len by (auto dest: nth_mem)
  then show "ml \<noteq> 0 \<Longrightarrow> mi < length dts \<and> length (source_content w (dts ! mi)) = ml" .
  have "ml \<in> insert 0 (length ` source_content w ` set dts)"
    using at by (cases "ml = 0") (auto simp: image_iff intro: nth_mem)
  then show "ml = result_length (map (source_content w) dts)"
    unfolding result_length_def using ub by (intro Max_eqI [symmetric]) auto
qed

lemma sources_loop_ready:
  assumes "sources_ready w dts" and "find_max (\<lambda>d. d_length (descs w d)) 0 dts (0, 0) = (mi, ml)"
    and "ml \<noteq> 0" and "ml \<le> 2 ^ 31"
  shows "loop_ready (live w) (view w) 0 (map (source_of (\<lambda>d. d_length (descs w d))) dts)
    (map (source_content w) dts) mi ml"
proof -
  note s = sources_longest [OF assms(1,2)]
  have "source_ok (live w) (view w) 0 (source_of (\<lambda>d. d_length (descs w d)) dt) (source_content w dt)"
    if "dt \<in> set dts" for dt
    using assms(1) that by (intro source_ok_init) (auto simp: sources_ready_def lengths_def source_content_def)
  then show ?thesis
    using s(2) assms(3,4) by (auto simp: loop_ready_def list_all2_conv_all_nth)
qed

section \<open>The command\<close>

lemma bitop_store_live:
  assumes src: "sources_ready w dts" and dest: "live w d" and hook: "bo_hook cmd = NONE"
    and small: "result_length (map (source_content w) dts) \<le> 2 ^ 31"
  defines "res \<equiv> op_result (bo_option cmd) (map (source_content w) dts)"
  shows "\<exists>w'. bitopCommand cmd (Some d) dts w = (to_int32 (int (length res)), w') \<and>
    view w' = (view w)(d := write_at (view w d) 0 res) \<and>
    lengths w' = (lengths w)(d := if res = [] then lengths w d else max (lengths w d) (length res)) \<and>
    table_frame w w'"
proof -
  let ?fl = "\<lambda>d. d_length (descs w d)"
  obtain mi ml where fm: "find_max ?fl 0 dts (0, 0) = (mi, ml)" by fastforce
  note s = sources_longest [OF src fm]
  have f: "op_malloc (bo_count cmd) w = (0, w)" using src by (simp add: sources_ready_def op_malloc_ok)
  show ?thesis
  proof (cases "ml = 0")
    case True
    then have "res = []" using s(1) by (simp add: res_def op_result_def)
    then show ?thesis using True fm
      by (simp add: bitopCommand_def table_frame_refl write_at_def fun_upd_idem position_start [simplified])
  next
    case False
    have "ml \<le> 2 ^ 31" using small s(1) by simp
    note rdy = sources_loop_ready [OF src fm False this]
    have r: "map (op_at (bo_option cmd) (map (source_content w) dts)) [0..<ml] = res"
      using s(1) by (simp add: res_def op_result_def)
    have ne: "res \<noteq> []" "length res = ml" using r False by auto
    from files.bitop_loop_store [OF rdy dest, of "bo_option cmd" 0] obtain w' where w':
      "bitop_loop read_from (write_to d) (bo_option cmd) NONE mi (map (source_of ?fl) dts) (to_int32 (int 0)) 0 w =
        (Some (to_int32 (int ml), 0), w')"
      "view w' = (view w)(d := write_at (view w d) 0 res)"
      "lengths w' = (lengths w)(d := if 0 = ml then lengths w d else max (lengths w d) ml)" "table_frame w w'"
      unfolding r by blast
    then have "bitopCommand cmd (Some d) dts w = (to_int32 (int ml), w')"
      using False fm f hook by (simp add: bitopCommand_def position_start [simplified])
    then show ?thesis using w'(2-4) ne False by auto
  qed
qed

lemma bitop_hook_live:
  assumes src: "sources_ready w dts" and hook: "bo_hook cmd \<noteq> NONE"
    and small: "result_length (map (source_content w) dts) \<le> 2 ^ 31"
  defines "res \<equiv> op_result (bo_option cmd) (map (source_content w) dts)"
  shows "\<exists>w'. bitopCommand cmd dest dts w =
      (if bo_hook cmd = COUNTOP then int (popcount_list res) else to_int32 (int (length res)), w') \<and>
    view w' = view w \<and> lengths w' = lengths w \<and> table_frame w w'"
proof -
  let ?fl = "\<lambda>d. d_length (descs w d)"
  obtain mi ml where fm: "find_max ?fl 0 dts (0, 0) = (mi, ml)" by fastforce
  note s = sources_longest [OF src fm]
  have f: "op_malloc (bo_count cmd) w = (0, w)" using src by (simp add: sources_ready_def op_malloc_ok)
  show ?thesis
  proof (cases "ml = 0")
    case True
    then have "res = []" using s(1) by (simp add: res_def op_result_def)
    then show ?thesis using True fm by (simp add: bitopCommand_def table_frame_refl position_start [simplified])
  next
    case False
    have ml: "ml \<le> 2 ^ 31" using small s(1) by simp
    note rdy = sources_loop_ready [OF src fm False ml]
    have r: "map (op_at (bo_option cmd) (map (source_content w) dts)) [0..<ml] = res"
      using s(1) by (simp add: res_def op_result_def)
    have lr: "length res = ml" using r by auto
    have "int (popcount_list res) < 2 ^ 63" using popcount_list_le [of res] lr ml by simp
    then have si: "sint (of_nat (popcount_list res) :: u64) = int (popcount_list res)"
      by (simp add: signed_of_nat signed_take_bit_int_eq_self)
    from files.bitop_loop_hook [OF rdy hook, of _ "bo_option cmd" 0] obtain w' where w':
      "bitop_loop read_from (case dest of None \<Rightarrow> (\<lambda>buf off w. (0, w\<lparr>crashed := True\<rparr>)) | Some d \<Rightarrow> write_to d)
         (bo_option cmd) (bo_hook cmd) mi (map (source_of ?fl) dts) (to_int32 (int 0)) 0 w =
        (Some (to_int32 (int ml), if bo_hook cmd = COUNTOP then 0 + of_nat (popcount_list res) else 0), w')"
      "view w' = view w" "lengths w' = lengths w" "table_frame w w'"
      unfolding r by blast
    have "bitopCommand cmd dest dts w =
        (if bo_hook cmd = COUNTOP then int (popcount_list res) else to_int32 (int ml), w')"
      using False fm f w'(1) si by (simp add: bitopCommand_def position_start [simplified])
    then show ?thesis using w'(2-4) lr by auto
  qed
qed

text \<open>The bits of the result are the operator on the bits of the sources.\<close>

fun op_bit :: "OP_OPTIONS \<Rightarrow> bool list \<Rightarrow> bool" where
  "op_bit OP_AND bs = (\<forall>b\<in>set bs. b)"
| "op_bit OP_OR bs = (\<exists>b\<in>set bs. b)"
| "op_bit OP_XOR bs = odd (length (filter id bs))"
| "op_bit OP_NOT bs = (\<not> hd bs)"

lemma bit_op_column:
  assumes "bs \<noteq> []" and "k < 8"
  shows "bit (op_column op bs) k = op_bit op (map (\<lambda>b. bit b k) bs)"
proof -
  obtain b bs' where b: "bs = b # bs'" using assms(1) by (cases bs) auto
  have a: "bit (foldl (AND) b bs') k = (bit b k \<and> (\<forall>b\<in>set bs'. bit b k))" for b :: byte
    by (induction bs' arbitrary: b) (auto simp: bit_and_iff)
  have o: "bit (foldl (OR) b bs') k = (bit b k \<or> (\<exists>b\<in>set bs'. bit b k))" for b :: byte
    by (induction bs' arbitrary: b) (auto simp: bit_or_iff)
  have x: "bit (foldl (XOR) b bs') k = (bit b k \<noteq> odd (length (filter (\<lambda>b. bit b k) bs')))" for b :: byte
    by (induction bs' arbitrary: b) (auto simp: bit_xor_iff)
  have e: "binop OP_AND = (AND)" "binop OP_OR = (OR)" "binop OP_XOR = (XOR)"
    by (simp_all add: fun_eq_iff)
  have fl: "length (filter id (map (\<lambda>b. bit b k) bs')) = length (filter (\<lambda>b. bit b k) bs')"
    by (induction bs') auto
  show ?thesis
    using assms(2) a o x fl by (cases op) (auto simp: op_column_def b e bit_not_iff)
qed

lemma get_bit_op_result:
  assumes "cs \<noteq> []" and "i < 8 * result_length cs"
  shows "get_bit (op_result op cs) i = op_bit op (map (\<lambda>c. get_bit c i) cs)"
proof -
  have "i div 8 < result_length cs" using assms(2) by simp
  then have "byte_at (op_result op cs) (i div 8) = op_column op (map (\<lambda>c. byte_at c (i div 8)) cs)"
    by (simp add: op_result_def op_at_def)
  moreover have "7 - i mod 8 < 8" by simp
  ultimately show ?thesis using assms(1)
    by (simp add: get_bit_def bit_op_column comp_def)
qed

end
