(* ===== verification/Reply.thy ===== *)
theory Reply
  imports BitOpCommand
begin

text \<open>
  \<open>reply\<close> of \<open>net.c\<close>: appending to the growing response buffer of the running work request. The
  doubling loop is the one of \<open>on_read\<close> too; it need not end for a capacity of 0, so it is a partial
  function, and the lemmas show that it ends for every capacity in use.
\<close>

section \<open>The doubling loop\<close>

partial_function (option) grow_cap :: "nat \<Rightarrow> nat \<Rightarrow> nat option" where
  "grow_cap need cap = (if cap < need then grow_cap need (cap * 2) else Some cap)"

declare grow_cap.simps [code]

lemma grow_cap_ge: "need \<le> cap \<Longrightarrow> grow_cap need cap = Some cap"
  by (simp add: grow_cap.simps)

text \<open>From a positive capacity it ends, at a power of two times it, and never more than doubles the need.\<close>

lemma grow_cap_ends:
  assumes "0 < cap"
  shows "\<exists>k. grow_cap need cap = Some (cap * 2 ^ k) \<and> need \<le> cap * 2 ^ k \<and>
    (k = 0 \<or> cap * 2 ^ k < 2 * need)"
  using assms
proof (induction "need - cap" arbitrary: cap rule: less_induct)
  case less
  show ?case
  proof (cases "cap < need")
    case True
    then have "need - cap * 2 < need - cap" using less.prems by simp
    from less.hyps [OF this] less.prems obtain k where k: "grow_cap need (cap * 2) = Some (cap * 2 * 2 ^ k)"
      "need \<le> cap * 2 * 2 ^ k" "k = 0 \<or> cap * 2 * 2 ^ k < 2 * need" by auto
    show ?thesis
    proof (intro exI [of _ "Suc k"] conjI)
      show "grow_cap need cap = Some (cap * 2 ^ Suc k)"
        using True k(1) by (subst grow_cap.simps) (simp add: ac_simps)
    qed (use True k in auto)
  next
    case False
    then show ?thesis by (intro exI [of _ 0]) (simp add: grow_cap_ge)
  qed
qed

section \<open>The work request and its response\<close>

definition RESP_INIT_CAP :: nat where "RESP_INIT_CAP = 64"
definition ARG_PART_MAXIMUM :: nat where "ARG_PART_MAXIMUM = 17"

text \<open>\<open>struct work_req\<close>; \<open>w_desc\<close> is the descriptor array of its \<open>struct job\<close>.\<close>

record work_req =
  w_line :: "byte list"
  w_resp :: "byte list"
  w_cap :: nat
  w_oom :: bool
  w_desc :: "nat option list"

definition new_work :: "byte list \<Rightarrow> work_req" where
  "new_work line = \<lparr>w_line = line, w_resp = [], w_cap = RESP_INIT_CAP, w_oom = False,
     w_desc = replicate ARG_PART_MAXIMUM None\<rparr>"

definition append_resp :: "byte list \<Rightarrow> nat \<Rightarrow> work_req \<Rightarrow> work_req" where
  "append_resp s len w = w\<lparr>w_resp := w_resp w @ take len s\<rparr>"

definition reply :: "byte list \<Rightarrow> nat \<Rightarrow> work_req \<times> world \<Rightarrow> work_req \<times> world" where
  "reply s len = (\<lambda>(w, v).
     if len = 0 then (w, v)
     else if w_cap w < length (w_resp w) + len
     then (case grow_cap (length (w_resp w) + len) (w_cap w) of
             None \<Rightarrow> (w, v\<lparr>hung := True\<rparr>)
           | Some ncap \<Rightarrow>
               (let (ok, v) = alloc_ok v
                in if \<not> ok then (w\<lparr>w_oom := True\<rparr>, v)
                   else (append_resp s len (w\<lparr>w_cap := ncap\<rparr>), v)))
     else (append_resp s len w, v))"

text \<open>A literal, its length written by hand in the source; every literal ends in a newline.\<close>

definition reply_lit :: "string \<Rightarrow> nat \<Rightarrow> work_req \<times> world \<Rightarrow> work_req \<times> world" where
  "reply_lit s len = reply (str s @ [10]) len"

text \<open>\<open>reply(buf, snprintf(buf, 16, "%ld\n", result))\<close>\<close>

definition reply_num :: "int \<Rightarrow> work_req \<times> world \<Rightarrow> work_req \<times> world" where
  "reply_num r = (let (n, buf) = snprintf_ld 16 r in reply buf n)"

text \<open>What one more reply does when memory is there.\<close>

lemma reply_ok:
  assumes "faults v = []" and "0 < w_cap w" and "0 < len"
  shows "\<exists>cap. reply s len (w, v) = (w\<lparr>w_resp := w_resp w @ take len s, w_cap := cap\<rparr>, v) \<and>
    w_cap w \<le> cap \<and> length (w_resp w) + len \<le> cap"
proof (cases "w_cap w < length (w_resp w) + len")
  case True
  obtain k where k: "grow_cap (length (w_resp w) + len) (w_cap w) = Some (w_cap w * 2 ^ k)"
    "length (w_resp w) + len \<le> w_cap w * 2 ^ k" using grow_cap_ends [OF assms(2)] by blast
  have "reply s len (w, v) = (w\<lparr>w_resp := w_resp w @ take len s, w_cap := w_cap w * 2 ^ k\<rparr>, v)"
    using True k(1) assms by (simp add: reply_def append_resp_def)
  with k(2) True show ?thesis by (intro exI [of _ "w_cap w * 2 ^ k"]) simp
next
  case False
  have "reply s len (w, v) = (w\<lparr>w_resp := w_resp w @ take len s, w_cap := w_cap w\<rparr>, v)"
    using False assms by (simp add: reply_def append_resp_def)
  with False show ?thesis by (intro exI [of _ "w_cap w"]) simp
qed

text \<open>The first reply of a request, which is the only one of every command.\<close>

definition answered :: "work_req \<Rightarrow> byte list \<Rightarrow> work_req \<Rightarrow> bool" where
  "answered w out w' \<longleftrightarrow> w_resp w' = w_resp w @ out \<and> w_oom w' = w_oom w \<and> w_line w' = w_line w"

lemma reply_answers:
  assumes "faults v = []" and "0 < w_cap w" and "0 < len" and "reply s len (w, v) = (w', v')"
  shows "answered w (take len s) w'" and "v' = v" and "w_desc w' = w_desc w" and "0 < w_cap w'"
  using reply_ok [OF assms(1-3), of s] assms(2,4) by (auto simp: answered_def)

lemma reply_frame:
  "w_desc (fst (reply s len (w, v))) = w_desc w" "w_line (fst (reply s len (w, v))) = w_line w"
  "descs (snd (reply s len (w, v))) = descs v" "XXTABLE (snd (reply s len (w, v))) = XXTABLE v"
  by (auto simp: reply_def append_resp_def split_def Let_def table_frames split: option.split)

lemma dec_int_small:
  assumes "0 \<le> r" and "r < 10 ^ 14"
  shows "reply_num r = reply (dec_int r @ [10]) (length (dec_int r) + 1)"
proof -
  have "nat r < 10 ^ 14" using assms by (simp add: nat_less_iff)
  then have "length (dec_nat (nat r)) \<le> 14" by (rule length_dec_nat) simp
  then have "length (dec_int r) \<le> 14" using assms(1) by (simp add: dec_int_def)
  then show ?thesis by (simp add: reply_num_def snprintf_ld_def)
qed

end
