(* ===== verification/Parser.thy ===== *)
theory Parser
  imports Reply
begin

text \<open>
  \<open>parser.c\<close>: splitting a command line, the dispatch on the hash of its first five bytes, and the
  handlers. A handler maps the work request and the world to the new ones; every early return with
  its reply is a branch.
\<close>

section \<open>Splitting a line\<close>

text \<open>The loop of \<open>get_arg_count\<close>: position, position after the last space, count.\<close>

function arg_count_loop :: "byte list \<Rightarrow> nat \<Rightarrow> nat \<Rightarrow> nat \<Rightarrow> nat \<Rightarrow> nat" where
  "arg_count_loop s len i l c =
     (if i < len
      then if s ! i = 32
           then arg_count_loop s len (i + 1) (i + 1) (if 0 < i \<and> s ! (i - 1) \<noteq> 32 then c + 1 else c)
           else arg_count_loop s len (i + 1) l c
      else if l < i then c + 1 else c)"
  by pat_completeness auto
termination by (relation "measure (\<lambda>(s, len, i, l, c). len - i)") auto

declare arg_count_loop.simps [simp del]

definition get_arg_count :: "byte list \<Rightarrow> nat \<Rightarrow> nat" where
  "get_arg_count s len = arg_count_loop s len 0 0 0"

text \<open>\<open>while (pos < len && P(str[pos])) pos++\<close>\<close>

function scan_while :: "(byte \<Rightarrow> bool) \<Rightarrow> byte list \<Rightarrow> nat \<Rightarrow> nat \<Rightarrow> nat" where
  "scan_while P s len pos = (if pos < len \<and> P (s ! pos) then scan_while P s len (pos + 1) else pos)"
  by pat_completeness auto
termination by (relation "measure (\<lambda>(P, s, len, pos). len - pos)") auto

declare scan_while.simps [simp del]

text \<open>An unchecked \<open>calloc\<close>: the code uses the result, so it crashes when there is no memory.\<close>

definition must_alloc :: "world \<Rightarrow> world" where
  "must_alloc v = (let (ok, v) = alloc_ok v in if ok then v else v\<lparr>crashed := True\<rparr>)"

fun fill_args :: "byte list \<Rightarrow> nat \<Rightarrow> nat \<Rightarrow> nat \<Rightarrow> world \<Rightarrow> byte list list \<times> world" where
  "fill_args s len 0 pos v = ([], v)"
| "fill_args s len (Suc n) pos v =
     (let start = scan_while (\<lambda>b. b = 32) s len pos;
          pos = scan_while (\<lambda>b. b \<noteq> 32) s len start;
          v = must_alloc v;
          (args, v) = fill_args s len n pos v
      in (take (pos - start) (drop start s) # args, v))"

definition split_fill :: "byte list \<Rightarrow> nat \<Rightarrow> nat \<Rightarrow> world \<Rightarrow> byte list list \<times> world" where
  "split_fill s len count v =
     (let pos = scan_while (\<lambda>b. b = 32) s len 0;
          pos = scan_while (\<lambda>b. b \<noteq> 32) s len pos
      in fill_args s len (count - 1) pos (must_alloc v))"

section \<open>Descriptors and keys of a job\<close>

definition FILE_SIZE_LIMIT :: int where "FILE_SIZE_LIMIT = 2147483647"
definition CMD_MININUM :: nat where "CMD_MININUM = 10"

definition release_all_descs :: "work_req \<times> world \<Rightarrow> work_req \<times> world" where
  "release_all_descs = (\<lambda>(w, v).
     (w\<lparr>w_desc := replicate (length (w_desc w)) None\<rparr>, fold release_desc (w_desc w) v))"

text \<open>\<open>copy_key\<close> into a \<open>char[65]\<close>: \<open>None\<close> for -1.\<close>

definition copy_key :: "byte list \<Rightarrow> byte list option" where
  "copy_key src = (if 64 < length (cstr src) then None else Some (cstr src))"

definition set_desc :: "nat \<Rightarrow> nat option \<Rightarrow> work_req \<Rightarrow> work_req" where
  "set_desc i dt w = w\<lparr>w_desc := (w_desc w)[i := dt]\<rparr>"

text \<open>The end of a handler: the reply to a result, and the release of the descriptors.\<close>

definition finish :: "int \<Rightarrow> work_req \<times> world \<Rightarrow> work_req \<times> world" where
  "finish result s =
     release_all_descs (if result < 0 then reply_lit ''ERR:FILE ACCESS FAILED'' 23 s else reply_num result s)"

section \<open>Handlers\<close>

definition exec_setbit :: "nat \<Rightarrow> work_req \<Rightarrow> world \<Rightarrow> work_req \<times> world" where
  "exec_setbit c w v =
     (if c \<noteq> 4 then reply_lit ''ERR:ARG TOO MANY OR FEW'' 24 (w, v)
      else let (args, v) = split_fill (w_line w) (length (w_line w)) c v;
               offset = atol (args ! 1);
               t = offset div 8
           in if t < 0 \<or> FILE_SIZE_LIMIT < t then reply_lit ''ERR:OFFSET OUT OF RANGE'' 24 (w, v)
              else let val = atol (args ! 2)
                   in if and val (not 1) \<noteq> 0 then reply_lit ''ERR:SETBIT(3) MUST BE 1 OR 0'' 29 (w, v)
                      else case copy_key (args ! 0) of
                             None \<Rightarrow> reply_lit ''ERR:KEY TOO LONG'' 17 (w, v)
                           | Some key \<Rightarrow>
                               (let (r, dt, v) = prepare_file key 0 v; w = set_desc 0 dt w
                                in if r \<noteq> 0
                                   then release_all_descs (reply_lit ''ERR:FILESYSTEM FAILED'' 22 (w, v))
                                   else let (result, v) = setbitCommand
                                              \<lparr>sb_key = key, sb_offset = offset, sb_value = val\<rparr> (the dt) v
                                        in finish result (w, v)))"

definition exec_getbit :: "nat \<Rightarrow> work_req \<Rightarrow> world \<Rightarrow> work_req \<times> world" where
  "exec_getbit c w v =
     (if c \<noteq> 3 then reply_lit ''ERR:ARGS TOO MANY OR FEW'' 25 (w, v)
      else let (args, v) = split_fill (w_line w) (length (w_line w)) c v;
               offset = atol (args ! 1);
               t = offset div 8
           in if t < 0 \<or> FILE_SIZE_LIMIT < t then reply_lit ''ERR:OFFSET OUT OF RANGE'' 24 (w, v)
              else case copy_key (args ! 0) of
                     None \<Rightarrow> reply_lit ''ERR:KEY TOO LONG'' 17 (w, v)
                   | Some key \<Rightarrow>
                       (let (r, dt, v) = prepare_file key 1 v; w = set_desc 0 dt w
                        in if r = -2 then reply_lit ''0'' 2 (w, v)
                           else if r = -1
                           then release_all_descs (reply_lit ''ERR:FILESYSTEM FAILED'' 22 (w, v))
                           else let (result, v) = getbitCommand
                                      \<lparr>gb_key = key, gb_offset = offset\<rparr> (the dt) v
                                in finish result (w, v)))"

text \<open>The option of BITOP, which the code recognises by its first letter and then by \<open>strcasecmp\<close>.\<close>

definition option_is :: "string \<Rightarrow> byte list \<Rightarrow> bool" where
  "option_is name arg \<longleftrightarrow>
     (case cstr arg of [] \<Rightarrow> False | b # _ \<Rightarrow> tolower b = hd (str name)) \<and> strcase_eq arg (str name)"

definition parse_option :: "byte list \<Rightarrow> OP_OPTIONS option" where
  "parse_option arg =
     (if option_is ''and'' arg then Some OP_AND
      else if option_is ''or'' arg then Some OP_OR
      else if option_is ''xor'' arg then Some OP_XOR
      else if option_is ''not'' arg then Some OP_NOT
      else None)"

text \<open>The destination: a hook after Ctrl+E (\<open>None\<close> for an unknown one), or a key.\<close>

definition parse_hook :: "byte list \<Rightarrow> OP_HOOKS option" where
  "parse_hook arg =
     (case cstr arg of
        b # name \<Rightarrow>
          if b = 5
          then (if strcase_eq name (str ''COUNTOP'') then Some COUNTOP
                else if strcase_eq name (str ''GETOP'') then Some GETOP
                else None)
          else Some NONE
      | [] \<Rightarrow> Some NONE)"

text \<open>The rest of BITOP when the destination is settled: the sources, the command, the reply.\<close>

definition exec_bitop_sources ::
    "nat \<Rightarrow> byte list list \<Rightarrow> bitop_cmd \<Rightarrow> work_req \<Rightarrow> world \<Rightarrow> work_req \<times> world" where
  "exec_bitop_sources c args cmd w v =
     (let (r, dts, v) = prepare_files (take (bo_count cmd) (drop 2 args)) v
      in if r \<noteq> 0
         then release_all_descs (reply_lit ''ERR:FILESYSTEM FAILED'' 22 (w, v))
         else let w = w\<lparr>w_desc := take 1 (w_desc w) @ dts @ drop (1 + length dts) (w_desc w)\<rparr>;
                  (result, v) = bitopCommand cmd (w_desc w ! 0) (take (bo_count cmd) (drop 1 (w_desc w))) v
              in finish result (w, v))"

definition exec_bitop :: "nat \<Rightarrow> work_req \<Rightarrow> world \<Rightarrow> work_req \<times> world" where
  "exec_bitop c w v =
     (if c < 4 \<or> 19 < c then reply_lit ''ERR:ARGS TOO MANY OR FEW'' 25 (w, v)
      else let (args, v) = split_fill (w_line w) (length (w_line w)) c v
           in case parse_option (args ! 0) of
                None \<Rightarrow> reply_lit ''ERR:UKNOW OPTION'' 17 (w, v)
              | Some op \<Rightarrow>
                  if op = OP_NOT \<and> c \<noteq> 4 then reply_lit ''ERR:BITOP NOT JUST NEEDS ONE SOURCE'' 36 (w, v)
                  else case parse_hook (args ! 1) of
                         None \<Rightarrow> reply_lit ''ERR:UKNOW OPTION'' 17 (w, v)
                       | Some hook \<Rightarrow>
                           if hook \<noteq> NONE
                           then exec_bitop_sources c args
                                  \<lparr>bo_key = [], bo_count = c - 3, bo_hook = hook, bo_option = op\<rparr> w v
                           else case copy_key (args ! 1) of
                                  None \<Rightarrow> reply_lit ''ERR:KEY TOO LONG'' 17 (w, v)
                                | Some key \<Rightarrow>
                                    (let (r, dt, v) = prepare_file key 2 v; w = set_desc 0 dt w
                                     in if r \<noteq> 0
                                        then release_all_descs (reply_lit ''ERR:FILESYSTEM FAILED'' 22 (w, v))
                                        else exec_bitop_sources c args
                                               \<lparr>bo_key = key, bo_count = c - 3, bo_hook = NONE, bo_option = op\<rparr> w v))"

definition exec_bitcount :: "nat \<Rightarrow> work_req \<Rightarrow> world \<Rightarrow> work_req \<times> world" where
  "exec_bitcount c w v =
     (if c < 2 \<or> 4 < c then reply_lit ''ERR:ARGS TOO MANY OR FEW'' 25 (w, v)
      else let (args, v) = split_fill (w_line w) (length (w_line w)) c v
           in case copy_key (args ! 0) of
                None \<Rightarrow> reply_lit ''ERR:KEY TOO LONG'' 17 (w, v)
              | Some key \<Rightarrow>
                  (let (r, dt, v) = prepare_file key 1 v; w = set_desc 0 dt w
                   in if r = -2 then reply_lit ''0'' 2 (w, v)
                      else if r = -1
                      then release_all_descs (reply_lit ''ERR:FILESYSTEM FAILED'' 22 (w, v))
                      else let len = d_length (descs v (the dt))
                           in if len = 0 then release_all_descs (reply_lit ''0'' 2 (w, v))
                              else let s = (if c = 2 then 0 else atol (args ! 1));
                                       e = (if c = 4 then atol (args ! 2) else int len - 1);
                                       (result, v) = bitcountCommand
                                         \<lparr>bc_key = key, bc_start = s, bc_end = e\<rparr> (the dt) v
                                   in finish result (w, v)))"

text \<open>BITPOS (whose test \<open>c < 3 && c > 5\<close> never holds) and BITFIELD are not implemented.\<close>

definition exec_bitpos :: "nat \<Rightarrow> work_req \<Rightarrow> world \<Rightarrow> work_req \<times> world" where
  "exec_bitpos c w v =
     (if c < 3 \<and> 5 < c then reply_lit ''ERR:ARGS TOO MANY OR FEW'' 25 (w, v)
      else let (args, v) = split_fill (w_line w) (length (w_line w)) c v in (w, v))"

definition exec_bitfield :: "nat \<Rightarrow> work_req \<Rightarrow> world \<Rightarrow> work_req \<times> world" where
  "exec_bitfield c w v = (if c < 5 then reply_lit ''ERR:ARGS TOO FEW'' 17 (w, v) else (w, v))"

section \<open>Dispatch\<close>

definition dispatch_hash :: "byte list \<Rightarrow> u64" where
  "dispatch_hash line = XXH64 XXH_littleEndian line 5 0"

definition parse_and_execute :: "work_req \<Rightarrow> world \<Rightarrow> work_req \<times> world" where
  "parse_and_execute w v =
     (if length (w_line w) < CMD_MININUM then reply_lit ''ERR:CMD TOO SHORT'' 18 (w, v)
      else let c = get_arg_count (w_line w) (length (w_line w));
               hash = dispatch_hash (w_line w);
               w = w\<lparr>w_desc := replicate ARG_PART_MAXIMUM None\<rparr>
           in if hash = 13964470052823109277 then exec_setbit c w v
              else if hash = 4534844053247176213 then exec_getbit c w v
              else if hash = 2226304069708374537 then exec_bitop c w v
              else if hash = 9951046379166068647 then exec_bitcount c w v
              else if hash = 16475154490487774448 then exec_bitpos c w v
              else if hash = 16283480983475320022 then exec_bitfield c w v
              else reply_lit ''ERR:UNKNOW CMD'' 15 (w, v))"

end
