(* ===== verification/ParserSplit.thy ===== *)
theory ParserSplit
  imports Parser
begin

text \<open>
  The two loops over a command line agree: \<open>get_arg_count\<close> counts the words of the line, and
  \<open>split_fill\<close> with that count yields the words after the command name.
\<close>

section \<open>Words\<close>

text \<open>The maximal runs of bytes other than the space.\<close>

function line_words :: "byte list \<Rightarrow> byte list list" where
  "line_words s =
     (let t = dropWhile (\<lambda>b. b = 32) s
      in if t = [] then [] else takeWhile (\<lambda>b. b \<noteq> 32) t # line_words (dropWhile (\<lambda>b. b \<noteq> 32) t))"
  by pat_completeness auto

termination
proof (relation "measure length")
  fix s t :: "byte list"
  assume t: "t = dropWhile (\<lambda>b. b = 32) s" and ne: "t \<noteq> []"
  have "hd t \<noteq> 32" using hd_dropWhile [of "\<lambda>b. b = 32" s] t ne by simp
  then have "length (dropWhile (\<lambda>b. b \<noteq> 32) t) < length t"
    using ne by (cases t) (auto simp: length_dropWhile_le le_imp_less_Suc)
  also have "length t \<le> length s" unfolding t by (rule length_dropWhile_le)
  finally show "(dropWhile (\<lambda>b. b \<noteq> 32) t, s) \<in> measure length" by simp
qed simp

declare line_words.simps [simp del]

lemma line_words_blank: "dropWhile (\<lambda>b. b = 32) s = [] \<Longrightarrow> line_words s = []"
  by (subst line_words.simps) (simp only: Let_def if_True simp_thms)

lemma line_words_unfold:
  assumes "dropWhile (\<lambda>b. b = 32) s \<noteq> []"
  shows "line_words s = takeWhile (\<lambda>b. b \<noteq> 32) (dropWhile (\<lambda>b. b = 32) s) #
    line_words (dropWhile (\<lambda>b. b \<noteq> 32) (dropWhile (\<lambda>b. b = 32) s))"
  using assms by (subst line_words.simps) (simp only: Let_def if_False simp_thms)

lemma line_words_Nil [simp]: "line_words [] = []"
  by (simp add: line_words.simps)

lemma line_words_space [simp]: "line_words (32 # s) = line_words s"
  by (subst (1 2) line_words.simps) simp

lemma line_words_dropWhile: "line_words (dropWhile (\<lambda>b. b = 32) s) = line_words s"
  by (induction s) auto

lemma line_words_word:
  assumes "b \<noteq> 32"
  shows "line_words (b # s) =
    (b # takeWhile (\<lambda>b. b \<noteq> 32) s) # line_words (dropWhile (\<lambda>b. b \<noteq> 32) s)"
  using assms by (subst line_words.simps) simp

lemma line_words_append:
  assumes "a \<noteq> []" and "32 \<notin> set a"
  shows "line_words (a @ 32 # s) = a # line_words s" and "line_words a = [a]"
proof -
  obtain b a' where a: "a = b # a'" using assms(1) by (cases a) auto
  have n: "\<And>x. x \<in> set a' \<Longrightarrow> x \<noteq> 32" "b \<noteq> 32" using assms(2) a by auto
  then have "takeWhile (\<lambda>b. b \<noteq> 32) (a' @ 32 # s) = a'" "dropWhile (\<lambda>b. b \<noteq> 32) (a' @ 32 # s) = 32 # s"
    "takeWhile (\<lambda>b. b \<noteq> 32) a' = a'" "dropWhile (\<lambda>b. b \<noteq> 32) a' = []"
    by (auto simp: takeWhile_append2 dropWhile_append2 takeWhile_eq_all_conv)
  then show "line_words (a @ 32 # s) = a # line_words s" "line_words a = [a]"
    using n by (simp_all only: a line_words_word append_Cons line_words_space line_words_Nil simp_thms)
qed

lemma line_words_no_space: "t \<in> set (line_words s) \<Longrightarrow> t \<noteq> [] \<and> 32 \<notin> set t"
proof (induction s rule: line_words.induct)
  case (1 s)
  let ?t = "dropWhile (\<lambda>b. b = 32) s"
  show ?case
  proof (cases "?t = []")
    case True
    then have "line_words s = []" by (rule line_words_blank)
    then show ?thesis using "1.prems" by simp
  next
    case False
    then have hd: "hd ?t \<noteq> 32" using hd_dropWhile [of "\<lambda>b. b = 32" s] by simp
    from "1.prems" False have "t = takeWhile (\<lambda>b. b \<noteq> 32) ?t \<or> t \<in> set (line_words (dropWhile (\<lambda>b. b \<noteq> 32) ?t))"
      unfolding line_words_unfold [OF False] by simp
    then show ?thesis
    proof
      assume t: "t = takeWhile (\<lambda>b. b \<noteq> 32) ?t"
      have "t \<noteq> []" using hd False t by (cases ?t) auto
      moreover have "32 \<notin> set t" using t by (auto dest: set_takeWhileD)
      ultimately show ?thesis by simp
    qed (rule "1.IH" [OF refl False])
  qed
qed

section \<open>The cursor\<close>

lemma scan_while_eq:
  assumes "pos \<le> length s"
  shows "scan_while P s (length s) pos = pos + length (takeWhile P (drop pos s))"
  using assms
proof (induction "length s - pos" arbitrary: pos)
  case 0
  then show ?case by (simp add: scan_while.simps)
next
  case (Suc n)
  then have p: "pos < length s" by simp
  then have d: "drop pos s = s ! pos # drop (pos + 1) s" by (simp add: Cons_nth_drop_Suc)
  show ?case
  proof (cases "P (s ! pos)")
    case True
    then have "scan_while P s (length s) pos = scan_while P s (length s) (pos + 1)"
      using p by (subst scan_while.simps) simp
    also have "\<dots> = pos + 1 + length (takeWhile P (drop (pos + 1) s))" using Suc p by simp
    finally show ?thesis using True d by simp
  next
    case False
    then show ?thesis using d by (subst scan_while.simps) simp
  qed
qed

lemma scan_while_drop:
  assumes "pos \<le> length s"
  shows "drop (scan_while P s (length s) pos) s = dropWhile P (drop pos s)"
    and "scan_while P s (length s) pos \<le> length s"
    and "take (scan_while P s (length s) pos - pos) (drop pos s) = takeWhile P (drop pos s)"
proof -
  show "drop (scan_while P s (length s) pos) s = dropWhile P (drop pos s)"
    unfolding scan_while_eq [OF assms] by (metis drop_drop add.commute dropWhile_eq_drop)
  show "scan_while P s (length s) pos \<le> length s"
    unfolding scan_while_eq [OF assms] using length_takeWhile_le [of P "drop pos s"] assms by simp
  show "take (scan_while P s (length s) pos - pos) (drop pos s) = takeWhile P (drop pos s)"
    unfolding scan_while_eq [OF assms] by (metis add_diff_cancel_left' takeWhile_eq_take)
qed

text \<open>The first \<open>n\<close> words of a line; there are empty arguments where it has fewer.\<close>

definition first_words :: "nat \<Rightarrow> byte list \<Rightarrow> byte list list" where
  "first_words n s = take n (line_words s) @ replicate (n - length (line_words s)) []"

lemma must_alloc_ok [simp]: "faults v = [] \<Longrightarrow> must_alloc v = v"
  by (simp add: must_alloc_def)

lemma fill_args_eq:
  assumes "pos \<le> length s" and "faults v = []"
  shows "fill_args s (length s) n pos v = (first_words n (drop pos s), v)"
  using assms(1)
proof (induction n arbitrary: pos)
  case 0
  then show ?case by (simp add: first_words_def)
next
  case (Suc n)
  let ?start = "scan_while (\<lambda>b. b = 32) s (length s) pos"
  let ?pos = "scan_while (\<lambda>b. b \<noteq> 32) s (length s) ?start"
  note st = scan_while_drop [OF Suc.prems, of "\<lambda>b. b = 32"]
  note ps = scan_while_drop [OF st(2), of "\<lambda>b. b \<noteq> 32"]
  let ?t = "dropWhile (\<lambda>b. b = 32) (drop pos s)"
  have fw: "first_words (Suc n) (drop pos s) =
      takeWhile (\<lambda>b. b \<noteq> 32) ?t # first_words n (dropWhile (\<lambda>b. b \<noteq> 32) ?t)"
  proof (cases "?t = []")
    case True
    then have "line_words (drop pos s) = []" by (rule line_words_blank)
    then show ?thesis unfolding True by (simp add: first_words_def)
  next
    case False
    show ?thesis unfolding first_words_def line_words_unfold [OF False] by simp
  qed
  show ?case
    using Suc.IH [OF ps(2)] assms(2) st ps by (simp add: fw Let_def)
qed

lemma split_fill_eq:
  assumes "faults v = []"
  shows "split_fill s (length s) count v =
    (first_words (count - 1) (dropWhile (\<lambda>b. b \<noteq> 32) (dropWhile (\<lambda>b. b = 32) s)), v)"
proof -
  note st = scan_while_drop [of 0 s "\<lambda>b. b = 32", OF le0]
  note ps = scan_while_drop [OF st(2), of "\<lambda>b. b \<noteq> 32"]
  show ?thesis
    using fill_args_eq [OF ps(2) assms] st ps assms by (simp add: split_fill_def Let_def)
qed

section \<open>The count\<close>

lemma arg_count_loop_eq:
  assumes "i \<le> length s" and "l \<le> i" and "\<forall>j. l \<le> j \<and> j < i \<longrightarrow> s ! j \<noteq> 32"
    and "l = 0 \<or> s ! (l - 1) = 32"
  shows "arg_count_loop s (length s) i l c = c + length (line_words (drop l s))"
  using assms
proof (induction "length s - i" arbitrary: i l c)
  case 0
  then have i: "i = length s" by simp
  have "line_words (drop l s) = (if l < length s then [drop l s] else [])"
  proof (cases "l < length s")
    case True
    have "32 \<notin> set (drop l s)" using 0 i by (auto simp: in_set_conv_nth)
    then show ?thesis using True line_words_append(2) [of "drop l s"] by simp
  qed simp
  then show ?case using i 0 by (simp add: arg_count_loop.simps)
next
  case (Suc n)
  then have i: "i < length s" by simp
  have ds: "drop i s = s ! i # drop (i + 1) s" using i by (simp add: Cons_nth_drop_Suc)
  show ?case
  proof (cases "s ! i = 32")
    case False
    have "arg_count_loop s (length s) i l c = arg_count_loop s (length s) (i + 1) l c"
      using i False by (subst arg_count_loop.simps) simp
    also have "\<dots> = c + length (line_words (drop l s))"
      using Suc.hyps(2) Suc.prems i False by (intro Suc.hyps(1)) (auto simp: less_Suc_eq)
    finally show ?thesis .
  next
    case True
    have inside: "(0 < i \<and> s ! (i - 1) \<noteq> 32) = (l < i)"
    proof (cases "l < i")
      case True
      then have "s ! (i - 1) \<noteq> 32" using Suc.prems(3) by auto
      with True show ?thesis by simp
    next
      case False
      then have "l = i" using Suc.prems(2) by simp
      with Suc.prems(4) show ?thesis by auto
    qed
    have w: "line_words (drop l s) =
        (if l < i then take (i - l) (drop l s) # line_words (drop (i + 1) s) else line_words (drop (i + 1) s))"
    proof (cases "l < i")
      case True
      have "drop l s = take (i - l) (drop l s) @ drop i s"
        using True by (metis append_take_drop_id drop_drop le_add_diff_inverse2 less_imp_le)
      moreover have "32 \<notin> set (take (i - l) (drop l s))"
        using Suc.prems(3) i by (auto simp: in_set_conv_nth)
      moreover have "take (i - l) (drop l s) \<noteq> []" using True i by simp
      ultimately show ?thesis
        using line_words_append(1) [of "take (i - l) (drop l s)" "drop (i + 1) s"] ds True \<open>s ! i = 32\<close> by metis
    next
      case False
      then have "l = i" using Suc.prems(2) by simp
      then show ?thesis using ds True by simp
    qed
    have "arg_count_loop s (length s) i l c =
        arg_count_loop s (length s) (i + 1) (i + 1) (if l < i then c + 1 else c)"
      using i True inside by (subst arg_count_loop.simps) simp
    also have "\<dots> = (if l < i then c + 1 else c) + length (line_words (drop (i + 1) s))"
      using Suc.hyps(2) i True by (intro Suc.hyps(1)) auto
    finally show ?thesis by (simp add: w)
  qed
qed

lemma get_arg_count_eq: "get_arg_count s (length s) = length (line_words s)"
  using arg_count_loop_eq [of 0 s 0 0] by (simp add: get_arg_count_def)

lemma line_words_tl:
  "tl (line_words s) = line_words (dropWhile (\<lambda>b. b \<noteq> 32) (dropWhile (\<lambda>b. b = 32) s))"
proof (cases "dropWhile (\<lambda>b. b = 32) s = []")
  case True
  then have "line_words s = []" by (rule line_words_blank)
  then show ?thesis unfolding True by simp
next
  case False
  show ?thesis unfolding line_words_unfold [OF False] by simp
qed

text \<open>The arguments are the words after the command name.\<close>

lemma split_words:
  assumes "faults v = []"
  shows "split_fill s (length s) (get_arg_count s (length s)) v = (tl (line_words s), v)"
proof -
  have "length (tl (line_words s)) = length (line_words s) - 1" by simp
  then show ?thesis
    by (simp add: split_fill_eq [OF assms] first_words_def get_arg_count_eq line_words_tl [symmetric])
qed

end
