(* ===== verification/Session.thy ===== *)
theory Session
  imports ParserSplit
begin

text \<open>
  One command from acquiring its descriptor to releasing it: the invariant of the server between
  commands, the acquisition of a key in each mode, and the release after the command has changed the
  content of one open file. This is what the refinement of the handlers rests on.
\<close>

section \<open>The invariant between commands\<close>

definition server_ok :: "world \<Rightarrow> bool" where
  "server_ok v \<longleftrightarrow>
     table_wf v \<and> (\<forall>i. live v i \<longrightarrow> lengths v i = length (view v i)) \<and>
     (\<forall>i. \<not> live v i \<longrightarrow> d_refs (descs v i) = 0)"

definition same_refs :: "world \<Rightarrow> world \<Rightarrow> bool" where
  "same_refs v v' \<longleftrightarrow> (\<forall>i. d_refs (descs v' i) = d_refs (descs v i))"

text \<open>
  Slot \<open>i\<close> holds key hash \<open>h\<close> for one more holder, with content \<open>c\<close> and recorded length \<open>sz\<close>; every
  other open file is as before.
\<close>

definition acquired :: "world \<Rightarrow> u64 \<Rightarrow> byte list \<Rightarrow> nat \<Rightarrow> world \<Rightarrow> nat \<Rightarrow> bool" where
  "acquired v h c sz v' i \<longleftrightarrow>
     live v' i \<and> d_hash (descs v' i) = h \<and> view v' i = c \<and> lengths v' i = sz \<and>
     (\<forall>j. live v' j \<and> j \<noteq> i \<longrightarrow> lengths v' j = length (view v' j)) \<and>
     (\<forall>j. \<not> live v' j \<longrightarrow> d_refs (descs v' j) = 0) \<and>
     (\<forall>j. d_refs (descs v' j) = d_refs (descs v j) + (if j = i then 1 else 0)) \<and>
     db v' = (db v)(h \<mapsto> c) \<and> holders_kept v v'"

lemma cstr_cstr [simp]: "cstr (cstr s) = cstr s"
  by (rule cstr_id) simp

lemma key_hash_cstr [simp]: "key_hash (cstr k) = key_hash k"
  by (simp add: key_hash_def)

lemma acquired_touch:
  assumes ok: "server_ok v" and i: "XXTABLE v (chain_id h) = Some i" "d_hash (descs v i) = h" and h: "h \<noteq> 0"
  shows "acquired v h (view v i) (length (view v i)) (touch_desc i v) i" and "db v h = Some (view v i)"
proof -
  have wf: "table_wf v" using ok by (simp add: server_ok_def)
  have l: "live v i" using wf i h by (simp add: live_def)
  show d: "db v h = Some (view v i)" using db_live [OF l] i(2) by simp
  show "acquired v h (view v i) (length (view v i)) (touch_desc i v) i"
    using ok l i d holders_kept_touch [OF wf, of i]
    by (auto simp: acquired_def touch_same server_ok_def fun_upd_idem)
qed

lemma acquired_opens:
  assumes ok: "server_ok v" and op: "opens v v' n h c sz"
  shows "acquired v h c sz v' n"
proof -
  note f = opens_fields [OF op]
  have n: "\<not> live v n" using opens_other_hash(2) [OF op] by blast
  have live': "live v' j = (j = n \<or> live v j)" for j
    using f(1,5,8) opens_wf(1) [OF op] ok by (cases "j = n") (auto simp: live_def server_ok_def)
  have refs: "d_refs (descs v' j) = d_refs (descs v j) + (if j = n then 1 else 0)" for j
    using f(4,5) n ok by (simp add: server_ok_def)
  show ?thesis
    unfolding acquired_def
    using f(1,2,3) refs live' ok holders_kept_opens [OF op] opens_view [OF op] opens_db [OF op] n
    by (auto simp: server_ok_def)
qed

section \<open>Acquiring a key\<close>

lemma acquire_create:
  assumes ok: "server_ok v" and can: "can_open v (key_hash key)"
  defines "c \<equiv> case db v (key_hash key) of None \<Rightarrow> [] | Some c \<Rightarrow> c"
  obtains i v' where "prepare_file key 0 v = (0, Some i, v')" "acquired v (key_hash key) c (length c) v' i"
proof (cases "XXTABLE v (chain_id (key_hash key))")
  case None
  have wf: "table_wf v" using ok by (simp add: server_ok_def)
  have d: "db v (key_hash key) = disk v (key_hash key)" by (rule db_closed [OF None])
  have c: "opened_content 0 (disk v (key_hash key)) = c" "opened_size (disk v (key_hash key)) = length c"
    by (simp_all add: c_def d opened_content_def opened_size_def split: option.split)
  obtain n v' where "prepare_file key 0 v = (0, Some n, v')" "opens v v' n (key_hash key) c (length c)"
    using prepare_file_closed [OF wf can None, of 0] unfolding c by auto
  then show thesis using that acquired_opens [OF ok] by blast
next
  case (Some i)
  then have i: "d_hash (descs v i) = key_hash key" "key_hash key \<noteq> 0" using can by (simp_all add: can_open_def)
  have wf: "table_wf v" using ok by (simp add: server_ok_def)
  note a = acquired_touch [OF ok Some i]
  show thesis
    using that [of i "touch_desc i v"] prepare_file_open [OF wf Some i(1), of 0] a by (simp add: c_def)
qed

lemma acquire_existing:
  assumes ok: "server_ok v" and can: "can_open v (key_hash key)" and c: "db v (key_hash key) = Some c"
  obtains i v' where "prepare_file key 1 v = (0, Some i, v')" "acquired v (key_hash key) c (length c) v' i"
proof (cases "XXTABLE v (chain_id (key_hash key))")
  case None
  have wf: "table_wf v" using ok by (simp add: server_ok_def)
  have d: "disk v (key_hash key) = Some c" using db_closed [OF None] c by simp
  obtain n v' where "prepare_file key 1 v = (0, Some n, v')" "opens v v' n (key_hash key) c (length c)"
    using prepare_file_closed [OF wf can None, of 1] d by (auto simp: opened_content_def opened_size_def)
  then show thesis using that acquired_opens [OF ok] by blast
next
  case (Some i)
  then have i: "d_hash (descs v i) = key_hash key" "key_hash key \<noteq> 0" using can by (simp_all add: can_open_def)
  have wf: "table_wf v" using ok by (simp add: server_ok_def)
  note a = acquired_touch [OF ok Some i]
  show thesis
    using that [of i "touch_desc i v"] prepare_file_open [OF wf Some i(1), of 1] a c by simp
qed

lemma acquire_absent:
  assumes ok: "server_ok v" and can: "can_open v (key_hash key)" and c: "db v (key_hash key) = None"
  obtains v' where "prepare_file key 1 v = (-2, None, v')" "server_ok v'" "same_refs v v'" "db v' = db v"
    "holders_kept v v'"
proof -
  have wf: "table_wf v" using ok by (simp add: server_ok_def)
  have none: "XXTABLE v (chain_id (key_hash key)) = None"
  proof (rule ccontr)
    assume "XXTABLE v (chain_id (key_hash key)) \<noteq> None"
    then obtain i where "XXTABLE v (chain_id (key_hash key)) = Some i" by blast
    then show False using can c by (simp add: can_open_def db_def)
  qed
  obtain v' where v': "prepare_file key 1 v = (-2, None, v')" "holders_kept v v'" "db v' = db v" "descs v' = descs v"
    using prepare_file_absent [OF wf can none] db_closed [OF none] c by metis
  have "live v' j = live v j" for j using v'(2,4) wf by (simp add: live_def holders_kept_def)
  then have "server_ok v'"
    using v'(2,4) ok by (auto simp: server_ok_def holders_kept_def lengths_def)
  with v' show thesis using that by (simp add: same_refs_def)
qed

text \<open>In every mode, the open files and their holders are as before.\<close>

lemma prepare_keeps_holders:
  assumes ok: "server_ok v" and can: "can_open v (key_hash key)" and mode: "mode \<le> 2"
  shows "holders_kept v (snd (snd (prepare_file key mode v)))"
proof -
  have wf: "table_wf v" using ok by (simp add: server_ok_def)
  show ?thesis
  proof (cases "XXTABLE v (chain_id (key_hash key))")
    case None
    show ?thesis
    proof (cases "mode = 1 \<and> disk v (key_hash key) = None")
      case True
      obtain v' where "prepare_file key 1 v = (-2, None, v')" "holders_kept v v'"
        using prepare_file_absent [OF wf can None] True by metis
      then show ?thesis using True by (simp del: One_nat_def)
    next
      case False
      have d: "mode = 1 \<Longrightarrow> disk v (key_hash key) \<noteq> None" using False by simp
      obtain n v' c sz where "prepare_file key mode v = (0, Some n, v')" "opens v v' n (key_hash key) c sz"
        by (rule prepare_file_closed [OF wf can None mode d])
      then show ?thesis using holders_kept_opens by simp
    qed
  next
    case (Some i)
    then have "d_hash (descs v i) = key_hash key" using can by (simp add: can_open_def)
    then show ?thesis using prepare_file_open [OF wf Some] holders_kept_touch [OF wf] by simp
  qed
qed

section \<open>Releasing it again\<close>

text \<open>After a command that left content \<open>c'\<close> in slot \<open>i\<close>.\<close>

lemma commit:
  assumes a: "acquired v h c sz v1 i" and f: "table_frame v1 v2" and vw: "view v2 = (view v1)(i := c')"
    and l: "lengths v2 = (lengths v1)(i := length c')"
  shows "server_ok (release_desc (Some i) v2)" and "same_refs v (release_desc (Some i) v2)"
    and "db (release_desc (Some i) v2) = (db v)(h \<mapsto> c')"
proof -
  have live1: "live v1 i" and h: "d_hash (descs v1 i) = h" using a by (simp_all add: acquired_def)
  have wf2: "table_wf v2" using f live1 by (simp add: table_frame_def live_def)
  have refs: "d_refs (descs v2 j) = d_refs (descs v j) + (if j = i then 1 else 0)" for j
    using a f by (simp add: acquired_def table_frame_def)
  show "same_refs v (release_desc (Some i) v2)"
    by (simp add: same_refs_def release_same refs)
  have lv: "live v2 = live v1" using f by (simp add: table_frame_def)
  have "lengths v2 j = length (view v2 j)" if "live v2 j" for j
    using that a by (simp add: vw l lv acquired_def)
  moreover have "d_refs (descs v j) = 0" if "\<not> live v2 j" for j
  proof -
    have "j \<noteq> i" using that live1 lv by auto
    moreover have "d_refs (descs v1 j) = 0" using that a unfolding lv acquired_def by blast
    moreover have "d_refs (descs v1 j) = d_refs (descs v j) + (if j = i then 1 else 0)"
      using a unfolding acquired_def by blast
    ultimately show ?thesis by simp
  qed
  ultimately show "server_ok (release_desc (Some i) v2)"
    using wf2 by (simp add: server_ok_def release_same refs)
  show "db (release_desc (Some i) v2) = (db v)(h \<mapsto> c')"
    using db_frame_view [OF live1 f vw] a h by (simp add: release_same acquired_def)
qed

lemma commit_read:
  assumes a: "acquired v h c (length c) v1 i" and f: "table_frame v1 v2" and vw: "view v2 = view v1"
    and l: "lengths v2 = lengths v1"
  shows "server_ok (release_desc (Some i) v2)" and "same_refs v (release_desc (Some i) v2)"
    and "db (release_desc (Some i) v2) = (db v)(h \<mapsto> c)"
proof -
  have "view v2 = (view v1)(i := c)" "lengths v2 = (lengths v1)(i := length c)"
    using a vw l by (auto simp: acquired_def)
  then show "server_ok (release_desc (Some i) v2)" "same_refs v (release_desc (Some i) v2)"
    "db (release_desc (Some i) v2) = (db v)(h \<mapsto> c)"
    using commit [OF a f] by blast+
qed

text \<open>The key stays open.\<close>

lemma commit_can_open:
  assumes "acquired v h c sz v1 i" and "table_frame v1 v2"
  shows "can_open (release_desc (Some i) v2) h"
proof -
  have l: "live v1 i" "d_hash (descs v1 i) = h" using assms(1) by (simp_all add: acquired_def)
  have "XXTABLE v1 (chain_id h) = Some i" using l by (metis liveE)
  moreover have "h \<noteq> 0" using l by (auto simp: live_def)
  ultimately show ?thesis using assms(2) l(2) by (simp add: can_open_def release_same table_frame_def)
qed

text \<open>The descriptor array of a command on one key.\<close>

lemma release_one:
  assumes "w_desc w = Some i # replicate n None"
  shows "snd (release_all_descs (w, v)) = release_desc (Some i) v"
proof -
  have "fold release_desc (replicate n None) v = v" for v
    by (induction n) (simp_all add: release_desc_def)
  then show ?thesis using assms by (simp add: release_all_descs_def)
qed

lemma release_none:
  assumes "w_desc w = replicate n None"
  shows "snd (release_all_descs (w, v)) = v"
proof -
  have "fold release_desc (replicate n None) v = v" for v
    by (induction n) (simp_all add: release_desc_def)
  then show ?thesis using assms by (simp add: release_all_descs_def)
qed

lemma release_resp [simp]: "w_resp (fst (release_all_descs (w, v))) = w_resp w"
  by (simp add: release_all_descs_def)

text \<open>The final reply and release of a command on one key.\<close>

lemma finish_one:
  assumes "w_resp w = []" and "w_desc w = Some i # replicate n None" and "0 < w_cap w" and "faults v = []"
    and "0 \<le> r" and "r < 10 ^ 14"
  shows "w_resp (fst (finish r (w, v))) = dec_int r @ [10]" and "snd (finish r (w, v)) = release_desc (Some i) v"
proof -
  have rn: "reply_num r = reply (dec_int r @ [10]) (length (dec_int r) + 1)"
    by (rule dec_int_small [OF assms(5,6)])
  obtain w' v' where e: "reply (dec_int r @ [10]) (length (dec_int r) + 1) (w, v) = (w', v')" by fastforce
  note a = reply_answers [OF assms(4,3) _ e]
  have fin: "finish r (w, v) = release_all_descs (w', v)"
  proof -
    have "finish r (w, v) = release_all_descs (reply (dec_int r @ [10]) (length (dec_int r) + 1) (w, v))"
      using assms(5) by (simp add: finish_def rn)
    then show ?thesis unfolding e using a(2) by simp
  qed
  show "w_resp (fst (finish r (w, v))) = dec_int r @ [10]"
    using a(1) assms(1) by (simp add: fin answered_def)
  show "snd (finish r (w, v)) = release_desc (Some i) v"
    unfolding fin by (rule release_one) (use a(3) assms(2) in simp)
qed

text \<open>A literal reply.\<close>

lemma reply_lit_ok:
  assumes "w_resp w = []" and "0 < w_cap w" and "faults v = []" and "0 < len"
  shows "w_resp (fst (reply_lit s len (w, v))) = take len (str s @ [10])" and "snd (reply_lit s len (w, v)) = v"
proof -
  obtain w' v' where e: "reply (str s @ [10]) len (w, v) = (w', v')" by fastforce
  note a = reply_answers [OF assms(3,2,4) e]
  show "w_resp (fst (reply_lit s len (w, v))) = take len (str s @ [10])" "snd (reply_lit s len (w, v)) = v"
    using a assms(1) by (simp_all add: reply_lit_def e answered_def)
qed

end
