(* ===== verification/Server.thy ===== *)
theory Server
  imports Session
begin

text \<open>
  The commands as a client sees them: which handler a line reaches, and for SETBIT, GETBIT and
  BITCOUNT the reply and the new data base as functions of the line and the old data base. Every
  command leaves the reference counts as it found them.
\<close>

section \<open>Dispatch\<close>

lemma dispatch_hash_ref:
  assumes "5 \<le> length line"
  shows "dispatch_hash line = xxh64_bytes 0 (take 5 line)"
  unfolding dispatch_hash_def by (rule XXH64_eq_bytes [OF assms])

lemma hash_literals:
  "xxh64_bytes 0 (str ''SETBI'') = 13964470052823109277"
  "xxh64_bytes 0 (str ''GETBI'') = 4534844053247176213"
  "xxh64_bytes 0 (str ''BITOP'') = 2226304069708374537"
  "xxh64_bytes 0 (str ''BITCO'') = 9951046379166068647"
  "xxh64_bytes 0 (str ''BITPO'') = 16475154490487774448"
  "xxh64_bytes 0 (str ''BITFI'') = 16283480983475320022"
  by (simp_all add: str_def xxh64_eval)

text \<open>The handler for a line, by its first five bytes.\<close>

definition handler_of :: "byte list \<Rightarrow> (nat \<Rightarrow> work_req \<Rightarrow> world \<Rightarrow> work_req \<times> world) option" where
  "handler_of name =
     (if name = str ''SETBI'' then Some exec_setbit
      else if name = str ''GETBI'' then Some exec_getbit
      else if name = str ''BITOP'' then Some exec_bitop
      else if name = str ''BITCO'' then Some exec_bitcount
      else if name = str ''BITPO'' then Some exec_bitpos
      else if name = str ''BITFI'' then Some exec_bitfield
      else None)"

lemma handler_names:
  "handler_of (str ''SETBI'') = Some exec_setbit" "handler_of (str ''GETBI'') = Some exec_getbit"
  "handler_of (str ''BITOP'') = Some exec_bitop" "handler_of (str ''BITCO'') = Some exec_bitcount"
  "handler_of (str ''BITPO'') = Some exec_bitpos" "handler_of (str ''BITFI'') = Some exec_bitfield"
  by (simp_all add: handler_of_def str_def)

lemma new_work_fields [simp]:
  "w_line (new_work line) = line" "w_resp (new_work line) = []" "0 < w_cap (new_work line)"
  "w_desc (new_work line) = replicate ARG_PART_MAXIMUM None" "w_oom (new_work line) = False"
  "new_work line\<lparr>w_desc := replicate ARG_PART_MAXIMUM None\<rparr> = new_work line"
  by (simp_all add: new_work_def RESP_INIT_CAP_def)

lemma dispatch_known:
  assumes "10 \<le> length line" and "handler_of (take 5 line) = Some exec"
  shows "parse_and_execute (new_work line) v = exec (length (line_words line)) (new_work line) v"
proof -
  have "dispatch_hash line = xxh64_bytes 0 (take 5 line)" using assms(1) by (intro dispatch_hash_ref) simp
  then show ?thesis using assms hash_literals
    by (auto simp: parse_and_execute_def CMD_MININUM_def get_arg_count_eq handler_of_def Let_def split: if_splits)
qed

lemma dispatch_count:
  assumes "10 \<le> length line" and "take 5 line = name" and "handler_of name = Some exec"
    and "length (line_words line) = c"
  shows "parse_and_execute (new_work line) v = exec c (new_work line) v"
  using dispatch_known [OF assms(1), of exec v] assms(2-4) by simp

section \<open>Lines of the single-key commands\<close>

lemma server_faults: "server_ok v \<Longrightarrow> faults v = []"
  by (simp add: server_ok_def table_wf_def)

lemma split_line:
  assumes "faults v = []" and "line_words line = name # args"
  shows "split_fill line (length line) (Suc (length args)) v = (args, v)"
  using split_words [OF assms(1), of line] assms(2) by (simp add: get_arg_count_eq)

lemma desc_array:
  "w_desc (set_desc 0 dt (new_work line)) = dt # replicate 16 None"
  "w_resp (set_desc 0 dt (new_work line)) = []" "0 < w_cap (set_desc 0 dt (new_work line))"
proof -
  have "replicate ARG_PART_MAXIMUM (None :: nat option) = None # replicate 16 None"
    by (simp add: ARG_PART_MAXIMUM_def numeral_eq_Suc)
  then show "w_desc (set_desc 0 dt (new_work line)) = dt # replicate 16 None"
    by (simp add: set_desc_def)
qed (simp_all add: set_desc_def)

lemma value_test:
  assumes "b = 0 \<or> b = (1 :: int)"
  shows "and b (- 2) = 0"
  using assms by auto

lemma offset_range:
  assumes "0 \<le> p" and "p div 8 \<le> FILE_SIZE_LIMIT"
  shows "p < 2 ^ 63" and "\<not> p div 8 < 0" and "\<not> FILE_SIZE_LIMIT < p div 8"
proof -
  have "p < 8 * 2147483648" using assms(2) unfolding FILE_SIZE_LIMIT_def by presburger
  then show "p < 2 ^ 63" by simp
qed (use assms in \<open>simp_all add: pos_imp_zdiv_nonneg_iff not_less\<close>)

lemma bit_result: "0 \<le> (of_bool b :: int)" "(of_bool b :: int) < 10 ^ 14"
  by simp_all

text \<open>The old content of a key that SETBIT works on.\<close>

definition content_or_empty :: "byte list option \<Rightarrow> byte list" where
  "content_or_empty c = (case c of None \<Rightarrow> [] | Some c \<Rightarrow> c)"

text \<open>The handler of a well-formed line: acquire, run the command, reply, release.\<close>

lemma setbit_shape:
  assumes ok: "server_ok v" and line: "10 \<le> length line" "take 5 line = str ''SETBI''"
    and args: "line_words line = [name, key, off, val]"
    and off: "0 \<le> atol off" "atol off div 8 \<le> FILE_SIZE_LIMIT"
    and val: "atol val = 0 \<or> atol val = 1" and key: "length (cstr key) \<le> 64"
    and can: "can_open v (key_hash key)"
  defines "c \<equiv> content_or_empty (db v (key_hash key))"
  defines "r \<equiv> parse_and_execute (new_work line) v"
  defines "c' \<equiv> setbit_content c (nat (atol off)) (atol val = 1)"
  obtains i v1 v2 where "prepare_file (cstr key) 0 v = (0, Some i, v1)"
    "acquired v (key_hash key) c (length c) v1 i"
    "setbitCommand \<lparr>sb_key = cstr key, sb_offset = atol off, sb_value = atol val\<rparr> i v1 =
      (of_bool (get_bit c (nat (atol off))), v2)"
    "view v2 = (view v1)(i := c')" "lengths v2 = (lengths v1)(i := length c')" "table_frame v1 v2"
    "w_resp (fst r) = dec_int (of_bool (get_bit c (nat (atol off)))) @ [10]" "snd r = release_desc (Some i) v2"
proof -
  note f = server_faults [OF ok] and rg = offset_range [OF off]
  obtain i v1 where p: "prepare_file (cstr key) 0 v = (0, Some i, v1)"
    and a: "acquired v (key_hash key) c (length c) v1 i"
    using acquire_create [of v "cstr key"] ok can by (auto simp: c_def content_or_empty_def)
  have l: "live v1 i" "lengths v1 i = length (view v1 i)" "view v1 i = c"
    using a by (simp_all add: acquired_def)
  let ?cmd = "\<lparr>sb_key = cstr key, sb_offset = atol off, sb_value = atol val\<rparr>"
  obtain v2 where c2: "setbitCommand ?cmd i v1 = (of_bool (get_bit c (nat (atol off))), v2)"
    "view v2 = (view v1)(i := c')" "lengths v2 = (lengths v1)(i := length c')" "table_frame v1 v2"
    using setbit_live [OF l(1,2), of ?cmd] off rg val l(3) by (auto simp: c'_def)
  let ?w = "set_desc 0 (Some i) (new_work line)"
  have f2: "faults v2 = []" using c2(4) l(1) by (simp add: table_frame_def live_def table_wf_def)
  have fin: "w_resp (fst (finish (of_bool (get_bit c (nat (atol off)))) (?w, v2))) =
      dec_int (of_bool (get_bit c (nat (atol off)))) @ [10]"
    "snd (finish (of_bool (get_bit c (nat (atol off)))) (?w, v2)) = release_desc (Some i) v2"
    by (rule finish_one [OF desc_array(2,1,3) f2 bit_result])+
  have s: "split_fill line (length line) 4 v = ([key, off, val], v)"
    using split_line [OF f args] by (simp add: numeral_eq_Suc)
  have "parse_and_execute (new_work line) v = exec_setbit 4 (new_work line) v"
    by (rule dispatch_count [OF line handler_names(1)]) (simp add: args)
  also have "\<dots> = finish (of_bool (get_bit c (nat (atol off)))) (?w, v2)"
    using rg key by (simp add: exec_setbit_def s value_test [OF val] copy_key_def p c2(1) Let_def)
  finally show thesis using that [OF p a c2] fin by (simp add: r_def)
qed

lemma setbit_line:
  assumes ok: "server_ok v" and line: "10 \<le> length line" "take 5 line = str ''SETBI''"
    and args: "line_words line = [name, key, off, val]"
    and off: "0 \<le> atol off" "atol off div 8 \<le> FILE_SIZE_LIMIT"
    and val: "atol val = 0 \<or> atol val = 1" and key: "length (cstr key) \<le> 64"
    and can: "can_open v (key_hash key)"
  defines "c \<equiv> content_or_empty (db v (key_hash key))"
  defines "r \<equiv> parse_and_execute (new_work line) v"
  shows "w_resp (fst r) = dec_int (of_bool (get_bit c (nat (atol off)))) @ [10]"
    and "server_ok (snd r)" and "same_refs v (snd r)"
    and "db (snd r) = (db v)(key_hash key \<mapsto> setbit_content c (nat (atol off)) (atol val = 1))"
    and "can_open (snd r) (key_hash key)"
proof -
  obtain i v1 v2 where a: "acquired v (key_hash key) c (length c) v1 i"
    and c2: "view v2 = (view v1)(i := setbit_content c (nat (atol off)) (atol val = 1))"
      "lengths v2 = (lengths v1)(i := length (setbit_content c (nat (atol off)) (atol val = 1)))"
      "table_frame v1 v2"
    and r: "w_resp (fst r) = dec_int (of_bool (get_bit c (nat (atol off)))) @ [10]"
      "snd r = release_desc (Some i) v2"
    unfolding c_def r_def by (rule setbit_shape [OF assms(1-9)])
  note cm = commit [OF a c2(3,1,2)] commit_can_open [OF a c2(3)]
  show "w_resp (fst r) = dec_int (of_bool (get_bit c (nat (atol off)))) @ [10]"
    "server_ok (snd r)" "same_refs v (snd r)"
    "db (snd r) = (db v)(key_hash key \<mapsto> setbit_content c (nat (atol off)) (atol val = 1))"
    "can_open (snd r) (key_hash key)"
    unfolding r by (rule refl cm)+
qed

lemma getbit_shape:
  assumes ok: "server_ok v" and line: "10 \<le> length line" "take 5 line = str ''GETBI''"
    and args: "line_words line = [name, key, off]"
    and off: "0 \<le> atol off" "atol off div 8 \<le> FILE_SIZE_LIMIT" and key: "length (cstr key) \<le> 64"
    and can: "can_open v (key_hash key)"
  defines "c \<equiv> content_or_empty (db v (key_hash key))"
  defines "r \<equiv> parse_and_execute (new_work line) v"
  defines "b \<equiv> of_bool (get_bit c (nat (atol off))) :: int"
  shows "w_resp (fst r) = dec_int b @ [10] \<and> server_ok (snd r) \<and> same_refs v (snd r) \<and> db (snd r) = db v \<and>
    (prepare_file (cstr key) 1 v = (-2, None, snd r) \<and> b = 0 \<or>
     (\<exists>i v1 v2. prepare_file (cstr key) 1 v = (0, Some i, v1) \<and>
       getbitCommand \<lparr>gb_key = cstr key, gb_offset = atol off\<rparr> i v1 = (b, v2) \<and> snd r = release_desc (Some i) v2))"
proof -
  note f = server_faults [OF ok] and rg = offset_range [OF off]
  have s: "split_fill line (length line) 3 v = ([key, off], v)"
    using split_line [OF f args] by (simp add: numeral_eq_Suc)
  have e: "parse_and_execute (new_work line) v = exec_getbit 3 (new_work line) v"
    by (rule dispatch_count [OF line handler_names(2)]) (simp add: args)
  show ?thesis
  proof (cases "db v (key_hash key)")
    case None
    obtain v' where p: "prepare_file (cstr key) 1 v = (-2, None, v')" "server_ok v'" "same_refs v v'" "db v' = db v"
      using acquire_absent [of v "cstr key"] ok can None by auto
    let ?w = "set_desc 0 None (new_work line)"
    note rp = reply_lit_ok [OF desc_array(2,3) server_faults [OF p(2)], of 2 "''0''" None line]
    have z: "take 2 (str ''0'' @ [10]) = dec_int (of_bool (get_bit c (nat (atol off)))) @ [10]"
      using None by (simp add: c_def content_or_empty_def get_bit_beyond str_def dec_int_def dec_nat.simps)
    have "exec_getbit 3 (new_work line) v = reply_lit ''0'' 2 (?w, v')"
      using rg key by (simp add: exec_getbit_def s copy_key_def p(1) Let_def del: One_nat_def)
    moreover have "b = 0" using None by (simp add: b_def c_def content_or_empty_def get_bit_beyond)
    ultimately show ?thesis unfolding r_def e b_def using rp p z by (simp del: One_nat_def)
  next
    case (Some d)
    have bc: "d = c" using Some by (simp add: c_def content_or_empty_def)
    obtain i v1 where p: "prepare_file (cstr key) 1 v = (0, Some i, v1)"
      and a: "acquired v (key_hash key) c (length c) v1 i"
      using acquire_existing [of v "cstr key" d] ok can Some bc by auto
    have l: "live v1 i" "lengths v1 i = length (view v1 i)" "view v1 i = c"
      using a by (simp_all add: acquired_def)
    let ?cmd = "\<lparr>gb_key = cstr key, gb_offset = atol off\<rparr>"
    obtain v2 where c2: "getbitCommand ?cmd i v1 = (of_bool (get_bit c (nat (atol off))), v2)"
      "view v2 = view v1" "lengths v2 = lengths v1" "table_frame v1 v2"
      using getbit_live [OF l(1,2), of ?cmd] off rg l(3) by auto
    let ?w = "set_desc 0 (Some i) (new_work line)"
    have f2: "faults v2 = []" using c2(4) l(1) by (simp add: table_frame_def live_def table_wf_def)
    have fin: "w_resp (fst (finish (of_bool (get_bit c (nat (atol off)))) (?w, v2))) =
        dec_int (of_bool (get_bit c (nat (atol off)))) @ [10]"
      "snd (finish (of_bool (get_bit c (nat (atol off)))) (?w, v2)) = release_desc (Some i) v2"
      by (rule finish_one [OF desc_array(2,1,3) f2 bit_result])+
    have "exec_getbit 3 (new_work line) v = finish (of_bool (get_bit c (nat (atol off)))) (?w, v2)"
      using rg key by (simp add: exec_getbit_def s copy_key_def p c2(1) Let_def del: One_nat_def)
    moreover note cm = commit_read [OF a c2(4,2,3)]
    moreover have "(db v)(key_hash key \<mapsto> c) = db v" using Some bc by (simp add: fun_upd_idem)
    ultimately show ?thesis unfolding r_def e b_def using fin p c2(1) by (simp del: One_nat_def)
  qed
qed

lemma getbit_line:
  assumes ok: "server_ok v" and line: "10 \<le> length line" "take 5 line = str ''GETBI''"
    and args: "line_words line = [name, key, off]"
    and off: "0 \<le> atol off" "atol off div 8 \<le> FILE_SIZE_LIMIT" and key: "length (cstr key) \<le> 64"
    and can: "can_open v (key_hash key)"
  defines "c \<equiv> content_or_empty (db v (key_hash key))"
  defines "r \<equiv> parse_and_execute (new_work line) v"
  shows "w_resp (fst r) = dec_int (of_bool (get_bit c (nat (atol off)))) @ [10] \<and>
    server_ok (snd r) \<and> same_refs v (snd r) \<and> db (snd r) = db v"
  using getbit_shape [OF assms(1-8)] by (simp add: c_def r_def)

text \<open>BITCOUNT with an optional start and end; the end defaults to the last byte.\<close>

definition bitcount_args :: "byte list list \<Rightarrow> nat \<Rightarrow> int \<times> int" where
  "bitcount_args rest len =
     (if rest = [] then 0 else atol (rest ! 0), if length rest = 2 then atol (rest ! 1) else int len - 1)"

lemma bitcount_spec_le: "bitcount_spec c s e \<le> 8 * length c"
proof -
  have "card {b \<in> set_bits c. P b} \<le> card (set_bits c)" for P
    by (rule card_mono) (auto simp: finite_set_bits)
  then have "bitcount_spec c s e \<le> popcount_list c"
    by (simp add: bitcount_spec_def popcount_list_card)
  also have "\<dots> \<le> 8 * length c" by (rule popcount_list_le)
  finally show ?thesis .
qed

lemma bitcount_shape:
  assumes ok: "server_ok v" and line: "10 \<le> length line" "take 5 line = str ''BITCO''"
    and args: "line_words line = name # key # rest" "length rest \<le> 2" and key: "length (cstr key) \<le> 64"
    and can: "can_open v (key_hash key)"
  defines "c \<equiv> content_or_empty (db v (key_hash key))"
  assumes small: "length c < 2 ^ 40"
  defines "r \<equiv> parse_and_execute (new_work line) v"
  defines "cmd \<equiv> \<lparr>bc_key = cstr key, bc_start = fst (bitcount_args rest (length c)),
    bc_end = snd (bitcount_args rest (length c))\<rparr>"
  defines "res \<equiv> int (bitcount_spec c (bc_start cmd) (bc_end cmd))"
  shows "w_resp (fst r) = dec_int res @ [10] \<and> server_ok (snd r) \<and> same_refs v (snd r) \<and> db (snd r) = db v \<and>
    (prepare_file (cstr key) 1 v = (-2, None, snd r) \<and> res = 0 \<or>
     (\<exists>i v1 v2. prepare_file (cstr key) 1 v = (0, Some i, v1) \<and> snd r = release_desc (Some i) v2 \<and>
       d_length (descs v1 i) = length c \<and>
       (if c = [] then v2 = v1 \<and> res = 0 else bitcountCommand cmd i v1 = (res, v2))))"
proof -
  define n where "n = Suc (Suc (length rest))"
  let ?s = "fst (bitcount_args rest (length c))" and ?e = "snd (bitcount_args rest (length c))"
  have res: "res = int (bitcount_spec c ?s ?e)" by (simp add: res_def cmd_def)
  note f = server_faults [OF ok]
  have n: "\<not> (n < 2 \<or> 4 < n)" using args(2) by (simp add: n_def)
  have s: "split_fill line (length line) n v = (key # rest, v)"
    using split_line [OF f args(1)] by (simp add: n_def)
  have e: "parse_and_execute (new_work line) v = exec_bitcount n (new_work line) v"
    by (rule dispatch_count [OF line handler_names(4)]) (simp add: args n_def)
  have res0: "res = 0" if "c = []" using that bitcount_spec_le [of c ?s ?e] by (simp add: res)
  have zero: "take 2 (str ''0'' @ [10]) = dec_int res @ [10]" if "c = []"
    using res0 [OF that] by (simp add: str_def dec_int_def dec_nat.simps)
  show ?thesis
  proof (cases "db v (key_hash key)")
    case None
    obtain v' where p: "prepare_file (cstr key) 1 v = (-2, None, v')" "server_ok v'" "same_refs v v'" "db v' = db v"
      using acquire_absent [of v "cstr key"] ok can None by auto
    note rp = reply_lit_ok [OF desc_array(2,3) server_faults [OF p(2)], of 2 "''0''" None line]
    have "exec_bitcount n (new_work line) v = reply_lit ''0'' 2 (set_desc 0 None (new_work line), v')"
      using n key by (simp add: exec_bitcount_def s copy_key_def p(1) Let_def del: One_nat_def)
    moreover have "c = []" using None by (simp add: c_def content_or_empty_def)
    ultimately show ?thesis unfolding r_def e using rp p zero res0 by (simp del: One_nat_def)
  next
    case (Some b)
    have bc: "b = c" using Some by (simp add: c_def content_or_empty_def)
    have same: "(db v)(key_hash key \<mapsto> c) = db v" using Some bc by (simp add: fun_upd_idem)
    obtain i v1 where p: "prepare_file (cstr key) 1 v = (0, Some i, v1)"
      and a: "acquired v (key_hash key) c (length c) v1 i"
      using acquire_existing [of v "cstr key" b] ok can Some bc by auto
    have l: "live v1 i" "lengths v1 i = length (view v1 i)" "view v1 i = c" "d_length (descs v1 i) = length c"
      using a by (simp_all add: acquired_def lengths_def)
    let ?w = "set_desc 0 (Some i) (new_work line)"
    show ?thesis
    proof (cases "c = []")
      case True
      have f1: "faults v1 = []" using l(1) by (simp add: live_def table_wf_def)
      obtain w' v' where rl: "reply_lit ''0'' 2 (?w, v1) = (w', v')" by fastforce
      have ra: "w_resp w' = take 2 (str ''0'' @ [10])" "v' = v1" "w_desc w' = w_desc ?w"
        using reply_lit_ok [OF desc_array(2,3) f1, of 2 "''0''" "Some i" line] rl
          reply_frame(1) [of "str ''0'' @ [10]" 2 ?w v1] by (simp_all add: reply_lit_def)
      have "exec_bitcount n (new_work line) v = release_all_descs (w', v1)"
        using n key True l(4) ra(2) rl
        by (simp add: exec_bitcount_def s copy_key_def p Let_def del: One_nat_def)
      moreover have "snd (release_all_descs (w', v1)) = release_desc (Some i) v1"
        by (rule release_one) (simp add: ra(3) desc_array)
      moreover note commit_read [OF a table_frame_refl refl refl]
      ultimately show ?thesis unfolding r_def e using same ra(1) zero [OF True] res0 [OF True] p l(4) True
        by (simp del: One_nat_def)
    next
      case False
      have b: "LONG_MIN \<le> ?s" "LONG_MIN \<le> ?e" "?e \<le> LONG_MAX"
        using atol_range small by (auto simp: bitcount_args_def LONG_MIN_def LONG_MAX_def)
      have len60: "length (view v1 i) < 2 ^ 60" unfolding l(3) using small by (rule less_le_trans) simp
      obtain v2 where c2: "bitcountCommand cmd i v1 = (res, v2)"
        "view v2 = view v1" "lengths v2 = lengths v1" "table_frame v1 v2"
        using bitcount_live [OF l(1,2) len60, of cmd] b l(3) by (auto simp: cmd_def res)
      have f2: "faults v2 = []" using c2(4) l(1) by (simp add: table_frame_def live_def table_wf_def)
      have r0: "0 \<le> res" by (simp add: res)
      have r1: "res < 10 ^ 14" using bitcount_spec_le [of c ?s ?e] small by (simp add: res)
      have fin: "w_resp (fst (finish res (?w, v2))) = dec_int res @ [10]"
        "snd (finish res (?w, v2)) = release_desc (Some i) v2"
        by (rule finish_one [OF desc_array(2,1,3) f2 r0 r1])+
      have se: "(if n = 2 then 0 else atol ((key # rest) ! 1)) = ?s"
        "(if n = 4 then atol ((key # rest) ! 2) else int (length c) - 1) = ?e"
        using args(2) by (auto simp: n_def bitcount_args_def numeral_eq_Suc)
      have "exec_bitcount n (new_work line) v =
          (let (result, v) = bitcountCommand \<lparr>bc_key = cstr key,
               bc_start = (if n = 2 then 0 else atol ((key # rest) ! 1)),
               bc_end = (if n = 4 then atol ((key # rest) ! 2) else int (length c) - 1)\<rparr> i v1
           in finish result (?w, v))"
        using n key False l(4) by (simp add: exec_bitcount_def s copy_key_def p Let_def del: One_nat_def)
      then have "exec_bitcount n (new_work line) v = finish res (?w, v2)"
        unfolding se cmd_def [symmetric] c2(1) by simp
      then show ?thesis unfolding r_def e using same fin commit_read [OF a c2(4,2,3)] p l(4) c2(1) False
        by (simp del: One_nat_def)
    qed
  qed
qed

lemma bitcount_line:
  assumes ok: "server_ok v" and line: "10 \<le> length line" "take 5 line = str ''BITCO''"
    and args: "line_words line = name # key # rest" "length rest \<le> 2" and key: "length (cstr key) \<le> 64"
    and can: "can_open v (key_hash key)"
  defines "c \<equiv> content_or_empty (db v (key_hash key))"
  assumes small: "length c < 2 ^ 40"
  defines "r \<equiv> parse_and_execute (new_work line) v"
  shows "w_resp (fst r) =
      dec_int (int (bitcount_spec c (fst (bitcount_args rest (length c))) (snd (bitcount_args rest (length c))))) @ [10] \<and>
    server_ok (snd r) \<and> same_refs v (snd r) \<and> db (snd r) = db v"
  using bitcount_shape [OF assms(1-7) assms(9) [unfolded c_def]] by (simp add: c_def r_def)

end
