(* ===== verification/BitopLine.thy ===== *)
theory BitopLine
  imports Server
begin

text \<open>
  BITOP from the line to the reply: acquiring the destination and the sources, the operation, and
  the release of all of them.
\<close>

section \<open>Several keys at once\<close>

text \<open>
  The hashes \<open>hs\<close> can be opened together: none shares its chain with another key, and there is room
  for \<open>m\<close> more files.
\<close>

definition can_open_set :: "world \<Rightarrow> u64 set \<Rightarrow> nat \<Rightarrow> bool" where
  "can_open_set v hs m \<longleftrightarrow>
     (\<forall>h\<in>hs. h \<noteq> 0 \<and> (\<forall>i. XXTABLE v (chain_id h) = Some i \<longrightarrow> d_hash (descs v i) = h)) \<and>
     inj_on chain_id hs \<and> (\<exists>n. slots_used v n \<and> n + m \<le> DESC_TABLE_SIZE)"

lemma can_open_member: "can_open_set v hs (Suc m) \<Longrightarrow> h \<in> hs \<Longrightarrow> can_open v h"
  by (force simp: can_open_set_def can_open_def split: option.split)

lemma slots_used_unique: "slots_used v n \<Longrightarrow> slots_used v n' \<Longrightarrow> n = n'"
  unfolding slots_used_def by (metis linorder_neq_iff)

lemma can_open_set_same:
  assumes "can_open_set v hs (Suc m)" and "XXTABLE v' = XXTABLE v"
    and "\<And>i. d_hash (descs v' i) = d_hash (descs v i)" and "\<exists>n. slots_used v' n"
  shows "can_open_set v' hs m"
proof -
  obtain n n' where n: "slots_used v n" "n + Suc m \<le> DESC_TABLE_SIZE" and n': "slots_used v' n'"
    using assms(1,4) by (auto simp: can_open_set_def)
  have "i < n \<longleftrightarrow> i < n'" for i using n(1) n' assms(3) by (metis slots_used_def)
  then have "n' = n" by (metis linorder_neq_iff)
  then show ?thesis using assms n n' by (auto simp: can_open_set_def)
qed

lemma can_open_set_opens:
  assumes "can_open_set v hs (Suc m)" and "h \<in> hs" and op: "opens v v' n h c sz"
  shows "can_open_set v' hs m"
proof -
  obtain k where k: "slots_used v k" "k + Suc m \<le> DESC_TABLE_SIZE" using assms(1) by (auto simp: can_open_set_def)
  have n: "slots_used v n" using op by (simp add: opens_def)
  have kn: "k = n" by (rule slots_used_unique [OF k(1) n])
  have x: "XXTABLE v' = (XXTABLE v)(chain_id h := Some n)" using op by (auto elim: opensE)
  have free: "d_hash (descs v n) = 0" using n by (metis less_irrefl slots_used_def)
  have "d_hash (descs v' i) = g" if g: "g \<in> hs" and i: "XXTABLE v' (chain_id g) = Some i" for g i
  proof (cases "chain_id g = chain_id h")
    case True
    then have "g = h" using assms(1,2) g by (auto simp: can_open_set_def inj_on_def)
    then show ?thesis using i opens_fields(2) [OF op] by (simp add: x)
  next
    case False
    then have "XXTABLE v (chain_id g) = Some i" using i by (simp add: x)
    then have "d_hash (descs v i) = g" "g \<noteq> 0" using assms(1) g by (auto simp: can_open_set_def)
    then show ?thesis using opens_fields(5) [OF op, of i] free by (cases "i = n") auto
  qed
  then show ?thesis
    using assms(1) opens_wf(2) [OF op] k(2) kn unfolding can_open_set_def by (auto intro!: exI [of _ "n + 1"])
qed

section \<open>Acquiring the sources\<close>

text \<open>What holding the descriptors \<open>dts\<close> means between two states without changes to any content.\<close>

definition holding :: "world \<Rightarrow> world \<Rightarrow> nat option list \<Rightarrow> bool" where
  "holding v v' dts \<longleftrightarrow>
     server_ok v' \<and> db v' = db v \<and> holders_kept v v' \<and>
     (\<forall>j. d_refs (descs v' j) = d_refs (descs v j) + of_nat (count_list dts (Some j)))"

text \<open>\<open>dt\<close> is the descriptor of a source key, or \<open>None\<close> when there is no such file.\<close>

definition source_held :: "world \<Rightarrow> byte list \<Rightarrow> nat option \<Rightarrow> bool" where
  "source_held v key dt \<longleftrightarrow>
     (case dt of
        None \<Rightarrow> db v (key_hash key) = None
      | Some i \<Rightarrow> live v i \<and> db v (key_hash key) = Some (view v i))"

lemma acquired_server_ok:
  assumes "acquired v h c (length c) v' i"
  shows "server_ok v'"
proof -
  have "lengths v' j = length (view v' j)" if "live v' j" for j
    using assms that by (cases "j = i") (auto simp: acquired_def)
  then show ?thesis using assms by (auto simp: server_ok_def acquired_def live_def)
qed

lemma acquire_source:
  assumes ok: "server_ok v" and can: "can_open_set v hs (Suc m)" and h: "key_hash key \<in> hs"
  obtains r dt v' where "prepare_file key 1 v = (r, dt, v')" "r = (if dt = None then -2 else 0)"
    "holding v v' [dt]" "source_held v' key dt" "can_open_set v' hs m"
proof (cases "XXTABLE v (chain_id (key_hash key))")
  case (Some i)
  have wf: "table_wf v" using ok by (simp add: server_ok_def)
  have i: "d_hash (descs v i) = key_hash key" "key_hash key \<noteq> 0"
    using can h Some by (auto simp: can_open_set_def)
  note a = acquired_touch [OF ok Some i]
  have "can_open_set (touch_desc i v) hs m"
    by (rule can_open_set_same [OF can]) (use touch_same wf in \<open>auto simp: slots_used_def table_wf_def\<close>)
  moreover have "prepare_file key 1 v = (0, Some i, touch_desc i v)"
    by (rule prepare_file_open [OF wf Some i(1)])
  moreover have "holding v (touch_desc i v) [Some i]"
    using a acquired_server_ok [OF a(1)] by (auto simp: holding_def acquired_def fun_upd_idem)
  moreover have "source_held (touch_desc i v) key (Some i)"
    using a by (auto simp: source_held_def acquired_def)
  ultimately show thesis using that by simp
next
  case None
  have wf: "table_wf v" using ok by (simp add: server_ok_def)
  have co: "can_open v (key_hash key)" by (rule can_open_member [OF can h])
  have d: "db v (key_hash key) = disk v (key_hash key)" by (rule db_closed [OF None])
  show thesis
  proof (cases "disk v (key_hash key)")
    case dn: None
    obtain v' where v': "prepare_file key 1 v = (-2, None, v')" "server_ok v'" "same_refs v v'" "db v' = db v"
      "holders_kept v v'"
      using acquire_absent [OF ok co] d dn by auto
    obtain v'' where v'': "prepare_file key 1 v = (-2, None, v'')" "descs v'' = descs v" "XXTABLE v'' = XXTABLE v"
      using prepare_file_absent [OF wf co None dn] by metis
    have eq: "v'' = v'" using v'(1) v''(1) by simp
    have "\<exists>n. slots_used v' n" using v'(2) by (simp add: server_ok_def table_wf_def)
    then have "can_open_set v' hs m"
      by (rule can_open_set_same [OF can, rotated -1]) (simp_all add: v'' [unfolded eq])
    moreover have "holding v v' [None]" using v'(2-5) by (simp add: holding_def same_refs_def)
    moreover have "source_held v' key None" using d dn v'(4) by (simp add: source_held_def)
    ultimately show thesis using that v'(1) by simp
  next
    case (Some c)
    obtain n v' where p: "prepare_file key 1 v = (0, Some n, v')" "opens v v' n (key_hash key) c (length c)"
      using prepare_file_closed [OF wf co None, of 1] Some by (auto simp: opened_content_def opened_size_def)
    note a = acquired_opens [OF ok p(2)]
    have same: "(db v)(key_hash key \<mapsto> c) = db v" using d Some by (simp add: fun_upd_idem)
    have "holding v v' [Some n]"
      using a acquired_server_ok [OF a] same by (auto simp: holding_def acquired_def)
    moreover have "source_held v' key (Some n)"
      using a by (auto simp: source_held_def acquired_def)
    ultimately show thesis using that p can_open_set_opens [OF can h p(2)] by simp
  qed
qed

lemma holding_same: "server_ok v \<Longrightarrow> holding v v []"
  by (simp add: holding_def holders_kept_def server_ok_def)

lemma holding_Cons:
  assumes "holding v v1 dts" and "holding v1 v2 [dt]"
  shows "holding v v2 (dt # dts)"
  using assms holders_kept_trans [of v v1 v2] by (auto simp: holding_def)

lemma source_held_kept:
  assumes "source_held v key dt" and "holding v v' dts"
  shows "source_held v' key dt"
  using assms by (cases dt) (auto simp: source_held_def holding_def holders_kept_def)

lemma acquire_sources:
  assumes "server_ok v" and "can_open_set v hs (m + length keys)" and "key_hash ` set keys \<subseteq> hs"
  shows "\<exists>dts v'. prepare_files keys v = (0, dts, v') \<and> holding v v' dts \<and>
    list_all2 (source_held v') keys dts \<and> can_open_set v' hs m"
  using assms(2,3)
proof (induction keys arbitrary: m)
  case Nil
  then show ?case using holding_same [OF assms(1)] by simp
next
  case (Cons key keys)
  obtain dts v1 where 1: "prepare_files keys v = (0, dts, v1)" "holding v v1 dts"
    "list_all2 (source_held v1) keys dts" "can_open_set v1 hs (Suc m)"
    using Cons.IH [of "Suc m"] Cons.prems by auto
  have ok: "server_ok v1" using 1(2) by (simp add: holding_def)
  have h: "key_hash key \<in> hs" using Cons.prems(2) by simp
  obtain r dt v2 where 2: "prepare_file key 1 v1 = (r, dt, v2)" "r = (if dt = None then -2 else 0)"
    "holding v1 v2 [dt]" "source_held v2 key dt" "can_open_set v2 hs m"
    by (rule acquire_source [OF ok 1(4) h])
  have "list_all2 (source_held v2) keys dts"
    using 1(3) source_held_kept [OF _ 2(3)] by (rule list_all2_mono)
  moreover have "prepare_files (key # keys) v = (0, dt # dts, v2)"
    using 1(1) 2(1,2) by (auto simp del: One_nat_def)
  ultimately show ?case using holding_Cons [OF 1(2) 2(3)] 2(4,5) by auto
qed

text \<open>The contents the command sees are those of the data base.\<close>

lemma held_contents:
  assumes "holding v v' dts" and "list_all2 (source_held v') keys dts"
  shows "sources_ready v' dts"
    and "map (source_content v') dts = map (\<lambda>k. content_or_empty (db v (key_hash k))) keys"
proof -
  have ok: "server_ok v'" and db: "db v' = db v" using assms(1) by (simp_all add: holding_def)
  have "live v' d" if "Some d \<in> set dts" for d
  proof -
    from that obtain k where "k < length dts" "dts ! k = Some d" by (metis in_set_conv_nth)
    then show ?thesis using assms(2) by (auto simp: list_all2_conv_all_nth source_held_def split: option.splits)
  qed
  then show "sources_ready v' dts"
    using ok by (simp add: sources_ready_def server_faults server_ok_def)
  show "map (source_content v') dts = map (\<lambda>k. content_or_empty (db v (key_hash k))) keys"
  proof (rule nth_equalityI)
    fix k assume k: "k < length (map (source_content v') dts)"
    then have "source_held v' (keys ! k) (dts ! k)" "k < length keys"
      using assms(2) by (auto simp: list_all2_conv_all_nth)
    with k show "map (source_content v') dts ! k = map (\<lambda>k. content_or_empty (db v (key_hash k))) keys ! k"
      by (auto simp: source_held_def source_content_def content_or_empty_def db split: option.splits)
  qed (use assms(2) in \<open>simp add: list_all2_lengthD\<close>)
qed

section \<open>Releasing everything\<close>

lemma release_fold:
  shows "table_wf (fold release_desc dts v) = table_wf v" and "view (fold release_desc dts v) = view v"
    and "live (fold release_desc dts v) = live v" and "db (fold release_desc dts v) = db v"
    and "lengths (fold release_desc dts v) = lengths v"
    and "d_refs (descs (fold release_desc dts v) j) = d_refs (descs v j) - of_nat (count_list dts (Some j))"
proof (induction dts arbitrary: v)
  case (Cons dt dts)
  { case 1 show ?case using Cons(1) [of "release_desc dt v"] by (simp add: release_same)
  next case 2 show ?case using Cons(2) [of "release_desc dt v"] by (simp add: release_same)
  next case 3 show ?case using Cons(3) [of "release_desc dt v"] by (simp add: release_same)
  next case 4 show ?case using Cons(4) [of "release_desc dt v"] by (simp add: release_same)
  next case 5 show ?case using Cons(5) [of "release_desc dt v"] by (simp add: release_same)
  next case 6 show ?case using Cons(6) [of "release_desc dt v"] by (simp add: release_same)
  }
qed simp_all

text \<open>
  From \<open>v\<close> the descriptors \<open>dts\<close> were acquired, giving \<open>v1\<close>; the command gave \<open>v2\<close>.
\<close>

lemma release_all_ok:
  assumes v: "server_ok v" and kept: "holders_kept v v1" and f: "table_frame v1 v2"
    and refs: "\<And>j. d_refs (descs v1 j) = d_refs (descs v j) + of_nat (count_list dts (Some j))"
    and len: "\<And>j. live v1 j \<Longrightarrow> lengths v2 j = length (view v2 j)"
  shows "server_ok (fold release_desc dts v2)" and "same_refs v (fold release_desc dts v2)"
    and "db (fold release_desc dts v2) = db v2"
proof -
  have r: "d_refs (descs (fold release_desc dts v2) j) = d_refs (descs v j)" for j
    using f refs by (simp add: release_fold table_frame_def)
  then show "same_refs v (fold release_desc dts v2)" by (simp add: same_refs_def)
  have lv: "live v2 = live v1" using f by (simp add: table_frame_def)
  have "d_refs (descs v j) = 0" if "\<not> live v1 j" for j
    using that v kept by (auto simp: server_ok_def holders_kept_def)
  then show "server_ok (fold release_desc dts v2)"
    using f kept len by (simp add: server_ok_def release_fold(1-5) r lv) (simp add: table_frame_def holders_kept_def)
  show "db (fold release_desc dts v2) = db v2" by (rule release_fold)
qed

end
