(* ===== verification/BitopServe.thy ===== *)
theory BitopServe
  imports BitopLine
begin

text \<open>
  The BITOP command as a client sees it: with a hook the reply is the length or the number of set
  bits of the result, with a destination the result is written over the destination's content.
\<close>

definition bitop_result :: "OP_OPTIONS \<Rightarrow> world \<Rightarrow> byte list list \<Rightarrow> byte list" where
  "bitop_result op v srcs = op_result op (map (\<lambda>k. content_or_empty (db v (key_hash k))) srcs)"

section \<open>The pieces of the handler\<close>

text \<open>
  The final reply and release, whatever descriptors the request holds: a number, or the error line
  for a negative result.
\<close>

definition result_line :: "int \<Rightarrow> byte list" where
  "result_line r = (if r < 0 then str ''ERR:FILE ACCESS FAILED'' @ [10] else dec_int r @ [10])"

lemma finish_reply:
  assumes "r < 10 ^ 14"
  shows "finish r s = release_all_descs (reply (result_line r) (length (result_line r)) s)"
proof (cases "r < 0")
  case True
  have "length (str ''ERR:FILE ACCESS FAILED'' @ [10]) = 23" by (simp add: str_def)
  then show ?thesis using True by (simp add: finish_def result_line_def reply_lit_def del: length_append)
next
  case False
  then show ?thesis using dec_int_small [of r] assms by (simp add: finish_def result_line_def)
qed

lemma finish_all:
  assumes "w_resp w = []" and "0 < w_cap w" and "faults v = []" and "r < 10 ^ 14"
  shows "w_resp (fst (finish r (w, v))) = result_line r"
    and "snd (finish r (w, v)) = fold release_desc (w_desc w) v"
proof -
  obtain w' v' where e: "reply (result_line r) (length (result_line r)) (w, v) = (w', v')" by fastforce
  have "0 < length (result_line r)" by (simp add: result_line_def)
  note a = reply_answers [OF assms(3,2) this e]
  have "finish r (w, v) = release_all_descs (w', v)" unfolding finish_reply [OF assms(4)] e using a(2) by simp
  then show "w_resp (fst (finish r (w, v))) = result_line r"
    "snd (finish r (w, v)) = fold release_desc (w_desc w) v"
    using a(1,3) assms(1) by (simp_all add: release_all_descs_def answered_def)
qed

lemma release_array: "fold release_desc (dts @ replicate n None) v = fold release_desc dts v"
proof -
  have "fold release_desc (replicate n None) v = v" for v
    by (induction n) (simp_all add: release_desc_def)
  then show ?thesis by simp
qed

text \<open>The descriptor array when the sources are in it.\<close>

lemma source_array:
  assumes "w_desc w = d # replicate 16 None" and "length dts \<le> 16"
  defines "w' \<equiv> w\<lparr>w_desc := take 1 (w_desc w) @ dts @ drop (1 + length dts) (w_desc w)\<rparr>"
  shows "w_desc w' = d # dts @ replicate (16 - length dts) None" and "w_desc w' ! 0 = d"
    and "take (length dts) (drop 1 (w_desc w')) = dts" and "w_resp w' = w_resp w" and "w_cap w' = w_cap w"
  using assms by simp_all

lemma bitop_sources_run:
  assumes p: "prepare_files srcs v = (0, dts, v1)" and len: "length dts = length srcs" "length srcs \<le> 16"
    and cmd: "bo_count cmd = length srcs" and w: "w_desc w = d # replicate 16 None" "w_resp w = []" "0 < w_cap w"
    and run: "bitopCommand cmd d dts v1 = (r, v2)" and f: "faults v2 = []" and r: "r < 10 ^ 14"
  shows "w_resp (fst (exec_bitop_sources c (a # b # srcs) cmd w v)) = result_line r"
    and "snd (exec_bitop_sources c (a # b # srcs) cmd w v) = fold release_desc (d # dts) v2"
proof -
  define w' where "w' = w\<lparr>w_desc := take 1 (w_desc w) @ dts @ drop (1 + length dts) (w_desc w)\<rparr>"
  have "length dts \<le> 16" using len by simp
  note sa = source_array [OF w(1) this, folded w'_def]
  have src: "take (length srcs) (drop 2 (a # b # srcs)) = srcs" "take (length srcs) (drop 1 (w_desc w')) = dts"
    using sa(3) len by simp_all
  have "exec_bitop_sources c (a # b # srcs) cmd w v = finish r (w', v2)"
    unfolding exec_bitop_sources_def cmd src p Let_def split_def fst_conv snd_conv w'_def [symmetric] sa(2) src run
    by simp
  moreover have "w_resp (fst (finish r (w', v2))) = result_line r"
    "snd (finish r (w', v2)) = fold release_desc (w_desc w') v2"
    by (rule finish_all; use w sa f r in simp)+
  ultimately show "w_resp (fst (exec_bitop_sources c (a # b # srcs) cmd w v)) = result_line r"
    "snd (exec_bitop_sources c (a # b # srcs) cmd w v) = fold release_desc (d # dts) v2"
    using release_array [of "d # dts" "16 - length dts" v2] sa(1) by simp_all
qed

section \<open>With a hook\<close>

lemma bitop_hook_shape:
  assumes ok: "server_ok v" and line: "10 \<le> length line" "take 5 line = str ''BITOP''"
    and args: "line_words line = name # opt # dest # srcs" "srcs \<noteq> []" "length srcs \<le> 16"
    and opt: "parse_option opt = Some op" "op = OP_NOT \<Longrightarrow> length srcs = 1"
    and hook: "parse_hook dest = Some hook" "hook \<noteq> NONE"
    and can: "can_open_set v (key_hash ` set srcs) (length srcs)"
  defines "res \<equiv> bitop_result op v srcs"
  assumes small: "length res \<le> 2 ^ 31"
  defines "r \<equiv> parse_and_execute (new_work line) v"
  defines "n \<equiv> if hook = COUNTOP then int (popcount_list res) else to_int32 (int (length res))"
  shows "w_resp (fst r) = result_line n \<and> server_ok (snd r) \<and> same_refs v (snd r) \<and> db (snd r) = db v \<and>
    (\<exists>dts v1 v2. prepare_files srcs v = (0, dts, v1) \<and>
      bitopCommand \<lparr>bo_key = [], bo_count = length srcs, bo_hook = hook, bo_option = op\<rparr> None dts v1 = (n, v2) \<and>
      snd r = fold release_desc (None # dts) v2)"
proof -
  let ?c = "Suc (Suc (Suc (length srcs)))"
  let ?cmd = "\<lparr>bo_key = [], bo_count = length srcs, bo_hook = hook, bo_option = op\<rparr>"
  have e: "parse_and_execute (new_work line) v = exec_bitop ?c (new_work line) v"
    by (rule dispatch_count [OF line handler_names(3)]) (simp add: args)
  have s: "split_fill line (length line) ?c v = (opt # dest # srcs, v)"
    using split_line [OF server_faults [OF ok] args(1)] by simp
  have c: "\<not> (?c < 4 \<or> 19 < ?c)" using args(2,3) by (cases srcs) auto
  have nt: "\<not> (op = OP_NOT \<and> ?c \<noteq> 4)" using opt(2) by auto
  have x: "exec_bitop ?c (new_work line) v = exec_bitop_sources ?c (opt # dest # srcs) ?cmd (new_work line) v"
    using c nt hook opt(1) by (auto simp: exec_bitop_def s)
  obtain dts v1 where a: "prepare_files srcs v = (0, dts, v1)" "holding v v1 dts" "list_all2 (source_held v1) srcs dts"
    using acquire_sources [OF ok, of "key_hash ` set srcs" 0 srcs] can by auto
  note h = held_contents [OF a(2,3)]
  have len: "length dts = length srcs" using a(3) by (simp add: list_all2_lengthD)
  have res: "op_result op (map (source_content v1) dts) = res" by (simp add: h(2) res_def bitop_result_def)
  obtain v2 where b: "bitopCommand ?cmd None dts v1 = (n, v2)" "view v2 = view v1" "lengths v2 = lengths v1"
    "table_frame v1 v2"
    using bitop_hook_live [OF h(1), of ?cmd None] hook(2) small res
    by (auto simp: n_def)
  have ok1: "server_ok v1" and db1: "db v1 = db v" and k1: "holders_kept v v1" using a(2) by (simp_all add: holding_def)
  have wf1: "table_wf v1" using ok1 by (simp add: server_ok_def)
  have f2: "faults v2 = []" using b(4) wf1 by (simp add: table_frame_def table_wf_def)
  have "popcount_list res \<le> 8 * length res" by (rule popcount_list_le)
  then have n14: "n < 10 ^ 14" using small to_int32_range [of "int (length res)"] by (simp add: n_def)
  have w: "w_desc (new_work line) = None # replicate 16 None"
    by (simp add: ARG_PART_MAXIMUM_def numeral_eq_Suc)
  note run = bitop_sources_run [OF a(1) len args(3) _ w _ _ b(1) f2 n14, of ?c opt dest]
  have sr: "snd r = fold release_desc (None # dts) v2" unfolding r_def e x by (subst run(2)) simp_all
  then have "snd r = fold release_desc dts v2" by (simp add: release_desc_def)
  moreover have "w_resp (fst r) = result_line n" unfolding r_def e x by (rule run(1)) simp_all
  moreover have "server_ok (fold release_desc dts v2)" "same_refs v (fold release_desc dts v2)"
    "db (fold release_desc dts v2) = db v2"
    by (rule release_all_ok [OF ok k1 b(4)]; use a(2) ok1 b(2,3) in \<open>simp add: holding_def server_ok_def\<close>)+
  moreover have "db v2 = db v" using db_same_view [OF wf1 b(4,2)] db1 by simp
  ultimately show ?thesis using a(1) b(1) sr by auto
qed

lemma bitop_hook_line:
  assumes "server_ok v" and "10 \<le> length line" and "take 5 line = str ''BITOP''"
    and "line_words line = name # opt # dest # srcs" and "srcs \<noteq> []" and "length srcs \<le> 16"
    and "parse_option opt = Some op" and "op = OP_NOT \<Longrightarrow> length srcs = 1"
    and "parse_hook dest = Some hook" and "hook \<noteq> NONE"
    and "can_open_set v (key_hash ` set srcs) (length srcs)"
  defines "res \<equiv> bitop_result op v srcs"
  assumes "length res \<le> 2 ^ 31"
  defines "r \<equiv> parse_and_execute (new_work line) v"
  shows "w_resp (fst r) =
      result_line (if hook = COUNTOP then int (popcount_list res) else to_int32 (int (length res))) \<and>
    server_ok (snd r) \<and> same_refs v (snd r) \<and> db (snd r) = db v"
  using bitop_hook_shape [OF assms(1-11) assms(13) [unfolded res_def]] unfolding r_def res_def by blast

section \<open>With a destination\<close>

text \<open>The destination is open, or is a file that does not exist; what else can happen is in \<open>TableLimits\<close>.\<close>

lemma acquire_dest:
  assumes ok: "server_ok v" and can: "can_open_set v hs (Suc m)" and h: "key_hash key \<in> hs"
    and dest: "XXTABLE v (chain_id (key_hash key)) \<noteq> None \<or> db v (key_hash key) = None"
  defines "c \<equiv> content_or_empty (db v (key_hash key))"
  obtains i v' where "prepare_file key 2 v = (0, Some i, v')" "acquired v (key_hash key) c (length c) v' i"
    "can_open_set v' hs m"
proof (cases "XXTABLE v (chain_id (key_hash key))")
  case (Some i)
  have wf: "table_wf v" using ok by (simp add: server_ok_def)
  have i: "d_hash (descs v i) = key_hash key" "key_hash key \<noteq> 0"
    using can h Some by (auto simp: can_open_set_def)
  note a = acquired_touch [OF ok Some i]
  have "can_open_set (touch_desc i v) hs m"
    by (rule can_open_set_same [OF can]) (use touch_same wf in \<open>auto simp: slots_used_def table_wf_def\<close>)
  then show thesis
    using that [of i "touch_desc i v"] prepare_file_open [OF wf Some i(1), of 2] a by (simp add: c_def content_or_empty_def)
next
  case None
  have wf: "table_wf v" using ok by (simp add: server_ok_def)
  have d: "db v (key_hash key) = None" "disk v (key_hash key) = None"
    using dest None db_closed [OF None] by simp_all
  obtain n v' where p: "prepare_file key 2 v = (0, Some n, v')" "opens v v' n (key_hash key) [] 0"
    using prepare_file_closed [OF wf can_open_member [OF can h] None, of 2] d
    by (auto simp: opened_content_def opened_size_def)
  then show thesis
    using that [of n v'] acquired_opens [OF ok p(2)] can_open_set_opens [OF can h p(2)] d
    by (simp add: c_def content_or_empty_def)
qed

lemma bitop_store_shape:
  assumes ok: "server_ok v" and line: "10 \<le> length line" "take 5 line = str ''BITOP''"
    and args: "line_words line = name # opt # dest # srcs" "srcs \<noteq> []" "length srcs \<le> 16"
    and opt: "parse_option opt = Some op" "op = OP_NOT \<Longrightarrow> length srcs = 1"
    and hook: "parse_hook dest = Some NONE" and key: "length (cstr dest) \<le> 64"
    and can: "can_open_set v (insert (key_hash dest) (key_hash ` set srcs)) (Suc (length srcs))"
    and fresh: "XXTABLE v (chain_id (key_hash dest)) \<noteq> None \<or> db v (key_hash dest) = None"
  defines "c \<equiv> content_or_empty (db v (key_hash dest))" and "res \<equiv> bitop_result op v srcs"
  assumes small: "length res \<le> 2 ^ 31"
  defines "r \<equiv> parse_and_execute (new_work line) v"
  shows "w_resp (fst r) = result_line (to_int32 (int (length res))) \<and>
    server_ok (snd r) \<and> same_refs v (snd r) \<and> db (snd r) = (db v)(key_hash dest \<mapsto> write_at c 0 res) \<and>
    (\<exists>i v0 dts v1 v2. prepare_file (cstr dest) 2 v = (0, Some i, v0) \<and> prepare_files srcs v0 = (0, dts, v1) \<and>
      bitopCommand \<lparr>bo_key = cstr dest, bo_count = length srcs, bo_hook = NONE, bo_option = op\<rparr> (Some i) dts v1 =
        (to_int32 (int (length res)), v2) \<and>
      snd r = fold release_desc (Some i # dts) v2)"
proof -
  let ?c = "Suc (Suc (Suc (length srcs)))" and ?h = "key_hash dest"
  let ?cmd = "\<lparr>bo_key = cstr dest, bo_count = length srcs, bo_hook = NONE, bo_option = op\<rparr>"
  have e: "parse_and_execute (new_work line) v = exec_bitop ?c (new_work line) v"
    by (rule dispatch_count [OF line handler_names(3)]) (simp add: args)
  have s: "split_fill line (length line) ?c v = (opt # dest # srcs, v)"
    using split_line [OF server_faults [OF ok] args(1)] by simp
  have c: "\<not> (?c < 4 \<or> 19 < ?c)" using args(2,3) by (cases srcs) auto
  have nt: "\<not> (op = OP_NOT \<and> ?c \<noteq> 4)" using opt(2) by auto
  obtain i v0 where d: "prepare_file (cstr dest) 2 v = (0, Some i, v0)" "acquired v ?h c (length c) v0 i"
    "can_open_set v0 (insert ?h (key_hash ` set srcs)) (length srcs)"
    using acquire_dest [OF ok can, of "cstr dest"] fresh by (auto simp: c_def)
  let ?w = "set_desc 0 (Some i) (new_work line)"
  have x: "exec_bitop ?c (new_work line) v = exec_bitop_sources ?c (opt # dest # srcs) ?cmd ?w v0"
    using c nt hook opt(1) key d(1) by (auto simp: exec_bitop_def s copy_key_def)
  have ok0: "server_ok v0" by (rule acquired_server_ok [OF d(2)])
  have db0: "db v0 = (db v)(?h \<mapsto> c)" and k0: "holders_kept v v0" using d(2) by (simp_all add: acquired_def)
  obtain dts v1 where a: "prepare_files srcs v0 = (0, dts, v1)" "holding v0 v1 dts" "list_all2 (source_held v1) srcs dts"
    using acquire_sources [OF ok0, of "insert ?h (key_hash ` set srcs)" 0 srcs] d(3) by auto
  note h = held_contents [OF a(2,3)]
  have len: "length dts = length srcs" using a(3) by (simp add: list_all2_lengthD)
  have "content_or_empty (db v0 g) = content_or_empty (db v g)" for g
    by (simp add: db0 c_def content_or_empty_def)
  then have res: "op_result op (map (source_content v1) dts) = res" by (simp add: h(2) res_def bitop_result_def)
  have ok1: "server_ok v1" and db1: "db v1 = db v0" and k1: "holders_kept v0 v1"
    using a(2) by (simp_all add: holding_def)
  have l1: "live v1 i" "view v1 i = c" "d_hash (descs v1 i) = ?h"
    using d(2) k1 by (simp_all add: acquired_def holders_kept_def)
  have small': "result_length (map (source_content v1) dts) \<le> 2 ^ 31"
    using small res by (metis length_op_result)
  obtain v2 where b: "bitopCommand ?cmd (Some i) dts v1 = (to_int32 (int (length res)), v2)"
    "view v2 = (view v1)(i := write_at c 0 res)"
    "lengths v2 = (lengths v1)(i := if res = [] then lengths v1 i else max (lengths v1 i) (length res))"
    "table_frame v1 v2"
    using bitop_store_live [OF h(1) l1(1), of ?cmd] small' res l1(2) by auto
  have wf1: "table_wf v1" using ok1 by (simp add: server_ok_def)
  have f2: "faults v2 = []" using b(4) wf1 by (simp add: table_frame_def table_wf_def)
  have n14: "to_int32 (int (length res)) < 10 ^ 14" using to_int32_range [of "int (length res)"] by simp
  note run = bitop_sources_run [OF a(1) len args(3) _ desc_array b(1) f2 n14, of ?c opt dest]
  have "snd r = fold release_desc (Some i # dts) v2" unfolding r_def e x by (subst run(2)) simp_all
  moreover have "w_resp (fst r) = result_line (to_int32 (int (length res)))" unfolding r_def e x by (rule run(1)) simp
  moreover have "server_ok (fold release_desc (Some i # dts) v2)" "same_refs v (fold release_desc (Some i # dts) v2)"
    "db (fold release_desc (Some i # dts) v2) = db v2"
  proof -
    have rf: "d_refs (descs v1 j) = d_refs (descs v j) + of_nat (count_list (Some i # dts) (Some j))" for j
      using a(2) d(2) by (simp add: holding_def acquired_def)
    have ln: "lengths v2 j = length (view v2 j)" if "live v1 j" for j
      using ok1 that l1(1,2) by (auto simp: b(2,3) server_ok_def)
    note q = release_all_ok [OF ok holders_kept_trans [OF k0 k1] b(4) rf ln]
    show "server_ok (fold release_desc (Some i # dts) v2)" by (rule q(1))
    show "same_refs v (fold release_desc (Some i # dts) v2)" by (rule q(2))
    show "db (fold release_desc (Some i # dts) v2) = db v2" by (rule q(3))
  qed
  moreover have "db v2 = (db v)(?h \<mapsto> write_at c 0 res)"
    using db_frame_view [OF l1(1) b(4,2)] l1(3) db1 db0 by simp
  ultimately show ?thesis using d(1) a(1) b(1) by auto
qed

lemma bitop_store_line:
  assumes "server_ok v" and "10 \<le> length line" and "take 5 line = str ''BITOP''"
    and "line_words line = name # opt # dest # srcs" and "srcs \<noteq> []" and "length srcs \<le> 16"
    and "parse_option opt = Some op" and "op = OP_NOT \<Longrightarrow> length srcs = 1"
    and "parse_hook dest = Some NONE" and "length (cstr dest) \<le> 64"
    and "can_open_set v (insert (key_hash dest) (key_hash ` set srcs)) (Suc (length srcs))"
    and "XXTABLE v (chain_id (key_hash dest)) \<noteq> None \<or> db v (key_hash dest) = None"
  defines "c \<equiv> content_or_empty (db v (key_hash dest))" and "res \<equiv> bitop_result op v srcs"
  assumes "length res \<le> 2 ^ 31"
  defines "r \<equiv> parse_and_execute (new_work line) v"
  shows "w_resp (fst r) = result_line (to_int32 (int (length res))) \<and>
    server_ok (snd r) \<and> same_refs v (snd r) \<and> db (snd r) = (db v)(key_hash dest \<mapsto> write_at c 0 res)"
  using bitop_store_shape [OF assms(1-12) assms(15) [unfolded res_def]] unfolding r_def res_def c_def by blast

end
