(* ===== verification/TableLimits.thy ===== *)
theory TableLimits
  imports Session
begin

text \<open>
  The table at its limits: which descriptor is evicted, what the caller of \<open>get_avalible_slot\<close> makes
  of it, what a second key on the same chain does to the first, and the recorded length after a
  truncating open.
\<close>

section \<open>Eviction\<close>

lemma scan_slots_result:
  assumes "scan_slots ds i tmp lowest = r"
    and "\<And>l. lowest = Some l \<Longrightarrow> l < DESC_TABLE_SIZE \<and> d_refs (ds l) = 0 \<and> d_hash (ds l) \<noteq> 0"
  shows "case r of
      Inl n \<Rightarrow> i \<le> n \<and> n < DESC_TABLE_SIZE \<and> d_hash (ds n) = 0
    | Inr low \<Rightarrow> (\<forall>l. low = Some l \<longrightarrow> l < DESC_TABLE_SIZE \<and> d_refs (ds l) = 0 \<and> d_hash (ds l) \<noteq> 0) \<and>
        (\<forall>j. i \<le> j \<and> j < DESC_TABLE_SIZE \<longrightarrow> d_hash (ds j) \<noteq> 0)"
  using assms
proof (induction ds i tmp lowest arbitrary: r rule: scan_slots.induct)
  case (1 ds i tmp lowest)
  show ?case
  proof (cases "i < DESC_TABLE_SIZE")
    case False
    then show ?thesis using "1.prems" by (auto simp: scan_slots.simps [of ds i])
  next
    case i: True
    show ?thesis
    proof (cases "d_hash (ds i) = 0")
      case True
      then show ?thesis using i "1.prems"(1) by (auto simp: scan_slots.simps [of ds i])
    next
      case used: False
      have step: "(i \<le> j \<and> j < DESC_TABLE_SIZE \<longrightarrow> d_hash (ds j) \<noteq> 0) =
          (i + 1 \<le> j \<and> j < DESC_TABLE_SIZE \<longrightarrow> d_hash (ds j) \<noteq> 0)" for j
        using used by (metis Suc_eq_plus1 Suc_leI le_SucI le_eq_less_or_eq add_leD1)
      show ?thesis
      proof (cases "d_refs (ds i) = 0 \<and> d_last_access (ds i) < tmp")
        case True
        then have "scan_slots ds (i + 1) (d_last_access (ds i)) (Some i) = r"
          using i used "1.prems"(1) by (simp add: scan_slots.simps [of ds i])
        from "1.IH"(1) [OF i used True this] True i used show ?thesis
          unfolding step by (auto split: sum.splits)
      next
        case False
        have "scan_slots ds (i + 1) tmp lowest = r"
          using "1.prems"(1)
          unfolding scan_slots.simps [of ds i tmp lowest] if_P [OF i] if_not_P [OF used] if_not_P [OF False] .
        from "1.IH"(2) [OF i used False this "1.prems"(2)] show ?thesis
          unfolding step by (auto split: sum.splits)
      qed
    qed
  qed
qed

text \<open>No descriptor with holders is closed or cleared to make room.\<close>

lemma slot_spares_holders:
  assumes "no_links w" and "d_refs (descs w i) \<noteq> 0"
  shows "descs (snd (get_avalible_slot w)) i = descs w i"
proof -
  define r where "r = scan_slots (descs w) (idx w) (fst (get_us w)) None"
  have low: "d_refs (descs w l) = 0" if "r = Inr (Some l)" for l
    using scan_slots_result [OF r_def [symmetric]] that by simp
  have links: "d_next (descs w l) = None" "d_prev (descs w l) = None" for l
    using assms(1) by (simp_all add: no_linksD)
  show ?thesis
  proof (cases r)
    case (Inl n)
    then show ?thesis
      by (simp add: get_avalible_slot_def split_def Let_def r_def [symmetric] table_frames)
  next
    case (Inr lowest)
    show ?thesis
    proof (cases lowest)
      case None
      then show ?thesis using Inr
        by (simp add: get_avalible_slot_def split_def Let_def r_def [symmetric] table_frames)
    next
      case (Some l)
      have "l \<noteq> i" using low [of l] Inr Some assms(2) by auto
      then show ?thesis using Inr Some links
        by (simp add: get_avalible_slot_def split_def Let_def r_def [symmetric] table_frames
            DESC_HARD_LIMIT_def unlink_desc_def close_file_def split: option.split)
    qed
  qed
qed

section \<open>A full table\<close>

text \<open>
  When every slot is used and the scan stands on the last one, as it does after 8192 opens, the
  slot that is cleared is the last one, and the new file is put into slot 0: \<open>open_file\<close> uses the
  scan position, which was reset, and not the slot it was given.
\<close>

definition full_at_end :: "world \<Rightarrow> bool" where
  "full_at_end w \<longleftrightarrow>
     idx w = DESC_TABLE_SIZE - 1 \<and> d_hash (descs w (DESC_TABLE_SIZE - 1)) \<noteq> 0 \<and>
     d_refs (descs w (DESC_TABLE_SIZE - 1)) = 0 \<and>
     d_last_access (descs w (DESC_TABLE_SIZE - 1)) < fst (get_us w)"

lemma get_avalible_slot_full:
  assumes "full_at_end w" and "no_links w"
  shows "\<exists>w'. get_avalible_slot w = (int (DESC_TABLE_SIZE - 1), w') \<and> idx w' = 0 \<and>
    descs w' = (descs w)(DESC_TABLE_SIZE - 1 := zero_desc) \<and>
    XXTABLE w' = (XXTABLE w)(chain_id (d_hash (descs w (DESC_TABLE_SIZE - 1))) := None) \<and>
    lost w' = lost w \<and> w' = upd_desc (DESC_TABLE_SIZE - 1) (\<lambda>_. zero_desc)
      (close_file (DESC_TABLE_SIZE - 1) (unlink_desc (DESC_TABLE_SIZE - 1) ((snd (get_us w))\<lparr>idx := 0\<rparr>)))"
proof -
  let ?l = "DESC_TABLE_SIZE - 1"
  have l: "?l < DESC_TABLE_SIZE" "?l + 1 = DESC_TABLE_SIZE" by (simp_all add: DESC_TABLE_SIZE_def)
  have "scan_slots (descs w) ?l (fst (get_us w)) None =
      scan_slots (descs w) (?l + 1) (d_last_access (descs w ?l)) (Some ?l)"
    using assms(1) l(1) by (subst scan_slots.simps) (simp add: full_at_end_def)
  also have "\<dots> = Inr (Some ?l)" unfolding l(2) by (subst scan_slots.simps) simp
  finally have s: "scan_slots (descs w) (idx w) (fst (get_us w)) None = Inr (Some ?l)"
    using assms(1) by (simp add: full_at_end_def)
  have links: "d_next (descs w i) = None" "d_prev (descs w i) = None" for i
    using assms(2) by (simp_all add: no_linksD)
  show ?thesis
    by (simp add: get_avalible_slot_def split_def Let_def table_frames s DESC_HARD_LIMIT_def)
      (simp add: unlink_desc_def close_file_def table_frames links Let_def split: option.split)
qed

text \<open>
  So a new key takes over slot 0, whatever its reference count: its stream is lost, and whoever
  holds the slot now reads and writes the new key's file.
\<close>

lemma prepare_full:
  assumes full: "full_at_end w" and nl: "no_links w" and ok: "faults w = []" "dirs_ready w"
    and last: "d_fd (descs w (DESC_TABLE_SIZE - 1)) = Some g" "f_pend g = None"
    and zero: "d_fd (descs w 0) = Some f0" and head: "XXTABLE w (chain_id (key_hash key)) = None"
    and absent: "fs w (path_of (srv_dir w) (key_hash key)) = None"
  shows "\<exists>w'. prepare_file key 0 w = (0, Some 0, w') \<and> d_hash (descs w' 0) = key_hash key \<and>
    d_fd (descs w' 0) = Some (new_stream (path_of (srv_dir w) (key_hash key))) \<and> lost w' = f0 # lost w \<and>
    d_hash (descs w' (DESC_TABLE_SIZE - 1)) = 0"
proof -
  let ?l = "DESC_TABLE_SIZE - 1" and ?h = "key_hash key"
  let ?path = "path_of (srv_dir w) ?h"
  have l0: "?l \<noteq> 0" by (simp add: DESC_TABLE_SIZE_def)
  obtain v where v: "get_avalible_slot w = (int ?l, v)" "idx v = 0" "descs v = (descs w)(?l := zero_desc)"
    "lost v = lost w" and vd: "v = upd_desc ?l (\<lambda>_. zero_desc)
      (close_file ?l (unlink_desc ?l ((snd (get_us w))\<lparr>idx := 0\<rparr>)))"
    using get_avalible_slot_full [OF full nl] by blast
  have links: "d_next (descs w i) = None" "d_prev (descs w i) = None" for i using nl by (simp_all add: no_linksD)
  have fv: "fs v = fs w" "faults v = []" "srv_dir v = srv_dir w"
    using ok(1) last by (simp_all add: vd close_file_def unlink_desc_def links table_frames Let_def
        fclose_def fflush_def)
  have dv: "dirs_ready v" using ok(2) by (simp add: dirs_ready_def fv)
  let ?u = "mkdirs ?h v"
  have gp: "gen_path path_buffer ?h v = (0, ?path @ replicate (237 - length (srv_dir w)) 0, ?u)"
    using gen_path_ready [OF dv fv(2), of ?h] by (simp add: fv)
  have u: "descs ?u = descs v" "idx ?u = 0" "lost ?u = lost w" "faults ?u = []"
    using v fv by (simp_all add: mkdirs_def)
  have nul: "0 \<notin> set (srv_dir w)" using ok(2) by (simp add: dirs_ready_def)
  have fsu: "fs ?u ?path = None" using mkdirs_frame(5) [of ?h v ?h] absent by (simp add: fv)
  have up: "fs ?u (parent_of ?path) = Some (Dir True)" using mkdirs_parent [OF dv, of ?h] by (simp add: fv)
  have "open_file ?h 0 w = open_slot ?path W_plus 0 ?u"
    using fsu by (simp add: open_file_def v(1) gp cstr_path [OF nul] Let_def)
  moreover have "fst (open_slot ?path W_plus 0 ?u) = 0 \<and>
      d_fd (descs (snd (open_slot ?path W_plus 0 ?u)) 0) = Some (new_stream ?path) \<and>
      lost (snd (open_slot ?path W_plus 0 ?u)) = f0 # lost w \<and>
      d_hash (descs (snd (open_slot ?path W_plus 0 ?u)) ?l) = 0"
    using fsu up u v(3) zero l0
    by (simp add: open_slot_def fopen_def Let_def set_fd_def zero_desc_def)
  ultimately obtain x where x: "open_file ?h 0 w = (0, x)" "d_fd (descs x 0) = Some (new_stream ?path)"
    "lost x = f0 # lost w" "d_hash (descs x ?l) = 0" by (metis prod.collapse)
  have "prepare_file key 0 w = (0, Some 0, enter_desc 0 ?h None 0 x)"
    using head x(1) by (simp add: prepare_file_no_links [OF nl] Let_def)
  then show ?thesis
    using x l0 by (simp add: enter_desc_def Let_def split_def table_frames)
qed

section \<open>A second key on a chain\<close>

text \<open>
  Opening a key whose chain is headed by another key replaces the head: the other key's slot stays
  open and is no longer found, and a client of that key sees what is on disk.
\<close>

lemma prepare_collision:
  assumes ok: "table_wf w" and head: "XXTABLE w (chain_id (key_hash key)) = Some i"
    and other: "d_hash (descs w i) \<noteq> key_hash key" and used: "slots_used w n" and room: "n < DESC_TABLE_SIZE"
  shows "\<exists>w'. prepare_file key 0 w = (0, Some n, w') \<and>
    XXTABLE w' (chain_id (key_hash key)) = Some n \<and> descs w' i = descs w i \<and>
    (\<forall>c. XXTABLE w' c \<noteq> Some i) \<and> db w' (d_hash (descs w i)) = disk w (d_hash (descs w i))"
proof -
  let ?h = "key_hash key"
  have nl: "no_links w" and ch: "chains_ok w" using ok by (simp_all add: table_wf_def)
  have i: "d_hash (descs w i) \<noteq> 0" "chain_id (d_hash (descs w i)) = chain_id ?h"
    using ch head by (auto simp: chains_ok_def)
  have "i \<noteq> n" using i(1) empty_slot(1) [OF ok used] by auto
  obtain v where v: "open_file ?h 0 w = (int n, v)"
    "opened w (enter_desc n ?h (Some i) 0 v) n ?h (opened_content 0 (disk w ?h)) (opened_size (disk w ?h))"
    using open_file_fresh [OF ok used room, of 0 ?h "Some i"] by auto
  let ?w = "enter_desc n ?h (Some i) 0 v"
  have p: "prepare_file key 0 w = (0, Some n, ?w)"
    using v(1) head other by (simp add: prepare_file_no_links [OF nl] Let_def)
  have o: "XXTABLE ?w = (XXTABLE w)(chain_id ?h := Some n)" "descs ?w j = descs w j" if "j \<noteq> n" for j
    using v(2) that by (auto simp: opened_def)
  have x: "XXTABLE ?w = (XXTABLE w)(chain_id ?h := Some n)" "srv_dir ?w = srv_dir w"
    "d_hash (descs ?w n) = ?h"
    "fs ?w = (fs (mkdirs ?h w))(path_of (srv_dir w) ?h \<mapsto> Reg True (opened_content 0 (disk w ?h)))"
    using v(2) by (auto simp: opened_def)
  have "disk ?w (d_hash (descs w i)) = disk w (d_hash (descs w i))"
    using other mkdirs_frame(5) [of ?h w "d_hash (descs w i)"] by (simp add: disk_def x path_of_inject)
  then have "db ?w (d_hash (descs w i)) = disk w (d_hash (descs w i))"
    using other by (simp add: db_def x i(2))
  moreover have "XXTABLE ?w c \<noteq> Some i" for c
    using ch i(2) \<open>i \<noteq> n\<close> by (auto simp: x chains_ok_def)
  ultimately show ?thesis using p o(2) [OF \<open>i \<noteq> n\<close>] x(1) by (intro exI [of _ ?w]) simp
qed

text \<open>What a write leaves on disk: the content before it.\<close>

lemma write_stays_in_stream:
  assumes "live w i" and "bs \<noteq> []" and "write_to i bs (int off) w = (r, w')"
  shows "disk w' (d_hash (descs w i)) = Some (view w i)"
proof -
  obtain f where f: "d_fd (descs w i) = Some f" using assms(1) by (auto elim: liveE)
  note l = live_fields [OF assms(1) f]
  have w': "w' = upd_desc i (\<lambda>d. d\<lparr>d_length := max (d_length d) (off + length bs)\<rparr>)
      (swap_stream i (f\<lparr>f_pend := Some (off, bs), f_pos := off + length bs\<rparr>) (view w i) w)"
    using write_to_live [OF assms(1) f, of "int off" bs] assms(2,3) by simp
  have p: "path_of (srv_dir w) (d_hash (descs w i)) = f_path f" using l(5) by simp
  show ?thesis
    using l(1) by (auto simp: disk_def w' swap_stream_def p is_file_def put_content_def)
qed

section \<open>Opening with truncation\<close>

text \<open>A destination that exists and is not open is emptied, but keeps its old length on record.\<close>

lemma prepare_truncate:
  assumes ok: "server_ok w" and can: "can_open w (key_hash key)"
    and closed: "XXTABLE w (chain_id (key_hash key)) = None" and c: "db w (key_hash key) = Some c"
  shows "\<exists>i w'. prepare_file key 2 w = (0, Some i, w') \<and> acquired w (key_hash key) [] (length c) w' i"
proof -
  have wf: "table_wf w" using ok by (simp add: server_ok_def)
  have d: "disk w (key_hash key) = Some c" using db_closed [OF closed] c by simp
  obtain n v' where "prepare_file key 2 w = (0, Some n, v')" "opens w v' n (key_hash key) [] (length c)"
    using prepare_file_closed [OF wf can closed, of 2] d by (auto simp: opened_content_def opened_size_def)
  then show ?thesis using acquired_opens [OF ok] by blast
qed

text \<open>On such a slot a read of a byte that the length still covers fails.\<close>

lemma getbit_stale:
  assumes "live w i" and "length (view w i) \<le> nat (gb_offset cmd) div 8"
    and "nat (gb_offset cmd) div 8 < lengths w i" and range: "0 \<le> gb_offset cmd" "gb_offset cmd < 2 ^ 63"
  shows "fst (getbitCommand cmd i w) = -1"
proof -
  note pos = position [OF range]
  obtain w' where "read_from i 1 (int (nat (gb_offset cmd) div 8)) w = (0, [], w')"
    using files.rdE [OF assms(1), of 1 "nat (gb_offset cmd) div 8"] assms(2) by auto
  then show ?thesis using assms(3) by (simp add: getbitCommand_def pos lengths_def Let_def)
qed

end
