(* ===== verification/BitopLimits.thy ===== *)
theory BitopLimits
  imports BitopServe TableLimits
begin

text \<open>
  BITOP where it fails: a result of \<open>2 ^ 31\<close> bytes, the most that SETBIT lets a file have, and a source
  that cannot be opened after others have been.
\<close>

section \<open>The result at the size limit\<close>

lemma result_line_nat [simp]: "result_line (int n) = dec_int (int n) @ [10]"
  by (simp add: result_line_def)

lemma result_line_small [simp]: "m < 2 ^ 31 \<Longrightarrow> result_line (to_int32 (int m)) = dec_int (int m) @ [10]"
  by (simp add: position_id)

lemma result_line_full: "result_line (to_int32 (2 ^ 31)) = str ''ERR:FILE ACCESS FAILED'' @ [10]"
  by (simp add: result_line_def to_int32_def)

section \<open>A file that cannot be opened\<close>

text \<open>Making room and trying to open a file leaves the count of every descriptor that is in use.\<close>

lemma open_slot_refs: "d_refs (descs (snd (open_slot p m sz w)) j) = d_refs (descs w j)"
  by (auto simp: open_slot_def set_fd_def split_def Let_def table_frames split: option.split)

lemma open_file_refs:
  assumes "no_links w" and "d_refs (descs w j) \<noteq> 0"
  shows "d_refs (descs (snd (open_file h m w)) j) = d_refs (descs w j)"
  using slot_spares_holders [OF assms]
  by (auto simp: open_file_def split_def Let_def table_frames open_slot_refs split: option.split fnode.split)

lemma failed_open_keeps_refs:
  assumes "prepare_file key m w = (-1, dt, w')" and "no_links w" and "d_refs (descs w j) \<noteq> 0"
  shows "d_refs (descs w' j) = d_refs (descs w j)"
proof -
  have "w' = snd (open_file (key_hash key) m w)"
    using assms(1) by (auto simp: prepare_file_def Let_def split_def split: walk.splits if_splits)
  then show ?thesis using open_file_refs [OF assms(2,3)] by simp
qed

text \<open>Splitting a line allocates, which may fail, but gives the words and leaves the table.\<close>

lemma descs_must_alloc [simp]: "descs (must_alloc v) = descs v"
  by (simp add: must_alloc_def split_def Let_def table_frames)

lemma fill_args_any:
  "fst (fill_args s len n pos v) = fst (fill_args s len n pos v')" "descs (snd (fill_args s len n pos v)) = descs v"
proof (induction n arbitrary: pos v v')
  case (Suc n)
  case 1
  show ?case using Suc(1) by (simp add: Let_def split_def)
next
  case (Suc n)
  case 2
  show ?case using Suc(2) by (simp add: Let_def split_def)
qed simp_all

lemma split_any:
  assumes "line_words line = name # args"
  shows "fst (split_fill line (length line) (Suc (length args)) v) = args"
    and "descs (snd (split_fill line (length line) (Suc (length args)) v)) = descs v"
proof -
  have "fst (split_fill line (length line) (Suc (length args)) v) =
      fst (split_fill line (length line) (Suc (length args)) (v\<lparr>faults := []\<rparr>))"
    unfolding split_fill_def Let_def by (rule fill_args_any(1))
  then show "fst (split_fill line (length line) (Suc (length args)) v) = args"
    using split_line [of "v\<lparr>faults := []\<rparr>" line name args] assms by simp
  show "descs (snd (split_fill line (length line) (Suc (length args)) v)) = descs v"
    by (simp add: split_fill_def Let_def fill_args_any(2))
qed

text \<open>
  The state in which the sources are opened: the line has been split, and the destination is open when
  there is one.
\<close>

definition bitop_prepared :: "byte list \<Rightarrow> nat \<Rightarrow> byte list \<Rightarrow> OP_HOOKS \<Rightarrow> world \<Rightarrow> nat option \<Rightarrow> world \<Rightarrow> bool" where
  "bitop_prepared line c dest hook v d v1 \<longleftrightarrow>
     (let v0 = snd (split_fill line (length line) c v)
      in if hook = NONE then length (cstr dest) \<le> 64 \<and> prepare_file (cstr dest) 2 v0 = (0, d, v1)
         else d = None \<and> v1 = v0)"

text \<open>The handler when a source fails: only the destination is released.\<close>

lemma prepare_files_fails:
  assumes "prepare_files later v = (0, dts, v1)" and "prepare_file bad 1 v1 = (-1, dt, v2)"
  shows "prepare_files (earlier @ bad # later) v = (-1, [], v2)"
  using assms by (induction earlier) simp_all

lemma sources_fail:
  assumes line: "10 \<le> length line" "take 5 line = str ''BITOP''"
    and args: "line_words line = name # opt # dest # srcs" "srcs \<noteq> []" "length srcs \<le> 16"
    and opt: "parse_option opt = Some op" "op = OP_NOT \<Longrightarrow> length srcs = 1" and hook: "parse_hook dest = Some hook"
    and p: "bitop_prepared line (length (line_words line)) dest hook v d v1" "prepare_files srcs v1 = (-1, [], v3)"
  defines "r \<equiv> parse_and_execute (new_work line) v"
  shows "w_resp (fst r) = str ''ERR:FILESYSTEM FAILED'' @ [10]" and "snd r = release_desc d v3"
proof -
  let ?c = "Suc (Suc (Suc (length srcs)))" and ?args = "opt # dest # srcs"
  let ?err = "reply_lit ''ERR:FILESYSTEM FAILED'' 22"
  let ?w = "if hook = NONE then set_desc 0 d (new_work line) else new_work line"
  obtain v0 where s: "split_fill line (length line) ?c v = (?args, v0)"
    using split_any(1) [OF args(1), of v] by (metis length_Cons surjective_pairing)
  have nt: "\<not> (op = OP_NOT \<and> ?c \<noteq> 4)" using opt(2) by auto
  have src: "exec_bitop_sources ?c ?args \<lparr>bo_key = key, bo_count = length srcs, bo_hook = hook, bo_option = op\<rparr> w v1 =
      release_all_descs (?err (w, v3))" for key w
    using p(2) by (simp add: exec_bitop_sources_def)
  have prep: "if hook = NONE then length (cstr dest) \<le> 64 \<and> prepare_file (cstr dest) 2 v0 = (0, d, v1)
      else d = None \<and> v1 = v0" using p(1) args(1) s by (simp add: bitop_prepared_def)
  have x: "r = release_all_descs (?err (?w, v3))"
  proof -
    have "r = exec_bitop ?c (new_work line) v"
      unfolding r_def by (rule dispatch_count [OF line handler_names(3)]) (simp add: args)
    also have "\<dots> = release_all_descs (?err (?w, v3))"
      using prep src nt args(2,3)
      by (cases "hook = NONE") (auto simp: exec_bitop_def s opt(1) hook copy_key_def)
    finally show ?thesis .
  qed
  have w: "w_resp ?w = []" "w_cap ?w = RESP_INIT_CAP" by (simp_all add: new_work_def set_desc_def)
  have err: "?err (?w, v3) = (append_resp (str ''ERR:FILESYSTEM FAILED'' @ [10]) 22 ?w, v3)"
    using w by (simp add: reply_lit_def reply_def RESP_INIT_CAP_def)
  have none: "(release_desc None ^^ n) u = u" for n u
    by (induction n) (simp_all add: release_desc_def)
  have "fold release_desc (w_desc ?w) v3 = release_desc d v3"
    using prep by (cases "hook = NONE") (simp_all add: desc_array(1) none release_desc_def [of None])
  moreover have "take 22 (str ''ERR:FILESYSTEM FAILED'' @ [10]) = str ''ERR:FILESYSTEM FAILED'' @ [10]"
    by (simp add: str_def)
  ultimately show "w_resp (fst r) = str ''ERR:FILESYSTEM FAILED'' @ [10]" "snd r = release_desc d v3"
    unfolding x err using w(1) by (simp_all add: release_all_descs_def append_resp_def)
qed

lemma source_fails:
  assumes "10 \<le> length line" and "take 5 line = str ''BITOP''"
    and "line_words line = name # opt # dest # earlier @ bad # later" and "length (earlier @ bad # later) \<le> 16"
    and "parse_option opt = Some op" and not: "op = OP_NOT \<Longrightarrow> earlier @ later = []" and "parse_hook dest = Some hook"
    and "bitop_prepared line (length (line_words line)) dest hook v d v1"
    and "prepare_files later v1 = (0, dts, v2)" and "prepare_file bad 1 v2 = (-1, dt, v3)"
  shows "w_resp (fst (parse_and_execute (new_work line) v)) = str ''ERR:FILESYSTEM FAILED'' @ [10]"
    and "snd (parse_and_execute (new_work line) v) = release_desc d v3"
proof -
  have "earlier @ bad # later \<noteq> []" "op = OP_NOT \<Longrightarrow> length (earlier @ bad # later) = 1" using not by auto
  note r = sources_fail [OF assms(1-3) this(1) assms(4,5) this(2) assms(7,8) prepare_files_fails [OF assms(9,10)]]
  show "w_resp (fst (parse_and_execute (new_work line) v)) = str ''ERR:FILESYSTEM FAILED'' @ [10]"
    "snd (parse_and_execute (new_work line) v) = release_desc d v3" using r by blast+
qed

text \<open>So the counts of the descriptors in use are what they were when the source failed.\<close>

lemma prepared_links:
  assumes "no_links v" and "bitop_prepared line (length (line_words line)) dest hook v d v1"
    and "line_words line = name # args"
  shows "no_links v1"
proof -
  let ?v0 = "snd (split_fill line (length line) (length (line_words line)) v)"
  have "no_links ?v0" using assms(1,3) by (simp add: no_links_def split_any(2))
  then have "no_links (snd (snd (prepare_file (cstr dest) 2 ?v0)))"
    using links_kept_prepare_file [of ?v0 "cstr dest" 2] by (simp add: links_kept_def)
  then show ?thesis using \<open>no_links ?v0\<close> assms(2) by (auto simp: bitop_prepared_def Let_def split: if_splits)
qed

lemma failed_source_refs:
  assumes "no_links v" and "line_words line = name # args"
    and "bitop_prepared line (length (line_words line)) dest hook v d v1"
    and "prepare_files later v1 = (0, dts, v2)" and "prepare_file bad 1 v2 = (-1, dt, v3)"
    and "d_refs (descs v2 i) \<noteq> 0"
  shows "d_refs (descs (release_desc d v3) i) = d_refs (descs v2 i) - of_bool (d = Some i)"
proof -
  have "no_links v2"
    using links_kept_prepare_files [of v1 later] prepared_links [OF assms(1,3,2)] assms(4)
    by (simp add: links_kept_def)
  then have "d_refs (descs v3 i) = d_refs (descs v2 i)" by (rule failed_open_keeps_refs [OF assms(5) _ assms(6)])
  then show ?thesis by (cases d) (auto simp: release_desc_def upd_desc_def)
qed

end
