(* ===== verification/Interleave.thy ===== *)
theory Interleave
  imports BitOps
begin

unbundle bit_operations_syntax

text \<open>
  SETBIT commands of several connections on one open file. The work threads share the descriptor,
  whose lock covers one \<open>read_from\<close> or \<open>write_to\<close> at a time, so the commands interleave between
  reading the byte and writing it back. On different bytes every order gives every bit its value; on
  the same byte a bit can be lost.
\<close>

section \<open>The two halves of the command\<close>

definition setbit_read :: "setbit_cmd \<Rightarrow> nat \<Rightarrow> world \<Rightarrow> (int + byte \<times> byte) \<times> world" where
  "setbit_read cmd dt w =
     (let offset = to_size (sb_offset cmd div 8);
          bit = 7 - nat (sb_offset cmd mod 8)
      in if offset < d_length (descs w dt)
         then (let (r, dst, w) = read_from dt 1 (to_off offset) w
               in (if r = 0 then Inl (-1) else Inr (hd dst, hd dst AND push_bit bit 1), w))
         else (if sb_value cmd = 0 then Inl 0 else Inr (0, 0), w))"

definition setbit_write :: "setbit_cmd \<Rightarrow> nat \<Rightarrow> byte \<times> byte \<Rightarrow> world \<Rightarrow> int \<times> world" where
  "setbit_write cmd dt = (\<lambda>(byteval, bitval) w.
     (let offset = to_size (sb_offset cmd div 8);
          bit = 7 - nat (sb_offset cmd mod 8);
          byteval = byteval AND NOT (push_bit bit 1);
          byteval = byteval OR push_bit bit (of_int (sb_value cmd AND 1));
          (r, w) = write_to dt [byteval] (to_off offset) w
      in if r = 0 then (-1, w) else (if bitval \<noteq> 0 then 1 else 0, w)))"

text \<open>One after the other they are the command.\<close>

lemma setbitCommand_halves:
  "setbitCommand cmd dt w =
    (case setbit_read cmd dt w of (Inl r, w) \<Rightarrow> (r, w) | (Inr p, w) \<Rightarrow> setbit_write cmd dt p w)"
proof (cases "to_size (sb_offset cmd div 8) < d_length (descs w dt)")
  case True
  obtain r dst v where rd: "read_from dt 1 (to_off (to_size (sb_offset cmd div 8))) w = (r, dst, v)"
    by (metis prod_cases3)
  show ?thesis
    unfolding setbitCommand_def setbit_read_def Let_def rd if_P [OF True]
    by (cases "r = 0") (simp_all add: setbit_write_def Let_def)
next
  case False
  show ?thesis
    unfolding setbitCommand_def setbit_read_def Let_def if_not_P [OF False]
    by (cases "sb_value cmd = 0") (simp_all add: setbit_write_def Let_def)
qed

text \<open>A command within the file, at bit \<open>position_in\<close>.\<close>

definition position_in :: "setbit_cmd \<Rightarrow> nat" where
  "position_in cmd = nat (sb_offset cmd)"

definition within :: "setbit_cmd \<Rightarrow> byte list \<Rightarrow> bool" where
  "within cmd c \<longleftrightarrow>
     0 \<le> sb_offset cmd \<and> sb_offset cmd < 2 ^ 63 \<and> sb_value cmd \<in> {0, 1} \<and> position_in cmd div 8 < length c"

definition new_bit :: "setbit_cmd \<Rightarrow> byte \<Rightarrow> byte" where
  "new_bit cmd b = put_bit b (7 - position_in cmd mod 8) (sb_value cmd = 1)"

lemma setbit_read_live:
  assumes "live w i" and "lengths w i = length (view w i)" and "within cmd (view w i)"
  defines "b \<equiv> byte_at (view w i) (position_in cmd div 8)"
  shows "\<exists>w'. setbit_read cmd i w = (Inr (b, b AND push_bit (7 - position_in cmd mod 8) 1), w') \<and>
    view w' = view w \<and> lengths w' = lengths w \<and> table_frame w w'"
proof -
  have rg: "0 \<le> sb_offset cmd" "sb_offset cmd < 2 ^ 63" and k: "position_in cmd div 8 < length (view w i)"
    using assms(3) by (simp_all add: within_def)
  note pos = position [OF rg, folded position_in_def]
  obtain w' where "read_from i 1 (int (position_in cmd div 8)) w = (1, [b], w')"
    "view w' = view w" "lengths w' = lengths w" "table_frame w w'"
    using files.rdE [OF assms(1), of 1 "position_in cmd div 8"] one_byte [OF k] unfolding b_def
    by (metis length_Cons list.size(3) One_nat_def)
  then show ?thesis using k assms(2) by (simp add: setbit_read_def pos lengths_def Let_def)
qed

lemma setbit_write_live:
  assumes "live w i" and "within cmd c" and "length (view w i) = length c" and "lengths w i = length c"
  shows "\<exists>w'. setbit_write cmd i (b, bv) w = (if bv \<noteq> 0 then 1 else 0, w') \<and>
    view w' = (view w)(i := write_at (view w i) (position_in cmd div 8) [new_bit cmd b]) \<and>
    lengths w' = lengths w \<and> table_frame w w'"
proof -
  have rg: "0 \<le> sb_offset cmd" "sb_offset cmd < 2 ^ 63" and k: "position_in cmd div 8 < length c"
    and v: "sb_value cmd = 0 \<or> sb_value cmd = 1"
    using assms(2) by (auto simp: within_def)
  note pos = position [OF rg, folded position_in_def] and nb = new_byte [OF v]
  obtain w' where "write_to i [new_bit cmd b] (int (position_in cmd div 8)) w = (1, w')"
    "view w' = (view w)(i := write_at (view w i) (position_in cmd div 8) [new_bit cmd b])"
    "lengths w' = (lengths w)(i := max (lengths w i) (position_in cmd div 8 + 1))" "table_frame w w'"
    using files.wrE [OF assms(1), of "[new_bit cmd b]" "position_in cmd div 8"] by auto
  moreover have "max (length c) (position_in cmd div 8 + 1) = length c" using k by simp
  ultimately show ?thesis using assms(4)
    by (auto simp: setbit_write_def pos nb new_bit_def Let_def fun_upd_idem)
qed

section \<open>Threads\<close>

datatype thread = Ready | Pending byte byte | Finished int

text \<open>Thread \<open>t\<close> runs command \<open>cmds t\<close> on the descriptor \<open>dt\<close>; a step is one of its halves.\<close>

inductive thread_step ::
    "('t \<Rightarrow> setbit_cmd) \<Rightarrow> nat \<Rightarrow> ('t \<Rightarrow> thread) \<times> world \<Rightarrow> ('t \<Rightarrow> thread) \<times> world \<Rightarrow> bool"
  for cmds dt where
  reads: "s t = Ready \<Longrightarrow> setbit_read (cmds t) dt w = (Inr (b, bv), w') \<Longrightarrow>
    thread_step cmds dt (s, w) (s(t := Pending b bv), w')"
| returns: "s t = Ready \<Longrightarrow> setbit_read (cmds t) dt w = (Inl r, w') \<Longrightarrow>
    thread_step cmds dt (s, w) (s(t := Finished r), w')"
| writes: "s t = Pending b bv \<Longrightarrow> setbit_write (cmds t) dt (b, bv) w = (r, w') \<Longrightarrow>
    thread_step cmds dt (s, w) (s(t := Finished r), w')"

inductive runs :: "('t \<Rightarrow> setbit_cmd) \<Rightarrow> nat \<Rightarrow> world \<Rightarrow> ('t \<Rightarrow> thread) \<Rightarrow> world \<Rightarrow> bool" for cmds dt w where
  initial: "runs cmds dt w (\<lambda>_. Ready) w"
| next_step: "runs cmds dt w s v \<Longrightarrow> thread_step cmds dt (s, v) (s', v') \<Longrightarrow> runs cmds dt w s' v'"

section \<open>Different bytes\<close>

text \<open>
  Every finished command has put its bit, every byte that no finished command writes is as it was,
  and a pending one holds the byte it is going to replace.
\<close>

definition thread_ok :: "setbit_cmd \<Rightarrow> byte list \<Rightarrow> byte list \<Rightarrow> thread \<Rightarrow> bool" where
  "thread_ok cmd c now th \<longleftrightarrow>
     (let k = position_in cmd div 8; b = byte_at c k in
        case th of
          Ready \<Rightarrow> byte_at now k = b
        | Pending b' bv \<Rightarrow> byte_at now k = b \<and> b' = b \<and> bv = b AND push_bit (7 - position_in cmd mod 8) 1
        | Finished r \<Rightarrow> byte_at now k = new_bit cmd b \<and> r = of_bool (get_bit c (position_in cmd)))"

lemma thread_ok_simps:
  "thread_ok cmd c now Ready \<longleftrightarrow> byte_at now (position_in cmd div 8) = byte_at c (position_in cmd div 8)"
  "thread_ok cmd c now (Pending b bv) \<longleftrightarrow>
     byte_at now (position_in cmd div 8) = byte_at c (position_in cmd div 8) \<and>
     b = byte_at c (position_in cmd div 8) \<and> bv = b AND push_bit (7 - position_in cmd mod 8) 1"
  "thread_ok cmd c now (Finished r) \<longleftrightarrow>
     byte_at now (position_in cmd div 8) = new_bit cmd (byte_at c (position_in cmd div 8)) \<and>
     r = of_bool (get_bit c (position_in cmd))"
  by (auto simp: thread_ok_def Let_def)

lemma thread_ok_cong:
  "byte_at now' (position_in cmd div 8) = byte_at now (position_in cmd div 8) \<Longrightarrow>
   thread_ok cmd c now' th = thread_ok cmd c now th"
  by (cases th) (simp_all add: thread_ok_simps)

definition no_interference ::
    "('t \<Rightarrow> setbit_cmd) \<Rightarrow> nat \<Rightarrow> byte list \<Rightarrow> ('t \<Rightarrow> thread) \<Rightarrow> world \<Rightarrow> bool" where
  "no_interference cmds dt c s w \<longleftrightarrow>
     live w dt \<and> lengths w dt = length c \<and> length (view w dt) = length c \<and>
     (\<forall>t. thread_ok (cmds t) c (view w dt) (s t)) \<and>
     (\<forall>k. (\<forall>t. position_in (cmds t) div 8 \<noteq> k) \<longrightarrow> byte_at (view w dt) k = byte_at c k)"

lemma step_no_interference:
  assumes inv: "no_interference cmds dt c s w" and st: "thread_step cmds dt (s, w) (s', w')"
    and cmds: "\<And>t. within (cmds t) c" and bytes: "inj (\<lambda>t. position_in (cmds t) div 8)"
  shows "no_interference cmds dt c s' w'"
proof -
  have live: "live w dt" and len: "lengths w dt = length c" "length (view w dt) = length c"
    and th: "\<And>t. thread_ok (cmds t) c (view w dt) (s t)"
    and rest: "\<And>k. (\<forall>t. position_in (cmds t) div 8 \<noteq> k) \<Longrightarrow> byte_at (view w dt) k = byte_at c k"
    using inv by (simp_all add: no_interference_def)
  have wi: "within (cmds t) (view w dt)" for t using cmds [of t] len(2) by (simp add: within_def)
  have rd: "\<exists>w'. setbit_read (cmds t) dt w = (Inr (byte_at (view w dt) (position_in (cmds t) div 8),
      byte_at (view w dt) (position_in (cmds t) div 8) AND push_bit (7 - position_in (cmds t) mod 8) 1), w') \<and>
      view w' = view w \<and> lengths w' = lengths w \<and> table_frame w w'" for t
    using setbit_read_live [OF live _ wi] len by simp
  from st show ?thesis
  proof (cases rule: thread_step.cases)
    case (reads t b bv)
    then have "view w' = view w" "lengths w' = lengths w" "live w' dt"
      "b = byte_at (view w dt) (position_in (cmds t) div 8)" "bv = b AND push_bit (7 - position_in (cmds t) mod 8) 1"
      using rd [of t] live by (auto simp: table_frame_def)
    then show ?thesis using th len rest th [of t] reads(1,2)
      by (auto simp: no_interference_def thread_ok_simps)
  next
    case (returns t r)
    then show ?thesis using rd [of t] by auto
  next
    case (writes t b bv r)
    have tt: "b = byte_at c (position_in (cmds t) div 8)" "bv = b AND push_bit (7 - position_in (cmds t) mod 8) 1"
      using th [of t] writes(2) by (simp_all add: thread_ok_simps)
    have w': "view w' = (view w)(dt := write_at (view w dt) (position_in (cmds t) div 8) [new_bit (cmds t) b])"
      "lengths w' = lengths w" "live w' dt" "r = (if bv \<noteq> 0 then 1 else 0)"
      using setbit_write_live [OF live cmds len(2,1), of t b bv] writes(3) live by (auto simp: table_frame_def)
    have r: "r = of_bool (get_bit c (position_in (cmds t)))"
      using and_bit_iff [of "7 - position_in (cmds t) mod 8" b] by (simp add: w'(4) tt get_bit_def)
    have k: "position_in (cmds t) div 8 < length c" using cmds [of t] by (simp add: within_def)
    have at: "byte_at (view w' dt) j = (if j = position_in (cmds t) div 8 then new_bit (cmds t) b else byte_at (view w dt) j)" for j
      by (simp add: w'(1) byte_at_write_at)
    have "thread_ok (cmds u) c (view w' dt) (s' u)" for u
    proof (cases "u = t")
      case True
      then show ?thesis using writes(1) r tt(1) by (simp add: thread_ok_simps at)
    next
      case False
      then have "position_in (cmds u) div 8 \<noteq> position_in (cmds t) div 8" using bytes by (auto simp: inj_on_def)
      then have "thread_ok (cmds u) c (view w' dt) (s u) = thread_ok (cmds u) c (view w dt) (s u)"
        by (intro thread_ok_cong) (simp add: at)
      then show ?thesis using th [of u] writes(1) False by simp
    qed
    moreover have "length (view w' dt) = length c" using k len by (simp add: w'(1))
    moreover have "byte_at (view w' dt) k = byte_at c k" if "\<forall>t. position_in (cmds t) div 8 \<noteq> k" for k
      using that rest [OF that] by (auto simp: at)
    ultimately show ?thesis using w' len by (simp add: no_interference_def)
  qed
qed

lemma runs_no_interference:
  assumes "runs cmds dt w s v" and "live w dt" and "lengths w dt = length (view w dt)"
    and "\<And>t. within (cmds t) (view w dt)" and "inj (\<lambda>t. position_in (cmds t) div 8)"
  shows "no_interference cmds dt (view w dt) s v"
  using assms(1)
proof (induction rule: runs.induct)
  case initial
  then show ?case using assms(2,3) by (simp add: no_interference_def thread_ok_simps)
next
  case (next_step s v s' v')
  then show ?case using step_no_interference assms(4,5) by blast
qed

text \<open>When all have finished, every bit has the value of its command, whatever the order was.\<close>

lemma all_finished:
  assumes inv: "no_interference cmds dt c s v" and fin: "\<And>t. \<exists>r. s t = Finished r"
    and bytes: "inj (\<lambda>t. position_in (cmds t) div 8)"
  shows "s t = Finished (of_bool (get_bit c (position_in (cmds t))))"
    and "get_bit (view v dt) (position_in (cmds t)) = (sb_value (cmds t) = 1)"
    and "(\<And>t. position_in (cmds t) \<noteq> j) \<Longrightarrow> get_bit (view v dt) j = get_bit c j"
proof -
  have fin_byte: "byte_at (view v dt) (position_in (cmds t) div 8) =
      new_bit (cmds t) (byte_at c (position_in (cmds t) div 8)) \<and>
      s t = Finished (of_bool (get_bit c (position_in (cmds t))))" for t
    using fin [of t] inv by (auto simp: no_interference_def thread_ok_simps dest: spec [of _ t])
  then show "s t = Finished (of_bool (get_bit c (position_in (cmds t))))" by blast
  have bit: "get_bit (view v dt) j = (if j = position_in (cmds t) then sb_value (cmds t) = 1 else get_bit c j)"
    if "j div 8 = position_in (cmds t) div 8" for j t
  proof -
    have "7 - j mod 8 < 8" "7 - position_in (cmds t) mod 8 < 8" by simp_all
    then show ?thesis using fin_byte [of t] same_bit_iff [OF that] that
      by (simp add: get_bit_def new_bit_def bit_put_bit)
  qed
  show "get_bit (view v dt) (position_in (cmds t)) = (sb_value (cmds t) = 1)" by (simp add: bit)
  show "get_bit (view v dt) j = get_bit c j" if "\<And>t. position_in (cmds t) \<noteq> j"
  proof (cases "\<exists>t. position_in (cmds t) div 8 = j div 8")
    case True
    then show ?thesis using bit [of j] that by metis
  next
    case False
    then show ?thesis using inv by (simp add: no_interference_def get_bit_def)
  qed
qed

text \<open>One command alone runs to its end.\<close>

lemma single_run:
  assumes "live w i" and "lengths w i = length (view w i)" and "within cmd (view w i)"
  shows "\<exists>v. runs (\<lambda>_ :: unit. cmd) i w (\<lambda>_. Finished (of_bool (get_bit (view w i) (position_in cmd)))) v"
proof -
  let ?b = "byte_at (view w i) (position_in cmd div 8)"
  let ?bv = "?b AND push_bit (7 - position_in cmd mod 8) 1"
  obtain v1 where v1: "setbit_read cmd i w = (Inr (?b, ?bv), v1)" "view v1 = view w" "lengths v1 = lengths w"
    "table_frame w v1"
    using setbit_read_live [OF assms] by blast
  have l1: "live v1 i" "length (view v1 i) = length (view w i)" "lengths v1 i = length (view w i)"
    using v1 assms by (simp_all add: table_frame_def)
  obtain v2 where v2: "setbit_write cmd i (?b, ?bv) v1 = (if ?bv \<noteq> 0 then 1 else 0, v2)"
    using setbit_write_live [OF l1(1) assms(3) l1(2,3)] by blast
  have r: "(if ?bv \<noteq> 0 then 1 else 0) = (of_bool (get_bit (view w i) (position_in cmd)) :: int)"
    using and_bit_iff [of "7 - position_in cmd mod 8" ?b] by (simp add: get_bit_def)
  have "runs (\<lambda>_ :: unit. cmd) i w ((\<lambda>_. Ready)(() := Pending ?b ?bv)) v1"
    by (rule runs.next_step [OF runs.initial])
      (rule thread_step.reads [where t = "()" and cmds = "\<lambda>_. cmd", OF _ v1(1)], simp)
  then have "runs (\<lambda>_ :: unit. cmd) i w ((\<lambda>_. Ready)(() := Pending ?b ?bv, () := Finished (if ?bv \<noteq> 0 then 1 else 0))) v2"
    by (rule runs.next_step)
      (rule thread_step.writes [where t = "()" and cmds = "\<lambda>_. cmd", OF _ v2], simp)
  moreover have "(\<lambda>_. Ready)(() := Pending ?b ?bv, () := Finished (if ?bv \<noteq> 0 then 1 else 0)) =
      (\<lambda>_. Finished (of_bool (get_bit (view w i) (position_in cmd))))"
    unfolding r by (simp add: fun_eq_iff)
  ultimately show ?thesis by auto
qed

section \<open>The same byte\<close>

text \<open>
  Two commands set different bits of one byte that holds neither: if both read before either writes,
  the first write is undone by the second. Both clients are told that the old bit was 0.
\<close>

definition both_set :: "nat \<Rightarrow> nat \<Rightarrow> bool \<Rightarrow> setbit_cmd" where
  "both_set p q t = \<lparr>sb_key = [], sb_offset = int (if t then p else q), sb_value = 1\<rparr>"

lemma lost_update:
  assumes live: "live w i" "lengths w i = length (view w i)"
    and bits: "p div 8 = q div 8" "p \<noteq> q" "p div 8 < length (view w i)" "length (view w i) < 2 ^ 60"
    and zero: "\<not> get_bit (view w i) p" "\<not> get_bit (view w i) q"
  shows "\<exists>v. runs (both_set p q) i w (\<lambda>_. Finished 0) v \<and>
    \<not> get_bit (view v i) p \<and> get_bit (view v i) q"
proof -
  let ?c = "view w i" and ?k = "p div 8"
  let ?b = "byte_at ?c ?k"
  have pos: "position_in (both_set p q t) = (if t then p else q)" for t by (simp add: both_set_def position_in_def)
  have "p < 8 * 2 ^ 60" "q < 8 * 2 ^ 60" using bits by linarith+
  then have win: "within (both_set p q t) c" if "length c = length ?c" for t c
    using that bits by (auto simp: within_def pos) (simp_all add: both_set_def)
  have bv: "?b AND push_bit (7 - p mod 8) 1 = 0" "?b AND push_bit (7 - q mod 8) 1 = 0"
    using zero bits(1) and_bit_iff [of "7 - p mod 8" ?b] and_bit_iff [of "7 - q mod 8" ?b] by (auto simp: get_bit_def)
  obtain v1 where v1: "setbit_read (both_set p q True) i w = (Inr (?b, 0), v1)" "view v1 = view w"
    "lengths v1 = lengths w" "table_frame w v1"
    using setbit_read_live [OF live win [OF refl], of True] bv(1) by (auto simp: pos)
  have l1: "live v1 i" "lengths v1 i = length (view v1 i)" using v1 live by (simp_all add: table_frame_def)
  obtain v2 where v2: "setbit_read (both_set p q False) i v1 = (Inr (?b, 0), v2)" "view v2 = view w"
    "lengths v2 = lengths w" "table_frame v1 v2"
    using setbit_read_live [OF l1 win, of False] bv(2) bits(1) v1(2,3) by (auto simp: pos)
  have l2: "live v2 i" "length (view v2 i) = length ?c" "lengths v2 i = length ?c"
    using v2 l1 live by (simp_all add: table_frame_def)
  obtain v3 where v3: "setbit_write (both_set p q True) i (?b, 0) v2 = (0, v3)"
    "view v3 = (view w)(i := write_at ?c ?k [new_bit (both_set p q True) ?b])" "lengths v3 = lengths w"
    "table_frame v2 v3"
    using setbit_write_live [OF l2(1) win [OF refl] l2(2,3), of True ?b 0] v2 by (auto simp: pos)
  have l3: "live v3 i" "length (view v3 i) = length ?c" "lengths v3 i = length ?c"
    using v3 l2 live bits(3) by (simp_all add: table_frame_def)
  obtain v4 where v4: "setbit_write (both_set p q False) i (?b, 0) v3 = (0, v4)"
    "view v4 = (view v3)(i := write_at (view v3 i) ?k [new_bit (both_set p q False) ?b])"
    using setbit_write_live [OF l3(1) win [OF refl] l3(2,3), of False ?b 0] bits(1) by (auto simp: pos)
  have "runs (both_set p q) i w ((\<lambda>_. Ready)(True := Pending ?b 0)) v1"
    by (rule runs.next_step [OF runs.initial]) (rule thread_step.reads [where t = True and cmds = "both_set p q", OF _ v1(1)], simp)
  then have "runs (both_set p q) i w ((\<lambda>_. Ready)(True := Pending ?b 0, False := Pending ?b 0)) v2"
    by (rule runs.next_step) (rule thread_step.reads [where t = False and cmds = "both_set p q", OF _ v2(1)], simp)
  then have "runs (both_set p q) i w
      ((\<lambda>_. Ready)(True := Pending ?b 0, False := Pending ?b 0, True := Finished 0)) v3"
    by (rule runs.next_step) (rule thread_step.writes [where t = True and cmds = "both_set p q", OF _ v3(1)], simp)
  then have "runs (both_set p q) i w
      ((\<lambda>_. Ready)(True := Pending ?b 0, False := Pending ?b 0, True := Finished 0, False := Finished 0)) v4"
    by (rule runs.next_step) (rule thread_step.writes [where t = False and cmds = "both_set p q", OF _ v4(1)], simp)
  moreover have "(\<lambda>_. Ready)(True := Pending ?b 0, False := Pending ?b 0, True := Finished 0, False := Finished 0)
      = (\<lambda>_. Finished 0)" by (auto simp: fun_eq_iff)
  moreover have "byte_at (view v4 i) ?k = new_bit (both_set p q False) ?b"
    by (simp add: v4(2) byte_at_write_at)
  then have "get_bit (view v4 i) j = (if j = q then True else get_bit ?c j)" if "j div 8 = q div 8" for j
  proof -
    have "7 - j mod 8 < 8" "7 - q mod 8 < 8" by simp_all
    then show ?thesis
      using \<open>byte_at (view v4 i) ?k = _\<close> same_bit_iff [OF that] that bits(1)
      by (simp add: get_bit_def new_bit_def pos bit_put_bit) (simp add: both_set_def)
  qed
  ultimately show ?thesis using bits(1,2) zero by auto
qed

end
