(* ===== verification/Workers.thy ===== *)
theory Workers
  imports BitopLimits Interleave
begin

text \<open>
  The threads of the work pool, each with a command of its own: SETBIT, GETBIT, BITCOUNT or BITOP. A
  turn of a thread has at most one lock operation: it acquires the descriptor of a key (under the table
  lock), reads or writes a run of bytes (under the lock of the descriptor), or releases a descriptor
  (under the table lock). A schedule says whose turn it is, and the table is shared. Lengths are read
  without a lock: SETBIT and GETBIT read them in the turn of their first access to the file, BITCOUNT and
  BITOP in a turn of its own.
\<close>

section \<open>Threads and their stages\<close>

text \<open>
  A request is what the handler of a line has parsed. \<open>Count_request\<close> has the first position and, when
  the line gave it, the last; \<open>Op_request\<close> has the keys of the sources beside the command.
\<close>

datatype request =
    Set_request setbit_cmd
  | Get_request getbit_cmd
  | Count_request "byte list" int "int option"
  | Op_request bitop_cmd "byte list list"

text \<open>
  \<open>Middle\<close>: SETBIT has read its byte. \<open>Counting i remaining o bits\<close>: BITCOUNT in its loop.
  \<open>Sources d dts keys\<close>: BITOP has its destination \<open>d\<close> and the sources \<open>dts\<close>, and has to open \<open>keys\<close>, the last
  first. \<open>Block d dts m ss offset bits bufs\<close>: it reads a block; \<open>m\<close> is the longest source, \<open>ss\<close> what is left to
  read of the sources and \<open>bufs\<close> the buffers that are filled. \<open>Storing\<close>: it has to write a block before it
  goes on at \<open>next\<close>. \<open>Leaving ds r\<close>: the descriptors \<open>ds\<close> are to be released.
\<close>

datatype stage =
    Queued
  | Holds nat
  | Middle nat byte byte
  | Counting nat nat nat u64
  | Sources "nat option" "nat option list" "byte list list"
  | Block "nat option" "nat option list" nat "nat source list" int u64 "byte list list"
  | Storing "nat option" "nat option list" nat "nat source list" int int u64 "byte list"
  | Leaving "nat list" int
  | Answered int

text \<open>The first key of a request, and the hashes of all its keys.\<close>

primrec request_key :: "request \<Rightarrow> byte list" where
  "request_key (Set_request cmd) = sb_key cmd"
| "request_key (Get_request cmd) = gb_key cmd"
| "request_key (Count_request key s e) = key"
| "request_key (Op_request cmd srcs) = bo_key cmd"

definition request_hash :: "request \<Rightarrow> u64" where
  "request_hash rq = key_hash (request_key rq)"

primrec request_hashes :: "request \<Rightarrow> u64 set" where
  "request_hashes (Set_request cmd) = {key_hash (sb_key cmd)}"
| "request_hashes (Get_request cmd) = {key_hash (gb_key cmd)}"
| "request_hashes (Count_request key s e) = {key_hash key}"
| "request_hashes (Op_request cmd srcs) =
     (if bo_hook cmd = NONE then {key_hash (bo_key cmd)} else {}) \<union> key_hash ` set srcs"

section \<open>Turns\<close>

text \<open>
  What is left of the handlers once the line is parsed. The answers \<open>-2\<close> and \<open>-1\<close> stand for the error
  replies \<open>FILESYSTEM FAILED\<close> and \<open>FILE ACCESS FAILED\<close>. At the end \<open>release_all_descs\<close> gives the
  descriptors back one by one.
\<close>

primrec somes :: "'a option list \<Rightarrow> 'a list" where
  "somes [] = []"
| "somes (x # xs) = (case x of None \<Rightarrow> somes xs | Some a \<Rightarrow> a # somes xs)"

definition depart :: "nat list \<Rightarrow> int \<Rightarrow> stage" where
  "depart ds r = (if ds = [] then Answered r else Leaving ds r)"

definition leave :: "nat list \<Rightarrow> int \<Rightarrow> world \<Rightarrow> stage \<times> world" where
  "leave ds r w = (depart (tl ds) r, if ds = [] then w else release_desc (Some (hd ds)) w)"

lemma leave_one [simp]: "leave [i] r w = (Answered r, release_desc (Some i) w)"
  by (simp add: leave_def depart_def)

fun setbit_turn :: "setbit_cmd \<Rightarrow> stage \<Rightarrow> world \<Rightarrow> stage \<times> world" where
  "setbit_turn cmd Queued w =
     (let (r, dt, w) = prepare_file (sb_key cmd) 0 w
      in (if r \<noteq> 0 then Answered (-2) else Holds (the dt), w))"
| "setbit_turn cmd (Holds i) w =
     (let (x, w) = setbit_read cmd i w
      in (case x of Inl r \<Rightarrow> Leaving [i] r | Inr (b, bv) \<Rightarrow> Middle i b bv, w))"
| "setbit_turn cmd (Middle i b bv) w = (let (r, w) = setbit_write cmd i (b, bv) w in (Leaving [i] r, w))"
| "setbit_turn cmd (Leaving ds r) w = leave ds r w"
| "setbit_turn cmd st w = (st, w)"

fun getbit_turn :: "getbit_cmd \<Rightarrow> stage \<Rightarrow> world \<Rightarrow> stage \<times> world" where
  "getbit_turn cmd Queued w =
     (let (r, dt, w) = prepare_file (gb_key cmd) 1 w
      in (if r = -2 then Answered 0 else if r = -1 then Answered (-2) else Holds (the dt), w))"
| "getbit_turn cmd (Holds i) w = (let (r, w) = getbitCommand cmd i w in (Leaving [i] r, w))"
| "getbit_turn cmd (Leaving ds r) w = leave ds r w"
| "getbit_turn cmd st w = (st, w)"

text \<open>The part of \<open>bitcountCommand\<close> before its loop.\<close>

definition bitcount_start :: "bitcount_cmd \<Rightarrow> nat \<Rightarrow> world \<Rightarrow> stage \<times> world" where
  "bitcount_start cmd i w =
     (let len = d_length (descs w i)
      in if bc_start cmd < 0 \<and> bc_end cmd < 0 \<and> bc_end cmd < bc_start cmd then (Leaving [i] 0, w)
         else let s = clamp_start len (bc_start cmd); e = clamp_end len (bc_end cmd)
              in if e < s then (Leaving [i] 0, w)
                 else let (ok, w) = alloc_ok w
                      in (if ok then Counting i (nat (e - s + 1)) (nat s) 0 else Leaving [i] (-1), w))"

fun bitcount_turn :: "byte list \<Rightarrow> int \<Rightarrow> int option \<Rightarrow> stage \<Rightarrow> world \<Rightarrow> stage \<times> world" where
  "bitcount_turn key s e Queued w =
     (let (r, dt, w) = prepare_file key 1 w
      in (if r = -2 then Answered 0 else if r = -1 then Answered (-2) else Holds (the dt), w))"
| "bitcount_turn key s e (Holds i) w =
     (let len = d_length (descs w i)
      in if len = 0 then (Leaving [i] 0, w)
         else bitcount_start
                \<lparr>bc_key = key, bc_start = s, bc_end = (case e of None \<Rightarrow> int len - 1 | Some e \<Rightarrow> e)\<rparr> i w)"
| "bitcount_turn key s e (Counting i remaining off bits) w =
     (if 0 < remaining
      then (let to_read = (if remaining < FILE_BUFFER_SIZE then remaining else FILE_BUFFER_SIZE);
                (r, buf, w) = read_from i to_read (to_off off) w
            in (if r = 0 then Leaving [i] (sint bits)
                else Counting i (remaining - r) (off + r) (bits + redisPopcount buf r), w))
      else (Leaving [i] (sint bits), w))"
| "bitcount_turn key s e (Leaving ds r) w = leave ds r w"
| "bitcount_turn key s e st w = (st, w)"

text \<open>
  BITOP: the part of \<open>bitopCommand\<close> before its loop, and the loop with one source or one write in a turn.
  \<open>prepare_files\<close> opens the last source first; when a source fails, those it has opened are not released.
\<close>

definition bitop_start :: "bitop_cmd \<Rightarrow> nat option \<Rightarrow> nat option list \<Rightarrow> world \<Rightarrow> stage \<times> world" where
  "bitop_start cmd d dts w =
     (let flen = (\<lambda>i. d_length (descs w i));
          (m, maxlen) = find_max flen 0 dts (0, 0);
          ss = map (source_of flen) dts
      in if maxlen = 0 then (depart (somes (d # dts)) 0, w)
         else let (r, w) = op_malloc (bo_count cmd) w
              in (if r \<noteq> 0 then depart (somes (d # dts)) (-1) else Block d dts m ss 0 0 [], w))"

fun bitop_turn :: "bitop_cmd \<Rightarrow> byte list list \<Rightarrow> stage \<Rightarrow> world \<Rightarrow> stage \<times> world" where
  "bitop_turn cmd srcs Queued w =
     (if bo_hook cmd = NONE
      then (let (r, dt, w) = prepare_file (bo_key cmd) 2 w
            in (if r \<noteq> 0 then Answered (-2) else Sources dt [] srcs, w))
      else (Sources None [] srcs, w))"
| "bitop_turn cmd srcs (Sources d dts keys) w =
     (if keys = [] then bitop_start cmd d dts w
      else let (r, dt, w) = prepare_file (last keys) 1 w
           in (if r = -2 then Sources d (None # dts) (butlast keys)
               else if r = -1 then depart (somes [d]) (-2)
               else Sources d (dt # dts) (butlast keys), w))"
| "bitop_turn cmd srcs (Block d dts m ss offset bits bufs) w =
     (if bufs = [] \<and> blocks_left ss m = 0
      then (depart (somes (d # dts)) (if bo_hook cmd = COUNTOP then sint bits else offset), w)
      else if length bufs < length ss
      then (case ss ! length bufs of
              None \<Rightarrow> (Block d dts m ss offset bits (bufs @ [pad_block []]), w)
            | Some (i, t, r) \<Rightarrow>
                if t = 0 then (Block d dts m ss offset bits (bufs @ [pad_block []]), w)
                else let (_, bs, w) = read_from i (if t = 1 then r else FILE_BUFFER_SIZE) offset w
                     in (Block d dts m (ss[length bufs := Some (i, t - 1, r)]) offset bits (bufs @ [pad_block bs]), w))
      else let sz = (if blocks_left ss m \<noteq> 0 then FILE_BUFFER_SIZE else last_left ss m);
               p0 = combine (bo_option cmd) bufs sz;
               next = to_int32 (offset + int sz)
           in (case bo_hook cmd of
                 NONE \<Rightarrow> Storing d dts m ss offset next bits (take sz p0)
               | COUNTOP \<Rightarrow> Block d dts m ss next (bits + redisPopcount p0 sz) []
               | GETOP \<Rightarrow> Block d dts m ss next bits [], w))"
| "bitop_turn cmd srcs (Storing d dts m ss offset next bits p) w =
     (let (r, w) = (case d of None \<Rightarrow> (0, w\<lparr>crashed := True\<rparr>) | Some i \<Rightarrow> write_to i p offset w)
      in (if r = 0 then depart (somes (d # dts)) (-1) else Block d dts m ss next bits [], w))"
| "bitop_turn cmd srcs (Leaving ds r) w = leave ds r w"
| "bitop_turn cmd srcs st w = (st, w)"

primrec worker_step :: "request \<Rightarrow> stage \<Rightarrow> world \<Rightarrow> stage \<times> world" where
  "worker_step (Set_request cmd) = setbit_turn cmd"
| "worker_step (Get_request cmd) = getbit_turn cmd"
| "worker_step (Count_request key s e) = bitcount_turn key s e"
| "worker_step (Op_request cmd srcs) = bitop_turn cmd srcs"

lemma leaving_step: "worker_step rq (Leaving ds r) w = leave ds r w"
  by (cases rq) simp_all

lemma answered_step: "worker_step rq (Answered r) w = (Answered r, w)"
  by (cases rq) simp_all

text \<open>The turn of thread \<open>t\<close>, and a whole schedule.\<close>

type_synonym workers = "(nat \<Rightarrow> stage) \<times> world"

definition turn :: "request list \<Rightarrow> nat \<Rightarrow> workers \<Rightarrow> workers" where
  "turn rs t = (\<lambda>(s, w).
     if t < length rs then (let (st, w) = worker_step (rs ! t) (s t) w in (s(t := st), w)) else (s, w))"

definition run_schedule :: "request list \<Rightarrow> nat list \<Rightarrow> world \<Rightarrow> workers" where
  "run_schedule rs sched w = fold (turn rs) sched (\<lambda>_. Queued, w)"

section \<open>Room for the keys of all threads\<close>

definition room :: "world \<Rightarrow> u64 set \<Rightarrow> bool" where
  "room w hs \<longleftrightarrow>
     finite hs \<and> (\<forall>h\<in>hs. h \<noteq> 0 \<and> (\<forall>i. XXTABLE w (chain_id h) = Some i \<longrightarrow> d_hash (descs w i) = h)) \<and>
     inj_on chain_id hs \<and>
     (\<exists>n. slots_used w n \<and> n + card {h \<in> hs. XXTABLE w (chain_id h) = None} \<le> DESC_TABLE_SIZE)"

lemma room_can_open:
  assumes "room w hs" and "h \<in> hs"
  shows "can_open w h"
proof -
  obtain n where n: "slots_used w n" "n + card {h \<in> hs. XXTABLE w (chain_id h) = None} \<le> DESC_TABLE_SIZE"
    using assms(1) by (auto simp: room_def)
  have "n < DESC_TABLE_SIZE" if "XXTABLE w (chain_id h) = None"
  proof -
    have "h \<in> {h \<in> hs. XXTABLE w (chain_id h) = None}" using assms(2) that by simp
    moreover have "finite {h \<in> hs. XXTABLE w (chain_id h) = None}" using assms(1) by (simp add: room_def)
    ultimately have "0 < card {h \<in> hs. XXTABLE w (chain_id h) = None}" by (auto simp: card_gt_0_iff)
    then show ?thesis using n(2) by simp
  qed
  then show ?thesis using assms n(1) by (auto simp: room_def can_open_def split: option.split)
qed

lemma room_same:
  assumes "room w hs" and "XXTABLE w' = XXTABLE w" and "\<And>i. d_hash (descs w' i) = d_hash (descs w i)"
    and "\<exists>n. slots_used w' n"
  shows "room w' hs"
proof -
  obtain n where n: "slots_used w n" "n + card {h \<in> hs. XXTABLE w (chain_id h) = None} \<le> DESC_TABLE_SIZE"
    using assms(1) by (auto simp: room_def)
  obtain n' where n': "slots_used w' n'" using assms(4) by blast
  have "i < n \<longleftrightarrow> i < n'" for i using n(1) n' assms(3) by (metis slots_used_def)
  then have "n' = n" by (metis linorder_neq_iff)
  then show ?thesis using assms(1-3) n n' by (auto simp: room_def)
qed

lemma room_wf: "room w hs \<Longrightarrow> table_wf w' \<Longrightarrow> XXTABLE w' = XXTABLE w \<Longrightarrow>
    (\<And>i. d_hash (descs w' i) = d_hash (descs w i)) \<Longrightarrow> room w' hs"
  by (rule room_same) (simp_all add: table_wf_def)

lemma room_opens:
  assumes "room w hs" and "h \<in> hs" and op: "opens w w' n h c sz"
  shows "room w' hs"
proof -
  have x: "XXTABLE w' = (XXTABLE w)(chain_id h := Some n)" and none: "XXTABLE w (chain_id h) = None"
    and n: "slots_used w n" using op by (auto elim: opensE)
  have free: "d_hash (descs w n) = 0" using n by (metis less_irrefl slots_used_def)
  have inj: "inj_on chain_id hs" and fin: "finite hs" using assms(1) by (simp_all add: room_def)
  have head: "d_hash (descs w' i) = g" if g: "g \<in> hs" and i: "XXTABLE w' (chain_id g) = Some i" for g i
  proof (cases "g = h")
    case True
    then show ?thesis using i opens_fields(2) [OF op] by (simp add: x)
  next
    case False
    then have "chain_id g \<noteq> chain_id h" using inj g assms(2) by (auto simp: inj_on_def)
    then have "XXTABLE w (chain_id g) = Some i" using i by (simp add: x)
    then have "d_hash (descs w i) = g" "g \<noteq> 0" using assms(1) g by (auto simp: room_def)
    then show ?thesis using opens_fields(5) [OF op, of i] free by (cases "i = n") auto
  qed
  have "{g \<in> hs. XXTABLE w' (chain_id g) = None} = {g \<in> hs. XXTABLE w (chain_id g) = None} - {h}"
    using inj assms(2) by (auto simp: x inj_on_def)
  moreover have "h \<in> {g \<in> hs. XXTABLE w (chain_id g) = None}" using assms(2) none by simp
  ultimately have "Suc (card {g \<in> hs. XXTABLE w' (chain_id g) = None}) = card {g \<in> hs. XXTABLE w (chain_id g) = None}"
    using fin by (metis (lifting) card.remove finite_subset mem_Collect_eq subsetI)
  moreover obtain k where "slots_used w k" "k + card {g \<in> hs. XXTABLE w (chain_id g) = None} \<le> DESC_TABLE_SIZE"
    using assms(1) by (auto simp: room_def)
  moreover from this(1) have "k = n" by (rule slots_used_unique) (rule n)
  ultimately show ?thesis
    using assms(1) head opens_wf(2) [OF op] unfolding room_def by (intro conjI exI [of _ "n + 1"]) auto
qed

end
