(* ===== verification/WorkersTable.thy ===== *)
theory WorkersTable
  imports Workers
begin

text \<open>
  What the table of open files is while threads run, and what one lock operation of a thread does to
  it: acquiring a descriptor, reading, writing, and giving it back.
\<close>

section \<open>Contents byte by byte\<close>

definition cell :: "world \<Rightarrow> u64 \<Rightarrow> nat \<Rightarrow> byte" where
  "cell w h k = byte_at (content_or_empty (db w h)) k"

definition cell_bit :: "world \<Rightarrow> u64 \<Rightarrow> nat \<Rightarrow> bool" where
  "cell_bit w h p = get_bit (content_or_empty (db w h)) p"

lemma cell_bit_cell: "cell_bit w h p = bit (cell w h (p div 8)) (7 - p mod 8)"
  by (simp add: cell_bit_def cell_def get_bit_def)

lemma cell_same: "db w' = db w \<Longrightarrow> cell w' = cell w"
  by (simp add: cell_def fun_eq_iff)

lemma cell_upd:
  "db w' = (db w)(h \<mapsto> c) \<Longrightarrow> cell w' g k = (if g = h then byte_at c k else cell w g k)"
  by (simp add: cell_def content_or_empty_def)

lemma cell_view:
  assumes "live w i" and "d_hash (descs w i) = h"
  shows "cell w h k = byte_at (view w i) k"
  using db_live [OF assms(1)] assms(2) by (simp add: cell_def content_or_empty_def)

section \<open>The table while threads run\<close>

definition all_hashes :: "request set \<Rightarrow> u64 set" where
  "all_hashes Q = (\<Union>rq\<in>Q. request_hashes rq)"

primrec request_dests :: "request \<Rightarrow> u64 set" where
  "request_dests (Set_request cmd) = {}"
| "request_dests (Get_request cmd) = {}"
| "request_dests (Count_request key s e) = {}"
| "request_dests (Op_request cmd srcs) = (if bo_hook cmd = NONE then {key_hash (bo_key cmd)} else {})"

definition dest_hashes :: "request set \<Rightarrow> u64 set" where
  "dest_hashes Q = (\<Union>rq\<in>Q. request_dests rq)"

text \<open>
  There is room for all keys, a destination of BITOP is open or does not exist, and no file is longer
  than SETBIT can make it.
\<close>

definition steady :: "request set \<Rightarrow> world \<Rightarrow> bool" where
  "steady Q w \<longleftrightarrow>
     server_ok w \<and> room w (all_hashes Q) \<and>
     (\<forall>h\<in>dest_hashes Q. XXTABLE w (chain_id h) \<noteq> None \<or> db w h = None) \<and>
     (\<forall>h c. db w h = Some c \<longrightarrow> length c \<le> 2 ^ 31)"

lemma request_hash_in: "request_hash (Set_request cmd) \<in> request_hashes (Set_request cmd)"
    "request_hash (Get_request g) \<in> request_hashes (Get_request g)"
    "request_hash (Count_request key s e) \<in> request_hashes (Count_request key s e)"
  by (simp_all add: request_hash_def)

lemma all_hashes_mem: "rq \<in> Q \<Longrightarrow> h \<in> request_hashes rq \<Longrightarrow> h \<in> all_hashes Q"
  by (auto simp: all_hashes_def)

lemma dest_hashes_mem: "rq \<in> Q \<Longrightarrow> h \<in> request_dests rq \<Longrightarrow> h \<in> dest_hashes Q"
  by (auto simp: dest_hashes_def)

lemma dest_subset: "h \<in> dest_hashes Q \<Longrightarrow> h \<in> all_hashes Q"
proof -
  have "request_dests rq \<subseteq> request_hashes rq" for rq by (cases rq) auto
  then show "h \<in> dest_hashes Q \<Longrightarrow> h \<in> all_hashes Q" by (auto simp: dest_hashes_def all_hashes_def)
qed

lemma steadyD:
  assumes "steady Q w"
  shows "server_ok w" and "room w (all_hashes Q)" and "table_wf w"
    and "live w i \<Longrightarrow> lengths w i = length (view w i)" and "live w i \<Longrightarrow> length (view w i) \<le> 2 ^ 31"
    and "h \<in> all_hashes Q \<Longrightarrow> can_open w h" and "db w h = Some c \<Longrightarrow> length c \<le> 2 ^ 31"
proof -
  show "server_ok w" "room w (all_hashes Q)" "db w h = Some c \<Longrightarrow> length c \<le> 2 ^ 31"
    using assms by (simp_all add: steady_def)
  then show "table_wf w" "live w i \<Longrightarrow> lengths w i = length (view w i)" by (simp_all add: server_ok_def)
  show "live w i \<Longrightarrow> length (view w i) \<le> 2 ^ 31" using db_live [of w i] assms by (simp add: steady_def)
  show "h \<in> all_hashes Q \<Longrightarrow> can_open w h" by (rule room_can_open) (use assms in \<open>simp_all add: steady_def\<close>)
qed

lemma live_head: "live w i \<Longrightarrow> XXTABLE w (chain_id (d_hash (descs w i))) = Some i"
  by (elim liveE) simp

lemma steady_keep:
  assumes st: "steady Q w" and ok: "server_ok w'" and rm: "room w' (all_hashes Q)"
    and kept: "\<And>i. live w i \<Longrightarrow> live w' i \<and> d_hash (descs w' i) = d_hash (descs w i)"
    and dbs: "\<And>h c. db w' h = Some c \<Longrightarrow>
      length c \<le> 2 ^ 31 \<and> (db w h \<noteq> None \<or> (\<exists>i. live w' i \<and> d_hash (descs w' i) = h))"
  shows "steady Q w'"
proof -
  have "XXTABLE w' (chain_id h) \<noteq> None \<or> db w' h = None" if h: "h \<in> dest_hashes Q" for h
  proof (cases "XXTABLE w (chain_id h)")
    case (Some i)
    then have "d_hash (descs w i) = h" "h \<noteq> 0"
      using steadyD(2) [OF st] dest_subset [OF h] by (auto simp: room_def)
    then have "live w i" using steadyD(3) [OF st] by (auto simp: live_def)
    then show ?thesis using kept [of i] live_head [of w' i] \<open>d_hash (descs w i) = h\<close> by auto
  next
    case None
    then have "db w h = None" using st h by (auto simp: steady_def)
    then show ?thesis using dbs [of h] live_head by (cases "db w' h") fastforce+
  qed
  then show ?thesis using ok rm dbs by (simp add: steady_def)
qed

section \<open>Handing references on\<close>

text \<open>
  From \<open>w\<close> to \<open>w'\<close> the holder of the descriptors \<open>out\<close> becomes the holder of \<open>inn\<close>; every open file
  stays open.
\<close>

definition rehold :: "request set \<Rightarrow> world \<Rightarrow> world \<Rightarrow> nat list \<Rightarrow> nat list \<Rightarrow> bool" where
  "rehold Q w w' out inn \<longleftrightarrow>
     steady Q w' \<and> hung w' = hung w \<and>
     (\<forall>i. live w i \<longrightarrow> live w' i \<and> d_hash (descs w' i) = d_hash (descs w i)) \<and>
     (\<forall>i. d_refs (descs w' i) + of_nat (count_list out i) = d_refs (descs w i) + of_nat (count_list inn i))"

lemma rehold_refl: "steady Q w \<Longrightarrow> rehold Q w w xs xs"
  by (simp add: rehold_def)

text \<open>Only the numbers of references matter, so other descriptors may be held beside.\<close>

lemma rehold_cong:
  assumes "rehold Q w w' out inn"
    and "\<And>i. count_list out' i + count_list inn i = count_list out i + count_list inn' i"
  shows "rehold Q w w' out' inn'"
proof -
  have "d_refs (descs w' i) + of_nat (count_list out' i) = d_refs (descs w i) + of_nat (count_list inn' i)" for i
  proof -
    have "d_refs (descs w' i) = d_refs (descs w i) + of_nat (count_list inn i) - of_nat (count_list out i)"
      using assms(1) by (simp add: rehold_def eq_diff_eq)
    moreover have "of_nat (count_list out' i) =
        (of_nat (count_list out i) + of_nat (count_list inn' i) - of_nat (count_list inn i) :: u32)"
      using assms(2) [of i] unfolding eq_diff_eq by (metis of_nat_add)
    ultimately show ?thesis by simp
  qed
  then show ?thesis using assms(1) by (simp add: rehold_def)
qed

lemma rehold_acquired:
  assumes st: "steady Q w" and a: "acquired w h c (length c) w' i" and rm: "room w' (all_hashes Q)"
    and c: "length c \<le> 2 ^ 31"
  shows "rehold Q w w' [] [i]"
proof -
  have "steady Q w'"
    by (rule steady_keep [OF st acquired_server_ok [OF a] rm])
      (use a c st in \<open>auto simp: acquired_def holders_kept_def steady_def split: if_splits\<close>)
  then show ?thesis using a by (auto simp: rehold_def acquired_def holders_kept_def)
qed

lemma acquired_cell:
  "acquired w h (content_or_empty (db w h)) sz w' i \<Longrightarrow> cell w' = cell w"
  by (auto simp: acquired_def cell_def content_or_empty_def fun_eq_iff)

lemma rehold_frame:
  assumes st: "steady Q w" and f: "table_frame w w'"
    and len: "\<And>j. live w j \<Longrightarrow> lengths w' j = length (view w' j) \<and> length (view w' j) \<le> 2 ^ 31"
  shows "rehold Q w w' xs xs"
proof -
  note ok = steadyD(1) [OF st] and wf = steadyD(3) [OF st]
  have ok': "server_ok w'" using ok f len by (simp add: server_ok_def table_frame_def)
  have "room w' (all_hashes Q)"
    using f ok' by (intro room_wf [OF steadyD(2) [OF st], of w']) (simp_all add: table_frame_def server_ok_def)
  moreover have "length c \<le> 2 ^ 31 \<and> (db w h \<noteq> None \<or> (\<exists>i. live w' i \<and> d_hash (descs w' i) = h))"
    if d: "db w' h = Some c" for h c
  proof (cases "\<exists>j. live w j \<and> d_hash (descs w j) = h")
    case True
    then obtain j where j: "live w j" "d_hash (descs w j) = h" by blast
    then have "c = view w' j" using db_frame_open [OF f j(1)] d by simp
    then show ?thesis using len [OF j(1)] j f by (auto simp: table_frame_def)
  next
    case False
    then have "db w' h = db w h" using db_frame_closed [OF wf f, of h] by blast
    then show ?thesis using d steadyD(7) [OF st] by auto
  qed
  ultimately have "steady Q w'" using f by (intro steady_keep [OF st ok']) (simp_all add: table_frame_def)
  then show ?thesis using f by (auto simp: rehold_def table_frame_def)
qed

lemma rehold_release:
  assumes st: "steady Q w" and "live w i"
  shows "rehold Q w (release_desc (Some i) w) (i # xs) xs"
proof -
  have "server_ok (release_desc (Some i) w)"
    using steadyD(1) [OF st] assms(2) by (auto simp: server_ok_def release_same)
  moreover have "room (release_desc (Some i) w) (all_hashes Q)"
    by (rule room_wf [OF steadyD(2) [OF st]]) (use steadyD(3) [OF st] in \<open>simp_all add: release_same\<close>)
  ultimately have "steady Q (release_desc (Some i) w)" using st by (simp add: steady_def release_same)
  then show ?thesis by (simp add: rehold_def release_same)
qed

section \<open>Acquiring a descriptor\<close>

text \<open>
  From \<open>w\<close> to \<open>w'\<close> a thread has acquired descriptor \<open>i\<close> for the hash \<open>h\<close>, whose file exists from now on;
  no content has changed.
\<close>

definition takes :: "request set \<Rightarrow> world \<Rightarrow> u64 \<Rightarrow> world \<Rightarrow> nat \<Rightarrow> bool" where
  "takes Q w h w' i \<longleftrightarrow>
     rehold Q w w' [] [i] \<and> live w' i \<and> d_hash (descs w' i) = h \<and> cell w' = cell w \<and>
     db w' = (db w)(h \<mapsto> content_or_empty (db w h))"

lemma prepare_room:
  assumes st: "steady Q w" and h: "key_hash key \<in> all_hashes Q" and mode: "mode \<le> 2"
    and there: "mode = 1 \<Longrightarrow> db w (key_hash key) \<noteq> None" and p: "prepare_file key mode w = (0, Some i, w')"
  shows "room w' (all_hashes Q)"
proof -
  note rm = steadyD(2) [OF st] and wf = steadyD(3) [OF st] and can = steadyD(6) [OF st h]
  show ?thesis
  proof (cases "XXTABLE w (chain_id (key_hash key))")
    case None
    have d: "mode = 1 \<Longrightarrow> disk w (key_hash key) \<noteq> None" using there db_closed [OF None] by simp
    obtain n v' c sz where "prepare_file key mode w = (0, Some n, v')" "opens w v' n (key_hash key) c sz"
      by (rule prepare_file_closed [OF wf can None mode d])
    then show ?thesis using p room_opens [OF rm h] by simp
  next
    case (Some j)
    have "d_hash (descs w j) = key_hash key" using Some can by (simp add: can_open_def)
    then have "w' = touch_desc j w" using prepare_file_open [OF wf Some] p by auto
    then show ?thesis using room_wf [OF rm, of w'] by (simp add: touch_same wf)
  qed
qed

lemma takes_acquired:
  assumes st: "steady Q w" and a: "acquired w h c (length c) w' i" and c: "c = content_or_empty (db w h)"
    and rm: "room w' (all_hashes Q)"
  shows "takes Q w h w' i"
proof -
  have "length c \<le> 2 ^ 31" using steadyD(7) [OF st] by (auto simp: c content_or_empty_def split: option.split)
  then show ?thesis
    using rehold_acquired [OF st a rm] acquired_cell [OF a [unfolded c]] a c by (simp add: takes_def acquired_def)
qed

lemma set_acquires:
  assumes st: "steady Q w" and h: "key_hash key \<in> all_hashes Q"
  shows "\<exists>i w'. prepare_file key 0 w = (0, Some i, w') \<and> takes Q w (key_hash key) w' i"
proof -
  let ?c = "content_or_empty (db w (key_hash key))"
  obtain i w' where p: "prepare_file key 0 w = (0, Some i, w')" and a: "acquired w (key_hash key) ?c (length ?c) w' i"
    using acquire_create [OF steadyD(1) [OF st] steadyD(6) [OF st h]] by (auto simp: content_or_empty_def)
  have "room w' (all_hashes Q)" by (rule prepare_room [OF st h _ _ p]) simp_all
  then show ?thesis using p takes_acquired [OF st a refl] by blast
qed

lemma get_acquires:
  assumes st: "steady Q w" and h: "key_hash key \<in> all_hashes Q"
  shows "(\<exists>i w'. prepare_file key 1 w = (0, Some i, w') \<and> takes Q w (key_hash key) w' i \<and> db w' = db w) \<or>
    (\<exists>w'. prepare_file key 1 w = (-2, None, w') \<and> rehold Q w w' [] [] \<and> cell w' = cell w \<and>
      (\<forall>p. \<not> cell_bit w (key_hash key) p) \<and> db w' = db w \<and> db w (key_hash key) = None)"
proof -
  note ok = steadyD(1) [OF st] and can = steadyD(6) [OF st h] and wf = steadyD(3) [OF st]
  show ?thesis
  proof (cases "db w (key_hash key)")
    case None
    obtain w' where w': "prepare_file key 1 w = (-2, None, w')" "server_ok w'" "same_refs w w'" "db w' = db w"
      "holders_kept w w'"
      by (rule acquire_absent [OF ok can None])
    have head: "XXTABLE w (chain_id (key_hash key)) = None"
      using None can by (auto simp: db_def can_open_def split: option.splits)
    have "disk w (key_hash key) = None" using db_closed [OF head] None by simp
    then obtain w'' where "prepare_file key 1 w = (-2, None, w'')" "descs w'' = descs w" "XXTABLE w'' = XXTABLE w"
      using prepare_file_absent [OF wf can head] by metis
    then have x: "descs w' = descs w" "XXTABLE w' = XXTABLE w" using w'(1) by simp_all
    then have "room w' (all_hashes Q)" using w'(2) by (intro room_wf [OF steadyD(2) [OF st]]) (simp_all add: server_ok_def)
    then have "steady Q w'" using st w'(2,4) x by (simp add: steady_def)
    then have "rehold Q w w' [] []"
      using w'(3,5) by (auto simp: rehold_def same_refs_def holders_kept_def)
    moreover have "\<not> cell_bit w (key_hash key) p" for p
      by (simp add: cell_bit_def None content_or_empty_def get_bit_beyond)
    ultimately show ?thesis using w'(1,4) cell_same [OF w'(4)] None by blast
  next
    case (Some c)
    obtain i w' where p: "prepare_file key 1 w = (0, Some i, w')" and a: "acquired w (key_hash key) c (length c) w' i"
      by (rule acquire_existing [OF ok can Some])
    have "room w' (all_hashes Q)" by (rule prepare_room [OF st h _ _ p]) (use Some in simp_all)
    then have "takes Q w (key_hash key) w' i" using takes_acquired [OF st a] Some by (simp add: content_or_empty_def)
    moreover from this have "db w' = db w" using Some by (simp add: takes_def content_or_empty_def fun_upd_idem)
    ultimately show ?thesis using p by blast
  qed
qed

lemma dest_acquires:
  assumes st: "steady Q w" and d: "key_hash key \<in> dest_hashes Q"
  shows "\<exists>i w'. prepare_file key 2 w = (0, Some i, w') \<and> takes Q w (key_hash key) w' i"
proof -
  note h = dest_subset [OF d]
  note ok = steadyD(1) [OF st] and can = steadyD(6) [OF st h] and wf = steadyD(3) [OF st]
  show ?thesis
  proof (cases "XXTABLE w (chain_id (key_hash key))")
    case (Some i)
    have i: "d_hash (descs w i) = key_hash key" "key_hash key \<noteq> 0" using can Some by (simp_all add: can_open_def)
    note a = acquired_touch [OF ok Some i] and p = prepare_file_open [OF wf Some i(1), of 2]
    have "room (touch_desc i w) (all_hashes Q)" by (rule prepare_room [OF st h _ _ p]) simp_all
    then show ?thesis using p takes_acquired [OF st a(1)] a(2) by (auto simp: content_or_empty_def)
  next
    case None
    have none: "db w (key_hash key) = None" using st d None by (auto simp: steady_def)
    then have "disk w (key_hash key) = None" using db_closed [OF None] by simp
    then obtain n w' where p: "prepare_file key 2 w = (0, Some n, w')" and op: "opens w w' n (key_hash key) [] 0"
      using prepare_file_closed [OF wf can None, of 2] by (auto simp: opened_content_def opened_size_def)
    have "room w' (all_hashes Q)" by (rule room_opens [OF steadyD(2) [OF st] h op])
    moreover have "acquired w (key_hash key) [] (length []) w' n" using acquired_opens [OF ok op] by simp
    ultimately show ?thesis using p takes_acquired [OF st] none by (auto simp: content_or_empty_def)
  qed
qed

section \<open>Reading and writing\<close>

lemma read_keeps:
  assumes st: "steady Q w" and l: "live w i"
  shows "\<exists>w'. read_from i n (int off) w =
      (length (take n (drop off (view w i))), take n (drop off (view w i)), w') \<and>
    rehold Q w w' xs xs \<and> cell w' = cell w \<and> db w' = db w"
proof -
  obtain w' where w': "read_from i n (int off) w =
      (length (take n (drop off (view w i))), take n (drop off (view w i)), w')"
    "view w' = view w" "lengths w' = lengths w" "table_frame w w'"
    using files.rd_law [OF l] by blast
  have "rehold Q w w' xs xs" by (rule rehold_frame [OF st w'(4)]) (use steadyD(4,5) [OF st] in \<open>simp add: w'\<close>)
  moreover have "db w' = db w" by (rule db_same_view [OF steadyD(3) [OF st] w'(4,2)])
  ultimately show ?thesis using w'(1) cell_same by blast
qed

lemma write_keeps:
  assumes st: "steady Q w" and l: "live w i" and bs: "bs \<noteq> []" "off + length bs \<le> 2 ^ 31"
  shows "\<exists>w'. write_to i bs (int off) w = (length bs, w') \<and> rehold Q w w' xs xs \<and>
    (\<forall>g k. cell w' g k =
      (if g = d_hash (descs w i) then byte_at (write_at (view w i) off bs) k else cell w g k)) \<and>
    db w' = (db w)(d_hash (descs w i) \<mapsto> write_at (view w i) off bs)"
proof -
  obtain w' where w': "write_to i bs (int off) w = (length bs, w')"
    "view w' = (view w)(i := write_at (view w i) off bs)"
    "lengths w' = (lengths w)(i := max (lengths w i) (off + length bs))" "table_frame w w'"
    using files.wr_law [OF l bs(1)] by blast
  have "rehold Q w w' xs xs"
    by (rule rehold_frame [OF st w'(4)]) (use bs l steadyD(4,5) [OF st] in \<open>auto simp: w'(2,3)\<close>)
  then show ?thesis using w'(1) db_frame_view [OF l w'(4,2)] cell_upd [OF db_frame_view [OF l w'(4,2)]] by auto
qed

end
