(* ===== verification/WorkersSteps.thy ===== *)
theory WorkersSteps
  imports WorkersTable
begin

text \<open>
  What one turn of a thread does to the table of open files and to the contents, for SETBIT, GETBIT and
  BITCOUNT. \<open>WorkersOps\<close> has the turns of BITOP.
\<close>

section \<open>Holding descriptors\<close>

primrec held :: "stage \<Rightarrow> nat list" where
  "held Queued = []"
| "held (Holds i) = [i]"
| "held (Middle i b bv) = [i]"
| "held (Counting i remaining off bits) = [i]"
| "held (Sources d dts keys) = somes (d # dts)"
| "held (Block d dts m ss offset bits bufs) = somes (d # dts)"
| "held (Storing d dts m ss offset next bits p) = somes (d # dts)"
| "held (Leaving ds r) = ds"
| "held (Answered r) = []"

lemma somes_append [simp]: "somes (xs @ ys) = somes xs @ somes ys"
  by (induction xs) (auto split: option.split)

lemma set_somes: "i \<in> set (somes xs) \<longleftrightarrow> Some i \<in> set xs"
  by (induction xs) (auto split: option.split)

lemma length_somes: "length (somes xs) \<le> length xs"
  by (induction xs) (auto split: option.split)

lemma held_depart [simp]: "held (depart ds r) = ds"
  by (simp add: depart_def)

lemma held_leave: "held (fst (leave ds r w)) = tl ds"
  by (simp add: leave_def)

text \<open>How many references to descriptor \<open>i\<close> the threads hold.\<close>

definition holders :: "nat \<Rightarrow> (nat \<Rightarrow> stage) \<Rightarrow> nat \<Rightarrow> nat" where
  "holders n s i = (\<Sum>t<n. count_list (held (s t)) i)"

lemma holders_upd:
  assumes "t < n"
  shows "holders n (s(t := st)) i + count_list (held (s t)) i = holders n s i + count_list (held st) i"
proof -
  let ?f = "\<lambda>s. \<lambda>u. count_list (held (s u)) i"
  have split: "holders n s' i = ?f s' t + (\<Sum>u\<in>{..<n} - {t}. ?f s' u)" for s'
    unfolding holders_def using assms by (subst sum.remove [of _ t]) simp_all
  have "(\<Sum>u\<in>{..<n} - {t}. ?f (s(t := st)) u) = (\<Sum>u\<in>{..<n} - {t}. ?f s u)"
    by (rule sum.cong) auto
  then show ?thesis by (simp add: split)
qed

section \<open>What a stage promises\<close>

text \<open>BITOP: its destination has the hash of its key, and it reads the sources that it holds.\<close>

definition dest_ok :: "bitop_cmd \<Rightarrow> world \<Rightarrow> nat option \<Rightarrow> bool" where
  "dest_ok cmd w d \<longleftrightarrow>
     (if bo_hook cmd = NONE then \<exists>i. d = Some i \<and> d_hash (descs w i) = key_hash (bo_key cmd) else d = None)"

definition reads_held :: "nat option list \<Rightarrow> nat source list \<Rightarrow> bool" where
  "reads_held dts ss \<longleftrightarrow> (\<forall>i t r. Some (i, t, r) \<in> set ss \<longrightarrow> Some i \<in> set dts \<and> r \<le> FILE_BUFFER_SIZE)"

text \<open>With \<open>t\<close> blocks left at \<open>offset\<close>, the end of the longest source is within 2 GiB.\<close>

definition at_block :: "nat source list \<Rightarrow> nat \<Rightarrow> nat \<Rightarrow> int \<Rightarrow> bool" where
  "at_block ss m t offset \<longleftrightarrow>
     t = 0 \<or> (\<exists>k. offset = int k \<and> 0 < last_left ss m \<and> last_left ss m \<le> FILE_BUFFER_SIZE \<and>
       k + (t - 1) * FILE_BUFFER_SIZE + last_left ss m \<le> 2 ^ 31)"

primrec op_wf :: "bitop_cmd \<Rightarrow> byte list list \<Rightarrow> world \<Rightarrow> stage \<Rightarrow> bool" where
  "op_wf cmd srcs w Queued \<longleftrightarrow> True"
| "op_wf cmd srcs w (Holds i) \<longleftrightarrow> True"
| "op_wf cmd srcs w (Middle i b bv) \<longleftrightarrow> True"
| "op_wf cmd srcs w (Counting i remaining off bits) \<longleftrightarrow> True"
| "op_wf cmd srcs w (Sources d dts keys) \<longleftrightarrow>
     dest_ok cmd w d \<and> set keys \<subseteq> set srcs \<and> length dts + length keys \<le> length srcs"
| "op_wf cmd srcs w (Block d dts m ss offset bits bufs) \<longleftrightarrow>
     dest_ok cmd w d \<and> reads_held dts ss \<and> m < length ss \<and> length bufs \<le> length ss \<and>
     (\<forall>b\<in>set bufs. length b = FILE_BUFFER_SIZE) \<and>
     (bufs \<noteq> [] \<longrightarrow> m < length bufs \<or> blocks_left ss m \<noteq> 0) \<and>
     at_block ss m (blocks_left ss m + of_bool (m < length bufs)) offset"
| "op_wf cmd srcs w (Storing d dts m ss offset next bits p) \<longleftrightarrow>
     dest_ok cmd w d \<and> bo_hook cmd = NONE \<and> reads_held dts ss \<and> m < length ss \<and>
     p \<noteq> [] \<and> (\<exists>k. offset = int k \<and> k + length p \<le> 2 ^ 31) \<and> at_block ss m (blocks_left ss m) next"
| "op_wf cmd srcs w (Leaving ds r) \<longleftrightarrow> True"
| "op_wf cmd srcs w (Answered r) \<longleftrightarrow> True"

primrec stage_wf :: "request \<Rightarrow> world \<Rightarrow> stage \<Rightarrow> bool" where
  "stage_wf (Set_request cmd) w st \<longleftrightarrow> True"
| "stage_wf (Get_request cmd) w st \<longleftrightarrow> True"
| "stage_wf (Count_request key s e) w st \<longleftrightarrow>
     (\<forall>i remaining off bits. st = Counting i remaining off bits \<longrightarrow> off + remaining \<le> 2 ^ 31)"
| "stage_wf (Op_request cmd srcs) w st \<longleftrightarrow> op_wf cmd srcs w st"

text \<open>The most references that a thread ever holds.\<close>

primrec load :: "request \<Rightarrow> nat" where
  "load (Set_request cmd) = 1"
| "load (Get_request cmd) = 1"
| "load (Count_request key s e) = 1"
| "load (Op_request cmd srcs) = Suc (length srcs)"

definition holds_ok :: "world \<Rightarrow> request \<Rightarrow> stage \<Rightarrow> bool" where
  "holds_ok w rq st \<longleftrightarrow>
     (\<forall>i\<in>set (held st). live w i \<and> d_hash (descs w i) \<in> request_hashes rq) \<and>
     length (held st) \<le> load rq \<and> stage_wf rq w st"

text \<open>The step of another thread changes nothing about it.\<close>

lemma dest_ok_kept:
  assumes "dest_ok cmd w d" and "\<And>i. d = Some i \<Longrightarrow> d_hash (descs w' i) = d_hash (descs w i)"
  shows "dest_ok cmd w' d"
  using assms by (auto simp: dest_ok_def split: if_splits)

lemma holds_ok_kept:
  assumes ho: "holds_ok w rq st"
    and kept: "\<And>i. live w i \<Longrightarrow> live w' i \<and> d_hash (descs w' i) = d_hash (descs w i)"
  shows "holds_ok w' rq st"
proof -
  have "stage_wf rq w' st"
  proof (cases rq)
    case (Op_request cmd srcs)
    have d: "d_hash (descs w' i) = d_hash (descs w i)" if "i \<in> set (held st)" for i
      using ho kept that by (simp add: holds_ok_def)
    have "op_wf cmd srcs w st" using ho by (simp add: holds_ok_def Op_request)
    then have "op_wf cmd srcs w' st" using d by (cases st) (auto intro: dest_ok_kept)
    then show ?thesis by (simp add: Op_request)
  qed (use ho in \<open>simp_all add: holds_ok_def\<close>)
  then show ?thesis using ho kept by (auto simp: holds_ok_def)
qed

lemma reholdD:
  assumes "rehold Q w w' out inn"
  shows "steady Q w'" and "hung w' = hung w"
    and "live w i \<Longrightarrow> live w' i \<and> d_hash (descs w' i) = d_hash (descs w i)"
  using assms by (simp_all add: rehold_def)

text \<open>
  A step of \<open>rq\<close> that hands its references on as it should, and changes the contents of no other file
  than its destination.
\<close>

definition step_ok :: "request set \<Rightarrow> request \<Rightarrow> stage \<Rightarrow> world \<Rightarrow> stage \<Rightarrow> world \<Rightarrow> bool" where
  "step_ok Q rq st w st' w' \<longleftrightarrow> rehold Q w w' (held st) (held st') \<and> holds_ok w' rq st'"

lemma step_okI:
  assumes ho: "holds_ok w rq st" and re: "rehold Q w w' (held st) (held st')"
    and inn: "\<And>i. i \<in> set (held st') \<Longrightarrow> i \<in> set (held st) \<or> live w' i \<and> d_hash (descs w' i) \<in> request_hashes rq"
    and len: "length (held st') \<le> load rq" and wf: "stage_wf rq w' st'"
  shows "step_ok Q rq st w st' w'"
proof -
  have "live w' i \<and> d_hash (descs w' i) \<in> request_hashes rq" if "i \<in> set (held st')" for i
    using inn [OF that] ho reholdD(3) [OF re] by (auto simp: holds_ok_def)
  then show ?thesis using re len wf by (simp add: step_ok_def holds_ok_def)
qed

text \<open>The descriptors stay the same.\<close>

lemma step_ok_held:
  assumes "holds_ok w rq st" and "\<And>xs. rehold Q w w' xs xs" and "held st' = held st" and "stage_wf rq w' st'"
  shows "step_ok Q rq st w st' w'"
  using assms by (intro step_okI [of w rq st]) (simp_all add: holds_ok_def)

lemma step_ok_same: "steady Q w \<Longrightarrow> holds_ok w rq st \<Longrightarrow> step_ok Q rq st w st w"
  by (simp add: step_ok_def rehold_refl)

lemma leave_step_ok:
  assumes st: "steady Q w" and ho: "holds_ok w rq (Leaving ds r)" and e: "leave ds r w = (st', w')"
  shows "step_ok Q rq (Leaving ds r) w st' w'" and "cell w' = cell w" and "db w' = db w"
proof -
  have s: "st' = depart (tl ds) r" using e by (simp add: leave_def)
  have wf: "stage_wf rq w' (depart ds' r)" for ds' by (cases rq) (simp_all add: depart_def)
  show "step_ok Q rq (Leaving ds r) w st' w'"
  proof (cases ds)
    case Nil
    then have "w' = w" using e by (simp add: leave_def)
    then show ?thesis using st wf by (intro step_okI [OF ho]) (simp_all add: s Nil rehold_refl)
  next
    case (Cons i js)
    then have w': "w' = release_desc (Some i) w" using e by (simp add: leave_def)
    have "live w i" using ho by (simp add: Cons holds_ok_def)
    then have "rehold Q w w' (i # js) js" unfolding w' by (rule rehold_release [OF st])
    moreover have "length js \<le> load rq" using ho by (simp add: Cons holds_ok_def)
    ultimately show ?thesis using wf by (intro step_okI [OF ho]) (simp_all add: s Cons)
  qed
  show "db w' = db w" using e by (auto simp: leave_def release_same)
  then show "cell w' = cell w" by (rule cell_same)
qed

section \<open>SETBIT and GETBIT\<close>

definition good_set :: "setbit_cmd \<Rightarrow> bool" where
  "good_set cmd \<longleftrightarrow> 0 \<le> sb_offset cmd \<and> sb_offset cmd div 8 \<le> FILE_SIZE_LIMIT \<and> sb_value cmd \<in> {0, 1}"

lemma good_set_range:
  assumes "good_set cmd"
  shows "0 \<le> sb_offset cmd" and "sb_offset cmd < 2 ^ 63" and "position_in cmd div 8 < 2 ^ 31"
    and "sb_value cmd = 0 \<or> sb_value cmd = 1"
proof -
  show o: "0 \<le> sb_offset cmd" and "sb_value cmd = 0 \<or> sb_value cmd = 1" using assms by (auto simp: good_set_def)
  have "sb_offset cmd div 8 \<le> 2147483647" using assms by (simp add: good_set_def FILE_SIZE_LIMIT_def)
  then have "sb_offset cmd \<le> 17179869183" by presburger
  then show "sb_offset cmd < 2 ^ 63" by simp
  have "int (position_in cmd div 8) = sb_offset cmd div 8" using o by (simp add: position_in_def zdiv_int)
  then have "position_in cmd div 8 \<le> 2147483647" using \<open>sb_offset cmd div 8 \<le> 2147483647\<close> by linarith
  then show "position_in cmd div 8 < 2 ^ 31" by simp
qed

lemma set_reads:
  assumes st: "steady Q w" and l: "live w i" "d_hash (descs w i) = h" and g: "good_set cmd"
  defines "b \<equiv> cell w h (position_in cmd div 8)"
  shows "\<exists>x w'. setbit_read cmd i w = (x, w') \<and> rehold Q w w' xs xs \<and> cell w' = cell w \<and> db w' = db w \<and>
    (x = Inr (b, b AND push_bit (7 - position_in cmd mod 8) 1) \<or> x = Inl 0 \<and> b = 0 \<and> sb_value cmd = 0)"
proof -
  let ?k = "position_in cmd div 8"
  note rg = good_set_range(1,2) [OF g]
  note pos = position [OF rg, folded position_in_def]
  have b: "b = byte_at (view w i) ?k" unfolding b_def by (rule cell_view [OF l])
  have len: "lengths w i = length (view w i)" by (rule steadyD(4) [OF st l(1)])
  show ?thesis
  proof (cases "?k < length (view w i)")
    case True
    then have t: "take 1 (drop ?k (view w i)) = [b]" unfolding b by (rule one_byte)
    obtain w' where w': "read_from i 1 (int ?k) w = (1, [b], w')" "rehold Q w w' xs xs" "cell w' = cell w"
      "db w' = db w"
      using read_keeps [OF st l(1), where n = 1 and off = ?k and xs = xs] unfolding t by auto
    have "setbit_read cmd i w = (Inr (b, b AND push_bit (7 - position_in cmd mod 8) 1), w')"
      using True len w'(1) by (simp add: setbit_read_def pos lengths_def Let_def)
    then show ?thesis using w'(2-4) by blast
  next
    case False
    then have b0: "b = 0" by (simp add: b)
    have "setbit_read cmd i w = (if sb_value cmd = 0 then Inl 0 else Inr (0, 0), w)"
      using False len by (simp add: setbit_read_def pos lengths_def Let_def)
    then show ?thesis using b0 rehold_refl [OF st] by auto
  qed
qed

lemma set_writes:
  assumes st: "steady Q w" and l: "live w i" "d_hash (descs w i) = h" and g: "good_set cmd"
  shows "\<exists>w'. setbit_write cmd i (b, bv) w = (if bv \<noteq> 0 then 1 else 0, w') \<and> rehold Q w w' xs xs \<and>
    (\<forall>g k. cell w' g k = (if g = h \<and> k = position_in cmd div 8 then new_bit cmd b else cell w g k)) \<and>
    db w' = (db w)(h \<mapsto> write_at (view w i) (position_in cmd div 8) [new_bit cmd b])"
proof -
  let ?k = "position_in cmd div 8"
  note rg = good_set_range [OF g]
  note pos = position [OF rg(1,2), folded position_in_def] and nb = new_byte [OF rg(4)]
  have "?k + length [new_bit cmd b] \<le> 2 ^ 31" using rg(3) by simp
  then obtain w' where w': "write_to i [new_bit cmd b] (int ?k) w = (1, w')" "rehold Q w w' xs xs"
    "\<forall>g k. cell w' g k = (if g = h then byte_at (write_at (view w i) ?k [new_bit cmd b]) k else cell w g k)"
    "db w' = (db w)(h \<mapsto> write_at (view w i) ?k [new_bit cmd b])"
    using write_keeps [OF st l(1), where bs = "[new_bit cmd b]" and off = ?k and xs = xs] l(2) by auto
  have "cell w' g k = (if g = h \<and> k = ?k then new_bit cmd b else cell w g k)" for g k
    using w'(3) by (auto simp: byte_at_write_at cell_view [OF l])
  moreover have "setbit_write cmd i (b, bv) w = (if bv \<noteq> 0 then 1 else 0, w')"
    using w'(1) by (simp add: setbit_write_def pos nb new_bit_def Let_def)
  ultimately show ?thesis using w'(2,4) by blast
qed

lemma get_reads:
  assumes st: "steady Q w" and l: "live w i" "d_hash (descs w i) = h"
    and rg: "0 \<le> gb_offset cmd" "gb_offset cmd < 2 ^ 63"
  shows "\<exists>w'. getbitCommand cmd i w = (of_bool (cell_bit w h (nat (gb_offset cmd))), w') \<and>
    rehold Q w w' xs xs \<and> cell w' = cell w \<and> db w' = db w"
proof -
  have c: "content_or_empty (db w h) = view w i" using db_live [OF l(1)] l(2) by (simp add: content_or_empty_def)
  obtain w' where w': "getbitCommand cmd i w = (of_bool (get_bit (view w i) (nat (gb_offset cmd))), w')"
    "view w' = view w" "lengths w' = lengths w" "table_frame w w'"
    using getbit_live [OF l(1) steadyD(4) [OF st l(1)] rg] by blast
  have "rehold Q w w' xs xs" by (rule rehold_frame [OF st w'(4)]) (use steadyD(4,5) [OF st] in \<open>simp add: w'\<close>)
  moreover have "db w' = db w" by (rule db_same_view [OF steadyD(3) [OF st] w'(4,2)])
  ultimately show ?thesis using w'(1) cell_same [of w' w] by (auto simp: cell_bit_def c)
qed

section \<open>BITCOUNT\<close>

lemma count_interval:
  assumes "\<not> clamp_end len e < clamp_start len s" and "e \<le> LONG_MAX" and "len \<le> 2 ^ 31"
  shows "nat (clamp_start len s) + nat (clamp_end len e - clamp_start len s + 1) \<le> len"
proof -
  define e1 where "e1 = (if e < 0 then (if int len + e < 0 then 0 else int len + e) else e)"
  have "0 \<le> e1" "e1 < 2 ^ 64" using assms(2,3) by (auto simp: e1_def LONG_MAX_def)
  then have "to_size e1 = nat e1" by (rule to_size_id)
  then have "clamp_end len e < int len"
    using \<open>0 \<le> e1\<close> by (auto simp: clamp_end_def Let_def e1_def [symmetric] le_nat_iff)
  moreover have "0 \<le> clamp_start len s" by (simp add: clamp_start_def)
  ultimately show ?thesis using assms(1) by linarith
qed

lemma count_starts:
  assumes st: "steady Q w" and l: "live w i" and e: "bc_end cmd \<le> LONG_MAX"
  obtains r where "bitcount_start cmd i w = (Leaving [i] r, w)"
  | remaining off where "bitcount_start cmd i w = (Counting i remaining off 0, w)" "off + remaining \<le> 2 ^ 31"
proof -
  let ?len = "d_length (descs w i)"
  have len: "?len \<le> 2 ^ 31" using steadyD(4,5) [OF st l] by (simp add: lengths_def)
  have "faults w = []" using steadyD(3) [OF st] by (simp add: table_wf_def)
  then have a: "alloc_ok w = (True, w)" by (simp add: alloc_ok_def take_fault_def)
  show thesis
  proof (cases "bc_start cmd < 0 \<and> bc_end cmd < 0 \<and> bc_end cmd < bc_start cmd \<or>
      clamp_end ?len (bc_end cmd) < clamp_start ?len (bc_start cmd)")
    case True
    then have "bitcount_start cmd i w = (Leaving [i] 0, w)" by (auto simp: bitcount_start_def Let_def)
    then show thesis by (rule that(1))
  next
    case False
    then have "bitcount_start cmd i w =
        (Counting i (nat (clamp_end ?len (bc_end cmd) - clamp_start ?len (bc_start cmd) + 1))
          (nat (clamp_start ?len (bc_start cmd))) 0, w)"
      by (auto simp: bitcount_start_def Let_def a)
    then show thesis
      by (rule that(2)) (use count_interval [OF _ e len, of "bc_start cmd"] False len in linarith)
  qed
qed

primrec good_request :: "request \<Rightarrow> bool" where
  "good_request (Set_request cmd) \<longleftrightarrow> good_set cmd"
| "good_request (Get_request cmd) \<longleftrightarrow> 0 \<le> gb_offset cmd \<and> gb_offset cmd < 2 ^ 63"
| "good_request (Count_request key s e) \<longleftrightarrow> (\<forall>n. e = Some n \<longrightarrow> n \<le> LONG_MAX)"
| "good_request (Op_request cmd srcs) \<longleftrightarrow> length srcs \<le> 16"

text \<open>A thread has at most 17 references, to the destination and the 16 sources of a BITOP.\<close>

lemma good_load: "good_request rq \<Longrightarrow> load rq \<le> 17"
  by (cases rq) simp_all

end
