(* ===== verification/WorkersOps.thy ===== *)
theory WorkersOps
  imports WorkersSteps
begin

text \<open>
  The turns of BITOP: it acquires its destination and its sources one by one, reads its blocks, writes
  them to the destination, and never touches a file that it does not hold.
\<close>

text \<open>A turn that is in order, and changes the contents of no other file than the destination.\<close>

definition moves :: "request set \<Rightarrow> request \<Rightarrow> stage \<Rightarrow> world \<Rightarrow> stage \<Rightarrow> world \<Rightarrow> bool" where
  "moves Q rq st w st' w' \<longleftrightarrow>
     step_ok Q rq st w st' w' \<and> (\<forall>h. h \<notin> request_dests rq \<longrightarrow> db w' h = db w h)"

lemma movesI: "step_ok Q rq st w st' w' \<Longrightarrow> db w' = db w \<Longrightarrow> moves Q rq st w st' w'"
  by (simp add: moves_def)

lemma moves_cell: "moves Q rq st w st' w' \<Longrightarrow> h \<notin> request_dests rq \<Longrightarrow> cell w' h k = cell w h k"
  by (simp add: moves_def cell_def)

lemma moves_same: "steady Q w \<Longrightarrow> holds_ok w rq st \<Longrightarrow> moves Q rq st w st w"
  by (simp add: movesI step_ok_same)

lemma op_wf_depart [simp]: "op_wf cmd srcs w (depart ds r)"
  by (simp add: depart_def)

lemma held_live:
  assumes "holds_ok w rq st" and "i \<in> set (held st)"
  shows "live w i"
  using assms by (simp add: holds_ok_def)

section \<open>Acquiring the files\<close>

lemma op_queued:
  assumes st: "steady Q w" and q: "Op_request cmd srcs \<in> Q" and ho: "holds_ok w (Op_request cmd srcs) Queued"
    and e: "bitop_turn cmd srcs Queued w = (st', w')"
  shows "moves Q (Op_request cmd srcs) Queued w st' w'"
proof (cases "bo_hook cmd = NONE")
  case True
  have "key_hash (bo_key cmd) \<in> dest_hashes Q" by (rule dest_hashes_mem [OF q]) (simp add: True)
  then obtain i v where p: "prepare_file (bo_key cmd) 2 w = (0, Some i, v)" and t: "takes Q w (key_hash (bo_key cmd)) v i"
    using dest_acquires [OF st] by blast
  have r: "st' = Sources (Some i) [] srcs" "w' = v" using e p True by simp_all
  have "step_ok Q (Op_request cmd srcs) Queued w st' w'"
  proof (rule step_okI [OF ho])
    show "rehold Q w w' (held Queued) (held st')" using t by (simp add: r takes_def)
    show "j \<in> set (held Queued) \<or> live w' j \<and> d_hash (descs w' j) \<in> request_hashes (Op_request cmd srcs)"
      if "j \<in> set (held st')" for j using that t True by (simp add: r takes_def)
    show "length (held st') \<le> load (Op_request cmd srcs)" by (simp add: r)
    show "stage_wf (Op_request cmd srcs) w' st'" using t True by (simp add: r takes_def dest_ok_def)
  qed
  moreover have "db w' h = db w h" if "h \<notin> request_dests (Op_request cmd srcs)" for h
    using t that True by (simp add: r takes_def)
  ultimately show ?thesis by (simp add: moves_def)
next
  case False
  then have "st' = Sources None [] srcs" "w' = w" using e by simp_all
  then show ?thesis using False rehold_refl [OF st, of "[]"]
    by (intro movesI step_ok_held [OF ho]) (simp_all add: dest_ok_def rehold_refl [OF st])
qed

lemma op_source:
  assumes st: "steady Q w" and q: "Op_request cmd srcs \<in> Q"
    and ho: "holds_ok w (Op_request cmd srcs) (Sources d dts keys)" and keys: "keys \<noteq> []"
    and e: "bitop_turn cmd srcs (Sources d dts keys) w = (st', w')"
  shows "moves Q (Op_request cmd srcs) (Sources d dts keys) w st' w'"
proof -
  let ?rq = "Op_request cmd srcs" and ?h = "key_hash (last keys)"
  have wf: "dest_ok cmd w d" "set keys \<subseteq> set srcs" "length dts + length keys \<le> length srcs"
    using ho by (simp_all add: holds_ok_def)
  have len: "length dts + 1 + length (butlast keys) \<le> length srcs" using wf(3) keys by (cases keys) simp_all
  have ld: "length (somes (d # dt # dts)) \<le> Suc (length srcs)" for dt
    using length_somes [of "d # dt # dts"] len by simp
  have "last keys \<in> set srcs" using wf(2) keys by auto
  then have hash: "?h \<in> request_hashes ?rq" by simp
  have bl: "set (butlast keys) \<subseteq> set srcs" using wf(2) by (auto dest: in_set_butlastD)
  have dk: "dest_ok cmd v d" if "rehold Q w v out inn" for v out inn
  proof (rule dest_ok_kept [OF wf(1)])
    fix i assume "d = Some i"
    then show "d_hash (descs v i) = d_hash (descs w i)"
      using reholdD(3) [OF that, of i] held_live [OF ho, of i] by simp
  qed
  from get_acquires [OF st all_hashes_mem [OF q hash]] show ?thesis
  proof (elim disjE exE conjE)
    fix i v assume p: "prepare_file (last keys) 1 w = (0, Some i, v)" and t: "takes Q w ?h v i" and c: "db v = db w"
    have r: "st' = Sources d (Some i # dts) (butlast keys)" "w' = v" using e p keys by (simp_all del: One_nat_def)
    have re: "rehold Q w v [] [i]" using t by (simp add: takes_def)
    show ?thesis
    proof (rule movesI [OF step_okI [OF ho]])
      show "rehold Q w w' (held (Sources d dts keys)) (held st')"
        unfolding r(2) by (rule rehold_cong [OF re]) (simp add: r(1) split: option.split)
      show "j \<in> set (held (Sources d dts keys)) \<or> live w' j \<and> d_hash (descs w' j) \<in> request_hashes ?rq"
        if "j \<in> set (held st')" for j
        using that t hash by (auto simp: r takes_def split: option.splits)
      show "length (held st') \<le> load ?rq" using ld by (simp add: r)
      show "stage_wf ?rq w' st'" using dk [OF re] bl len by (simp add: r)
      show "db w' = db w" using c by (simp add: r)
    qed
  next
    fix v assume p: "prepare_file (last keys) 1 w = (-2, None, v)" and re: "rehold Q w v [] []" and c: "db v = db w"
    have r: "st' = Sources d (None # dts) (butlast keys)" "w' = v" using e p keys by (simp_all del: One_nat_def)
    show ?thesis
    proof (rule movesI [OF step_okI [OF ho]])
      show "rehold Q w w' (held (Sources d dts keys)) (held st')"
        unfolding r(2) by (rule rehold_cong [OF re]) (simp add: r(1) split: option.split)
      show "j \<in> set (held (Sources d dts keys)) \<or> live w' j \<and> d_hash (descs w' j) \<in> request_hashes ?rq"
        if "j \<in> set (held st')" for j using that by (auto simp: r split: option.splits)
      show "length (held st') \<le> load ?rq" using ld by (simp add: r)
      show "stage_wf ?rq w' st'" using dk [OF re] bl len by (simp add: r)
      show "db w' = db w" using c by (simp add: r)
    qed
  qed
qed

section \<open>Starting\<close>

lemma op_malloc_done: "steady Q w \<Longrightarrow> op_malloc n w = (0, w)"
  using steadyD(3) [of Q w] by (intro op_malloc_ok) (simp add: table_wf_def)

lemma started_block:
  assumes st: "steady Q w" and live: "\<And>i. Some i \<in> set dts \<Longrightarrow> live w i"
    and fm: "find_max (\<lambda>i. d_length (descs w i)) 0 dts (0, 0) = (m, ml)" and ml: "ml \<noteq> 0"
  defines "ss \<equiv> map (source_of (\<lambda>i. d_length (descs w i))) dts"
  shows "m < length ss" and "reads_held dts ss" and "at_block ss m (blocks_left ss m) 0"
proof -
  obtain i where i: "m < length dts" "dts ! m = Some i" "d_length (descs w i) = ml"
    using find_max_spec [OF fm] ml by auto
  show m: "m < length ss" using i(1) by (simp add: ss_def)
  have r: "last_block n \<le> FILE_BUFFER_SIZE" for n
    using mod_less_divisor [of FILE_BUFFER_SIZE n] by (simp add: last_block_def)
  show "reads_held dts ss"
    unfolding reads_held_def
  proof (intro allI impI)
    fix j t q assume "Some (j, t, q) \<in> set ss"
    then obtain dt where "dt \<in> set dts" "source_of (\<lambda>i. d_length (descs w i)) dt = Some (j, t, q)"
      by (auto simp: ss_def)
    then show "Some j \<in> set dts \<and> q \<le> FILE_BUFFER_SIZE" using r by (auto simp: source_of_def)
  qed
  have "Some i \<in> set dts" using i(1,2) by (metis nth_mem)
  from steadyD(4,5) [OF st live [OF this]] have "ml \<le> 2 ^ 31" using i(3) by (simp add: lengths_def)
  moreover have "ss ! m = Some (i, blocks ml, last_block ml)" using i by (simp add: ss_def source_of_def)
  moreover have "0 < ml" using ml by simp
  note b = blocks_split [OF this]
  ultimately show "at_block ss m (blocks_left ss m) 0"
    using b m unfolding at_block_def by (intro disjI2 exI [of _ 0]) (simp add: blocks_left.simps)
qed

lemma op_starts:
  assumes st: "steady Q w" and ho: "holds_ok w (Op_request cmd srcs) (Sources d dts [])"
    and e: "bitop_turn cmd srcs (Sources d dts []) w = (st', w')"
  shows "moves Q (Op_request cmd srcs) (Sources d dts []) w st' w'"
proof -
  let ?fl = "\<lambda>i. d_length (descs w i)"
  let ?ss = "map (source_of ?fl) dts"
  obtain m ml where fm: "find_max ?fl 0 dts (0, 0) = (m, ml)" by fastforce
  have live: "live w i" if "Some i \<in> set dts" for i
    using held_live [OF ho, of i] that by (auto simp: set_somes split: option.split)
  have d: "dest_ok cmd w d" using ho by (simp add: holds_ok_def)
  have "bitop_turn cmd srcs (Sources d dts []) w =
      (if ml = 0 then depart (somes (d # dts)) 0 else Block d dts m ?ss 0 0 [], w)"
    using op_malloc_done [OF st] by (simp add: bitop_start_def fm)
  then have r: "st' = (if ml = 0 then depart (somes (d # dts)) 0 else Block d dts m ?ss 0 0 [])" "w' = w"
    using e by simp_all
  have wf: "op_wf cmd srcs w st'"
    using started_block [OF st live fm] d by (simp add: r(1))
  have h: "held st' = somes (d # dts)" by (simp add: r(1) del: somes.simps)
  show ?thesis
    using rehold_refl [OF st] wf h by (intro movesI step_ok_held [OF ho]) (simp_all add: r(2) del: somes.simps)
qed

section \<open>Reading a block\<close>

text \<open>One more source of the block is read, or found to be at its end.\<close>

lemma blocks_left_fill:
  assumes "k < length ss"
  shows "blocks_left (ss[k := next_source (ss ! k)]) m = blocks_left ss m - of_bool (m = k)"
    and "m < length ss \<Longrightarrow> last_left (ss[k := next_source (ss ! k)]) m = last_left ss m"
  using assms by (auto simp: blocks_left.simps next_source_def nth_list_update split: option.split)

lemma op_wf_fill:
  assumes wf: "op_wf cmd srcs w (Block d dts m ss offset bits bufs)" and more: "bufs \<noteq> [] \<or> blocks_left ss m \<noteq> 0"
    and k: "length bufs < length ss" and b: "length b = FILE_BUFFER_SIZE" and d: "dest_ok cmd w' d"
  shows "op_wf cmd srcs w' (Block d dts m (ss[length bufs := next_source (ss ! length bufs)]) offset bits (bufs @ [b]))"
proof -
  let ?k = "length bufs" and ?ss = "ss[length bufs := next_source (ss ! length bufs)]"
  have m: "m < length ss" using wf by simp
  note bl = blocks_left_fill [OF k]
  have nz: "?k \<le> m \<Longrightarrow> blocks_left ss m \<noteq> 0" using wf more by auto
  have t: "blocks_left ?ss m + of_bool (m < ?k + 1) = blocks_left ss m + of_bool (m < ?k)"
    using nz by (cases m ?k rule: linorder_cases) (simp_all add: bl(1))
  have "reads_held dts ?ss"
    unfolding reads_held_def
  proof (intro allI impI)
    fix i t r assume "Some (i, t, r) \<in> set ?ss"
    then have "Some (i, t, r) = next_source (ss ! ?k) \<or> Some (i, t, r) \<in> set ss"
      using set_update_subset_insert [of ss ?k "next_source (ss ! ?k)"] by blast
    then obtain t' where "Some (i, t', r) \<in> set ss"
    proof
      assume "Some (i, t, r) = next_source (ss ! ?k)"
      then obtain t' where "ss ! ?k = Some (i, t', r)" by (cases "ss ! ?k") (auto simp: next_source_def)
      then show thesis using that k by (metis nth_mem)
    qed (rule that)
    then show "Some i \<in> set dts \<and> r \<le> FILE_BUFFER_SIZE" using wf by (auto simp: reads_held_def)
  qed
  moreover have "at_block ?ss m (blocks_left ?ss m + of_bool (m < ?k + 1)) offset"
    using wf bl(2) [OF m] unfolding t op_wf.simps at_block_def by simp
  moreover have "m < ?k + 1 \<or> blocks_left ?ss m \<noteq> 0"
    using nz by (cases "m < ?k + 1") (simp_all add: bl(1))
  ultimately show ?thesis using wf k b d by auto
qed

lemma op_reads:
  assumes st: "steady Q w" and ho: "holds_ok w (Op_request cmd srcs) (Block d dts m ss offset bits bufs)"
    and more: "bufs \<noteq> [] \<or> blocks_left ss m \<noteq> 0" and k: "length bufs < length ss"
    and e: "bitop_turn cmd srcs (Block d dts m ss offset bits bufs) w = (st', w')"
  shows "moves Q (Op_request cmd srcs) (Block d dts m ss offset bits bufs) w st' w'"
proof -
  let ?rq = "Op_request cmd srcs" and ?k = "length bufs" and ?st = "Block d dts m ss offset bits bufs"
  have wf: "op_wf cmd srcs w ?st" using ho by (simp add: holds_ok_def)
  then have d: "dest_ok cmd w d" by simp
  have fin: "moves Q ?rq ?st w st' w'"
    if re: "\<And>xs. rehold Q w w' xs xs" and c: "db w' = db w" and b: "length b = FILE_BUFFER_SIZE"
      and s: "st' = Block d dts m (ss[?k := next_source (ss ! ?k)]) offset bits (bufs @ [b])" for b
  proof -
    have "dest_ok cmd w' d"
    proof (rule dest_ok_kept [OF d])
      fix i assume "d = Some i"
      then show "d_hash (descs w' i) = d_hash (descs w i)"
        using reholdD(3) [OF re, of i] held_live [OF ho, of i] by simp
    qed
    from op_wf_fill [OF wf more k b this] show ?thesis
      using re c by (intro movesI step_ok_held [OF ho]) (simp_all add: s)
  qed
  have pad: "length (pad_block []) = FILE_BUFFER_SIZE" by (simp add: pad_block_def)
  have ne: "\<not> (bufs = [] \<and> blocks_left ss m = 0)" using more by blast
  show ?thesis
  proof (cases "ss ! ?k")
    case None
    then have "ss[?k := next_source (ss ! ?k)] = ss" by (metis list_update_id next_source_def option.simps(8))
    then have "st' = Block d dts m (ss[?k := next_source (ss ! ?k)]) offset bits (bufs @ [pad_block []])" "w' = w"
      using e ne k None by auto
    then show ?thesis using fin rehold_refl [OF st] pad by auto
  next
    case (Some x)
    obtain i t r where x: "x = (i, t, r)" by (cases x) auto
    show ?thesis
    proof (cases "t = 0")
      case True
      then have "next_source (ss ! ?k) = ss ! ?k" by (simp add: Some x next_source_def)
      then have "ss[?k := next_source (ss ! ?k)] = ss" by (simp only: list_update_id)
      then have "st' = Block d dts m (ss[?k := next_source (ss ! ?k)]) offset bits (bufs @ [pad_block []])" "w' = w"
        using e ne k Some x True by auto
      then show ?thesis using fin rehold_refl [OF st] pad by auto
    next
      case False
      let ?n = "if t = 1 then r else FILE_BUFFER_SIZE"
      have "Some (i, t, r) \<in> set ss" using Some x k by (metis nth_mem)
      then have i: "Some i \<in> set dts" "r \<le> FILE_BUFFER_SIZE" using wf by (auto simp: reads_held_def)
      then have l: "live w i" using held_live [OF ho, of i] by (auto simp: set_somes split: option.split)
      have "0 < blocks_left ss m + of_bool (m < ?k)" using wf more by auto
      then obtain off where off: "offset = int off" using wf by (auto simp: at_block_def)
      let ?bs = "take ?n (drop off (view w i))"
      obtain v where v: "read_from i ?n offset w = (length ?bs, ?bs, v)"
        using read_keeps [OF st l, where n = ?n and off = off] unfolding off by blast
      have re: "rehold Q w v xs xs" and c: "db v = db w" for xs
        using read_keeps [OF st l, where n = ?n and off = off and xs = xs] v unfolding off by auto
      have "st' = Block d dts m (ss[?k := next_source (ss ! ?k)]) offset bits (bufs @ [pad_block ?bs])" "w' = v"
        using e ne k Some x False v by (simp_all add: next_source_def)
      moreover have "length (pad_block ?bs) = FILE_BUFFER_SIZE" using i(2) by (simp add: pad_block_def)
      ultimately show ?thesis using fin re c by blast
    qed
  qed
qed

section \<open>Combining and writing it\<close>

text \<open>After a block at \<open>offset\<close> of \<open>sz\<close> bytes, with \<open>blocks_left\<close> more to come.\<close>

lemma block_size:
  assumes "at_block ss m (blocks_left ss m + 1) offset"
  defines "sz \<equiv> if blocks_left ss m \<noteq> 0 then FILE_BUFFER_SIZE else last_left ss m"
  shows "0 < sz" and "sz \<le> FILE_BUFFER_SIZE" and "\<exists>k. offset = int k \<and> k + sz \<le> 2 ^ 31"
    and "at_block ss m (blocks_left ss m) (to_int32 (offset + int sz))"
proof -
  obtain k where k: "offset = int k" "0 < last_left ss m" "last_left ss m \<le> FILE_BUFFER_SIZE"
    "k + blocks_left ss m * FILE_BUFFER_SIZE + last_left ss m \<le> 2 ^ 31"
    using assms(1) by (auto simp: at_block_def)
  show "0 < sz" "sz \<le> FILE_BUFFER_SIZE" using k(2,3) by (auto simp: sz_def)
  show "\<exists>k. offset = int k \<and> k + sz \<le> 2 ^ 31"
    using k by (cases "blocks_left ss m") (auto simp: sz_def)
  show "at_block ss m (blocks_left ss m) (to_int32 (offset + int sz))"
  proof (cases "blocks_left ss m")
    case (Suc t)
    then have le: "k + FILE_BUFFER_SIZE + t * FILE_BUFFER_SIZE + last_left ss m \<le> 2 ^ 31" using k(4) by simp
    then have "k + FILE_BUFFER_SIZE < 2 ^ 31" using k(2) by linarith
    then have "to_int32 (offset + int sz) = int (k + FILE_BUFFER_SIZE)"
      using position_id [of "k + FILE_BUFFER_SIZE"] Suc by (simp add: k(1) sz_def)
    then show ?thesis using k(2,3) le Suc unfolding at_block_def by (intro disjI2 exI) auto
  qed (simp add: at_block_def)
qed

lemma op_combines:
  assumes st: "steady Q w" and ho: "holds_ok w (Op_request cmd srcs) (Block d dts m ss offset bits bufs)"
    and k: "length ss \<le> length bufs"
    and e: "bitop_turn cmd srcs (Block d dts m ss offset bits bufs) w = (st', w')"
  shows "moves Q (Op_request cmd srcs) (Block d dts m ss offset bits bufs) w st' w'"
proof -
  let ?rq = "Op_request cmd srcs" and ?st = "Block d dts m ss offset bits bufs"
  have wf: "dest_ok cmd w d" "reads_held dts ss" "m < length ss" "\<forall>b\<in>set bufs. length b = FILE_BUFFER_SIZE"
    "at_block ss m (blocks_left ss m + of_bool (m < length bufs)) offset" using ho by (simp_all add: holds_ok_def)
  have ne: "bufs \<noteq> []" "m < length bufs" using k wf(3) by auto
  define sz where "sz = (if blocks_left ss m \<noteq> 0 then FILE_BUFFER_SIZE else last_left ss m)"
  let ?next = "to_int32 (offset + int sz)" and ?p0 = "combine (bo_option cmd) bufs sz"
  have "at_block ss m (blocks_left ss m + 1) offset" using wf(5) ne(2) by simp
  note sz = block_size [OF this, folded sz_def]
  have "length ?p0 = FILE_BUFFER_SIZE"
    using combine_pointwise [OF ne(1), of sz "bo_option cmd"] wf(4) sz(2) ne(1) by simp
  then have p: "length (take sz ?p0) = sz" using sz(2) by simp
  have r: "w' = w" "st' = (case bo_hook cmd of
        NONE \<Rightarrow> Storing d dts m ss offset ?next bits (take sz ?p0)
      | COUNTOP \<Rightarrow> Block d dts m ss ?next (bits + redisPopcount ?p0 sz) []
      | GETOP \<Rightarrow> Block d dts m ss ?next bits [])"
    using e ne k by (simp_all add: Let_def sz_def split: OP_HOOKS.splits if_splits)
  have "stage_wf ?rq w' st'"
    using wf(1-3) sz p by (cases "bo_hook cmd") (auto simp: r)
  then show ?thesis
    using rehold_refl [OF st] by (intro movesI step_ok_held [OF ho]) (simp_all add: r split: OP_HOOKS.split)
qed

lemma op_stores:
  assumes st: "steady Q w" and ho: "holds_ok w (Op_request cmd srcs) (Storing d dts m ss offset next bits p)"
    and e: "bitop_turn cmd srcs (Storing d dts m ss offset next bits p) w = (st', w')"
  shows "moves Q (Op_request cmd srcs) (Storing d dts m ss offset next bits p) w st' w'"
proof -
  let ?rq = "Op_request cmd srcs" and ?st = "Storing d dts m ss offset next bits p"
  have wf: "op_wf cmd srcs w ?st" using ho by (simp add: holds_ok_def)
  then obtain i where i: "d = Some i" "d_hash (descs w i) = key_hash (bo_key cmd)" "bo_hook cmd = NONE"
    by (auto simp: dest_ok_def)
  obtain k where k: "offset = int k" "k + length p \<le> 2 ^ 31" "p \<noteq> []" using wf by auto
  have l: "live w i" by (rule held_live [OF ho]) (simp add: i(1))
  obtain v where v: "write_to i p offset w = (length p, v)"
    "\<forall>g. g \<noteq> key_hash (bo_key cmd) \<longrightarrow> db v g = db w g"
    using write_keeps [OF st l k(3,2)] i(2) unfolding k(1) by force
  have re: "rehold Q w v xs xs" for xs
    using write_keeps [OF st l k(3,2), of xs] v(1) unfolding k(1) by auto
  have r: "st' = Block d dts m ss next bits []" "w' = v" using e v(1) k(3) by (simp_all add: i(1))
  have "dest_ok cmd v d"
    by (rule dest_ok_kept [of cmd w]) (use wf reholdD(3) [OF re l] in \<open>auto simp: i(1)\<close>)
  then have "stage_wf ?rq w' st'" using wf by (simp add: r)
  then have "step_ok Q ?rq ?st w st' w'" using re by (intro step_ok_held [OF ho]) (simp_all add: r)
  then show ?thesis using v(2) i(3) by (simp add: moves_def r(2))
qed

section \<open>Every turn\<close>

lemma op_moves:
  assumes st: "steady Q w" and q: "Op_request cmd srcs \<in> Q" and ho: "holds_ok w (Op_request cmd srcs) stg"
    and e: "bitop_turn cmd srcs stg w = (st', w')"
  shows "moves Q (Op_request cmd srcs) stg w st' w'"
proof (cases stg)
  case Queued
  then show ?thesis using op_queued [OF st q] ho e by simp
next
  case (Sources d dts keys)
  then show ?thesis using op_source [OF st q, of d dts keys] op_starts [OF st, of cmd srcs d dts] ho e
    by (cases "keys = []") blast+
next
  case (Block d dts m ss offset bits bufs)
  note ho' = ho [unfolded Block] and e' = e [unfolded Block]
  consider (stop) "bufs = []" "blocks_left ss m = 0" | (read) "bufs \<noteq> [] \<or> blocks_left ss m \<noteq> 0" "length bufs < length ss"
    | (combine) "length ss \<le> length bufs"
    by fastforce
  then show ?thesis unfolding Block
  proof cases
    case stop
    have r: "w' = w" "held st' = somes (d # dts)" "op_wf cmd srcs w st'" using e' stop by auto
    then show "moves Q (Op_request cmd srcs) (Block d dts m ss offset bits bufs) w st' w'"
      using rehold_refl [OF st] by (intro movesI step_ok_held [OF ho']) (simp_all del: somes.simps)
  next
    case read
    then show "moves Q (Op_request cmd srcs) (Block d dts m ss offset bits bufs) w st' w'"
      by (rule op_reads [OF st ho' _ _ e'])
  next
    case combine
    then show "moves Q (Op_request cmd srcs) (Block d dts m ss offset bits bufs) w st' w'"
      by (rule op_combines [OF st ho' _ e'])
  qed
next
  case (Storing d dts m ss offset nxt bits p)
  then show ?thesis using op_stores [OF st] ho e by blast
next
  case (Leaving ds r)
  then show ?thesis using leave_step_ok [OF st, of "Op_request cmd srcs" ds r] ho e by (simp add: movesI)
qed (use st ho e moves_same in auto)

lemma count_moves:
  assumes st: "steady Q w" and q: "Count_request key s n \<in> Q" and g: "good_request (Count_request key s n)"
    and ho: "holds_ok w (Count_request key s n) stg" and e: "bitcount_turn key s n stg w = (st', w')"
  shows "moves Q (Count_request key s n) stg w st' w'"
proof (cases stg)
  case Queued
  have "key_hash key \<in> all_hashes Q" by (rule all_hashes_mem [OF q]) simp
  from get_acquires [OF st this] show ?thesis
  proof (elim disjE exE conjE)
    fix i v assume p: "prepare_file key 1 w = (0, Some i, v)" and t: "takes Q w (key_hash key) v i" and c: "db v = db w"
    have r: "st' = Holds i" "w' = v" using e p by (simp_all add: Queued del: One_nat_def)
    then have "step_ok Q (Count_request key s n) stg w st' w'"
      using t by (intro step_okI [OF ho]) (auto simp: Queued takes_def)
    then show ?thesis by (rule movesI) (simp add: r c)
  next
    fix v assume p: "prepare_file key 1 w = (-2, None, v)" and "rehold Q w v [] []" "db v = db w"
    moreover have "st' = Answered 0" "w' = v" using e p by (simp_all add: Queued del: One_nat_def)
    ultimately show ?thesis by (intro movesI step_okI [OF ho]) (auto simp: Queued)
  qed
next
  case (Holds i)
  have l: "live w i" by (rule held_live [OF ho]) (simp add: Holds)
  let ?cmd = "\<lparr>bc_key = key, bc_start = s, bc_end = (case n of None \<Rightarrow> int (d_length (descs w i)) - 1 | Some n \<Rightarrow> n)\<rparr>"
  have "d_length (descs w i) \<le> 2 ^ 31" using steadyD(4,5) [OF st l] by (simp add: lengths_def)
  then have "bc_end ?cmd \<le> LONG_MAX" using g by (auto simp: LONG_MAX_def split: option.split)
  note start = count_starts [OF st l this]
  have "w' = w \<and> held st' = [i] \<and> stage_wf (Count_request key s n) w st'"
  proof (cases "d_length (descs w i) = 0")
    case True
    then show ?thesis using e by (auto simp: Holds)
  next
    case False
    then have b: "bitcount_start ?cmd i w = (st', w')" using e by (simp add: Holds)
    show ?thesis by (rule start) (use b in auto)
  qed
  then show ?thesis using rehold_refl [OF st] by (intro movesI step_okI [OF ho]) (simp_all add: Holds)
next
  case (Counting i remaining off bits)
  have l: "live w i" by (rule held_live [OF ho]) (simp add: Counting)
  have wf: "off + remaining \<le> 2 ^ 31" using ho by (simp add: Counting holds_ok_def)
  show ?thesis
  proof (cases "0 < remaining")
    case True
    let ?n = "if remaining < FILE_BUFFER_SIZE then remaining else FILE_BUFFER_SIZE"
    have o: "to_off off = int off" using wf by (intro to_off_id) simp
    define bs where "bs = take ?n (drop off (view w i))"
    obtain v where v: "read_from i ?n (int off) w = (length bs, bs, v)"
      using read_keeps [OF st l, where n = ?n and off = off] unfolding bs_def by blast
    have re: "rehold Q w v [i] [i]" "db v = db w"
      using read_keeps [OF st l, where n = ?n and off = off and xs = "[i]"] v by auto
    have le: "length bs \<le> remaining" by (auto simp: bs_def)
    have r: "w' = v" "st' = (if length bs = 0 then Leaving [i] (sint bits)
        else Counting i (remaining - length bs) (off + length bs) (bits + redisPopcount bs (length bs)))"
      using e v True by (simp_all add: Counting o Let_def)
    have "w' = v" "held st' = [i]" "stage_wf (Count_request key s n) v st'"
      using wf le unfolding r by (simp_all split: if_split)
    then show ?thesis using re by (intro movesI step_okI [OF ho]) (simp_all add: Counting)
  next
    case False
    then have "st' = Leaving [i] (sint bits)" "w' = w" using e by (simp_all add: Counting)
    then show ?thesis using rehold_refl [OF st] by (intro movesI step_okI [OF ho]) (simp_all add: Counting)
  qed
next
  case (Leaving ds r)
  then show ?thesis using leave_step_ok [OF st, of "Count_request key s n" ds r] ho e by (simp add: movesI)
qed (use st ho e moves_same in auto)

end
