(* ===== verification/WorkersRefs.thy ===== *)
theory WorkersRefs
  imports WorkersOps
begin

text \<open>
  The table of open files under the threads of \<open>Workers\<close>, without any condition on which bytes they
  write: commands that race on one byte may lose a bit, but never a reference count.
\<close>

definition refs_ok :: "request list \<Rightarrow> world \<Rightarrow> workers \<Rightarrow> bool" where
  "refs_ok rs w0 = (\<lambda>(s, w).
     steady (set rs) w \<and> hung w = hung w0 \<and>
     (\<forall>i. d_refs (descs w i) = d_refs (descs w0 i) + of_nat (holders (length rs) s i)) \<and>
     (\<forall>t<length rs. holds_ok w (rs ! t) (s t)))"

text \<open>A step hands the references of its thread on, whatever the other threads hold.\<close>

lemma set_step_ok:
  assumes st: "steady Q w" and q: "Set_request cmd \<in> Q" and g: "good_set cmd"
    and ho: "holds_ok w (Set_request cmd) stg" and e: "setbit_turn cmd stg w = (st', w')"
  shows "step_ok Q (Set_request cmd) stg w st' w'"
proof (cases stg)
  case Queued
  have "key_hash (sb_key cmd) \<in> all_hashes Q" by (rule all_hashes_mem [OF q]) simp
  then obtain i v where "prepare_file (sb_key cmd) 0 w = (0, Some i, v)" and t: "takes Q w (key_hash (sb_key cmd)) v i"
    using set_acquires [OF st] by blast
  then have "st' = Holds i" "w' = v" using e by (simp_all add: Queued)
  then show ?thesis using t by (intro step_okI [OF ho]) (auto simp: Queued takes_def)
next
  case (Holds i)
  have l: "live w i" "d_hash (descs w i) = key_hash (sb_key cmd)" using ho by (simp_all add: Holds holds_ok_def)
  obtain x v where r: "setbit_read cmd i w = (x, v)" "rehold Q w v [i] [i]" using set_reads [OF st l g] by blast
  have "w' = v" "held st' = [i]" using e r(1) by (auto simp: Holds split: sum.splits)
  then show ?thesis using r(2) by (intro step_okI [OF ho]) (simp_all add: Holds)
next
  case (Middle i b bv)
  have l: "live w i" "d_hash (descs w i) = key_hash (sb_key cmd)" using ho by (simp_all add: Middle holds_ok_def)
  obtain v where r: "setbit_write cmd i (b, bv) w = (if bv \<noteq> 0 then 1 else 0, v)" "rehold Q w v [i] [i]"
    using set_writes [OF st l g] by blast
  have "w' = v" "held st' = [i]" using e r(1) by (auto simp: Middle)
  then show ?thesis using r(2) by (intro step_okI [OF ho]) (simp_all add: Middle)
next
  case (Leaving ds r)
  then show ?thesis using leave_step_ok(1) [OF st, of "Set_request cmd" ds r] ho e by simp
qed (use st ho e step_ok_same in auto)

lemma get_step_ok:
  assumes st: "steady Q w" and q: "Get_request cmd \<in> Q" and g: "0 \<le> gb_offset cmd" "gb_offset cmd < 2 ^ 63"
    and ho: "holds_ok w (Get_request cmd) stg" and e: "getbit_turn cmd stg w = (st', w')"
  shows "step_ok Q (Get_request cmd) stg w st' w'"
proof (cases stg)
  case Queued
  have "key_hash (gb_key cmd) \<in> all_hashes Q" by (rule all_hashes_mem [OF q]) simp
  from get_acquires [OF st this] show ?thesis
  proof (elim disjE exE conjE)
    fix i v assume p: "prepare_file (gb_key cmd) 1 w = (0, Some i, v)" and t: "takes Q w (key_hash (gb_key cmd)) v i"
    have "st' = Holds i" "w' = v" using e p by (simp_all add: Queued del: One_nat_def)
    then show ?thesis using t by (intro step_okI [OF ho]) (auto simp: Queued takes_def)
  next
    fix v assume p: "prepare_file (gb_key cmd) 1 w = (-2, None, v)" and "rehold Q w v [] []"
    moreover have "st' = Answered 0" "w' = v" using e p by (simp_all add: Queued del: One_nat_def)
    ultimately show ?thesis by (intro step_okI [OF ho]) (auto simp: Queued)
  qed
next
  case (Holds i)
  have l: "live w i" "d_hash (descs w i) = key_hash (gb_key cmd)" using ho by (simp_all add: Holds holds_ok_def)
  obtain r v where r: "getbitCommand cmd i w = (r, v)" "rehold Q w v [i] [i]" using get_reads [OF st l g] by blast
  have "w' = v" "held st' = [i]" using e r(1) by (auto simp: Holds)
  then show ?thesis using r(2) by (intro step_okI [OF ho]) (simp_all add: Holds)
next
  case (Leaving ds r)
  then show ?thesis using leave_step_ok(1) [OF st, of "Get_request cmd" ds r] ho e by simp
qed (use st ho e step_ok_same in auto)

lemma worker_step_ok:
  assumes "steady Q w" and "rq \<in> Q" and "good_request rq" and "holds_ok w rq st" and "worker_step rq st w = (st', w')"
  shows "step_ok Q rq st w st' w'"
proof (cases rq)
  case (Set_request cmd)
  then show ?thesis using set_step_ok assms by simp
next
  case (Get_request cmd)
  then show ?thesis using get_step_ok assms by simp
next
  case (Count_request key s e)
  then show ?thesis using count_moves assms by (simp add: moves_def)
next
  case (Op_request cmd srcs)
  then show ?thesis using op_moves assms by (simp add: moves_def)
qed

section \<open>The counts\<close>

lemma rehold_counts:
  assumes re: "rehold Q w w' (held (s t)) (held st)" and t: "t < n"
    and refs: "\<And>i. d_refs (descs w i) = d_refs (descs w0 i) + of_nat (holders n s i)"
  shows "d_refs (descs w' i) = d_refs (descs w0 i) + of_nat (holders n (s(t := st)) i)"
proof -
  have "d_refs (descs w' i) + of_nat (count_list (held (s t)) i) = d_refs (descs w i) + of_nat (count_list (held st) i)"
    using re by (simp add: rehold_def)
  also have "\<dots> = d_refs (descs w0 i) + of_nat (holders n s i + count_list (held st) i)"
    by (simp add: refs)
  also have "\<dots> = d_refs (descs w0 i) + of_nat (holders n (s(t := st)) i + count_list (held (s t)) i)"
    by (simp only: holders_upd [OF t])
  finally show ?thesis by simp
qed

lemma refs_ok_step:
  assumes inv: "refs_ok rs w0 (s, w)" and good: "\<forall>rq\<in>set rs. good_request rq" and t: "t < length rs"
    and e: "worker_step (rs ! t) (s t) w = (st, w')"
  shows "refs_ok rs w0 (s(t := st), w')"
proof -
  let ?n = "length rs"
  have mem: "rs ! t \<in> set rs" using t by simp
  have so: "step_ok (set rs) (rs ! t) (s t) w st w'"
    by (rule worker_step_ok [OF _ mem _ _ e]) (use inv good t mem in \<open>auto simp: refs_ok_def\<close>)
  then have re: "rehold (set rs) w w' (held (s t)) (held st)" and ho: "holds_ok w' (rs ! t) st"
    by (simp_all add: step_ok_def)
  have "d_refs (descs w' i) = d_refs (descs w0 i) + of_nat (holders ?n (s(t := st)) i)" for i
    by (rule rehold_counts [where s = s, OF re t]) (use inv in \<open>simp add: refs_ok_def\<close>)
  moreover have "holds_ok w' (rs ! u) ((s(t := st)) u)" if "u < ?n" for u
    using that inv ho holds_ok_kept [of w "rs ! u" "s u" w'] reholdD(3) [OF re] by (auto simp: refs_ok_def)
  ultimately show ?thesis using inv reholdD(1,2) [OF re] by (simp add: refs_ok_def)
qed

lemma refs_ok_turn:
  assumes "refs_ok rs w0 c" and "\<forall>rq\<in>set rs. good_request rq"
  shows "refs_ok rs w0 (turn rs t c)"
proof -
  obtain s w where c: "c = (s, w)" by (cases c)
  show ?thesis
  proof (cases "t < length rs")
    case True
    obtain st w' where e: "worker_step (rs ! t) (s t) w = (st, w')" by (cases "worker_step (rs ! t) (s t) w")
    show ?thesis using refs_ok_step [OF assms(1) [unfolded c] assms(2) True e] True by (simp add: c turn_def e)
  qed (use assms c in \<open>simp add: turn_def\<close>)
qed

lemma holds_ok_queued: "holds_ok w rq Queued"
  by (cases rq) (simp_all add: holds_ok_def)

lemma refs_ok_start:
  assumes "steady (set rs) w"
  shows "refs_ok rs w (\<lambda>_. Queued, w)"
  using assms by (simp add: refs_ok_def holds_ok_queued holders_def)

lemma schedule_keeps_refs:
  assumes "steady (set rs) w" and "\<forall>rq\<in>set rs. good_request rq"
  shows "refs_ok rs w (run_schedule rs sched w)"
proof -
  have "refs_ok rs w (fold (turn rs) sched c)" if "refs_ok rs w c" for c
    using that by (induction sched arbitrary: c) (simp_all add: refs_ok_turn assms(2))
  then show ?thesis using refs_ok_start [OF assms(1)] by (simp add: run_schedule_def)
qed

text \<open>
  The count of a held descriptor is not 0, as long as there are fewer than \<open>2 ^ 32\<close> references: a thread
  has at most \<open>m\<close> of them.
\<close>

lemma holders_pos: "t < n \<Longrightarrow> i \<in> set (held (s t)) \<Longrightarrow> 0 < holders n s i"
proof -
  assume "t < n" "i \<in> set (held (s t))"
  then have "0 < count_list (held (s t)) i" using count_list_0_iff [of "held (s t)" i] by simp
  then show "0 < holders n s i"
    unfolding holders_def using \<open>t < n\<close> by (intro sum_pos2 [of _ t]) simp_all
qed

lemma holders_le:
  assumes "\<And>t. t < n \<Longrightarrow> length (held (s t)) \<le> m"
  shows "holders n s i \<le> m * n"
proof -
  have "holders n s i \<le> (\<Sum>t<n. m)"
    unfolding holders_def by (rule sum_mono) (use assms count_le_length order_trans in \<open>fastforce\<close>)
  then show ?thesis by (simp add: mult.commute)
qed

lemma holders_nonzero:
  assumes "0 < k" and "k \<le> n" and "n < 2 ^ 32"
  shows "of_nat k \<noteq> (0 :: u32)"
  using assms by (simp add: word_of_nat_eq_0_iff nat_dvd_not_less)

end
