(* ===== verification/WorkersBits.thy ===== *)
theory WorkersBits
  imports WorkersRefs
begin

text \<open>
  What threads can find in a bit and leave in it, however they race: the value it had, or one that a
  SETBIT command writes to this very bit. A lost update loses a value, but never makes one up, and a
  bit that no command writes does not change. Of the destination of a BITOP nothing is said.
\<close>

section \<open>The values of bits\<close>

text \<open>The old value of bit \<open>p\<close> of the key, or one that a request of \<open>Q\<close> writes there.\<close>

definition told :: "request set \<Rightarrow> world \<Rightarrow> u64 \<Rightarrow> nat \<Rightarrow> int set" where
  "told Q w h p =
     insert (of_bool (cell_bit w h p))
       ({sb_value cmd | cmd. Set_request cmd \<in> Q \<and> key_hash (sb_key cmd) = h \<and> position_in cmd = p} \<union>
        (if h \<in> dest_hashes Q then {0, 1} else {}))"

lemma told_dest: "h \<in> dest_hashes Q \<Longrightarrow> of_bool b \<in> told Q w h p"
  by (cases b) (simp_all add: told_def)

lemma written_byte:
  assumes "b = 0" and "sb_value cmd = 0"
  shows "new_bit cmd b = b" and "\<not> bit b k"
  using assms by (simp_all add: new_bit_def put_bit_def)

lemma read_bit:
  "(if b AND push_bit (7 - p mod 8) 1 \<noteq> (0 :: byte) then 1 else 0) = (of_bool (bit b (7 - p mod 8)) :: int)"
  using and_bit_iff [of "7 - p mod 8" b] by simp

text \<open>The two commands on single bits, and the bit that they are about.\<close>

primrec on_bit :: "request \<Rightarrow> bool" where
  "on_bit (Set_request cmd) \<longleftrightarrow> True"
| "on_bit (Get_request cmd) \<longleftrightarrow> True"
| "on_bit (Count_request key s e) \<longleftrightarrow> False"
| "on_bit (Op_request cmd srcs) \<longleftrightarrow> False"

primrec request_bit :: "request \<Rightarrow> nat" where
  "request_bit (Set_request cmd) = position_in cmd"
| "request_bit (Get_request cmd) = nat (gb_offset cmd)"
| "request_bit (Count_request key s e) = 0"
| "request_bit (Op_request cmd srcs) = 0"

definition bits_ok :: "request set \<Rightarrow> world \<Rightarrow> world \<Rightarrow> bool" where
  "bits_ok Q w0 w \<longleftrightarrow> (\<forall>h p. of_bool (cell_bit w h p) \<in> told Q w0 h p)"

primrec bit_stage :: "request set \<Rightarrow> world \<Rightarrow> request \<Rightarrow> stage \<Rightarrow> bool" where
  "bit_stage Q w0 rq Queued \<longleftrightarrow> True"
| "bit_stage Q w0 rq (Holds i) \<longleftrightarrow> True"
| "bit_stage Q w0 rq (Middle i b bv) \<longleftrightarrow>
     (\<forall>p. p div 8 = request_bit rq div 8 \<longrightarrow> of_bool (bit b (7 - p mod 8)) \<in> told Q w0 (request_hash rq) p) \<and>
     bv = b AND push_bit (7 - request_bit rq mod 8) 1"
| "bit_stage Q w0 rq (Counting i remaining off bits) \<longleftrightarrow> False"
| "bit_stage Q w0 rq (Sources d dts keys) \<longleftrightarrow> False"
| "bit_stage Q w0 rq (Block d dts m ss offset bits bufs) \<longleftrightarrow> False"
| "bit_stage Q w0 rq (Storing d dts m ss offset next bits p) \<longleftrightarrow> False"
| "bit_stage Q w0 rq (Leaving ds r) \<longleftrightarrow> r \<in> told Q w0 (request_hash rq) (request_bit rq)"
| "bit_stage Q w0 rq (Answered r) \<longleftrightarrow> r \<in> told Q w0 (request_hash rq) (request_bit rq)"

definition stage_told :: "request set \<Rightarrow> world \<Rightarrow> request \<Rightarrow> stage \<Rightarrow> bool" where
  "stage_told Q w0 rq st \<longleftrightarrow> (on_bit rq \<longrightarrow> bit_stage Q w0 rq st)"

lemma bits_ok_start: "bits_ok Q w w"
  by (simp add: bits_ok_def told_def)

lemma bits_ok_cell: "bits_ok Q w0 w \<Longrightarrow> cell w' = cell w \<Longrightarrow> bits_ok Q w0 w'"
  by (simp add: bits_ok_def cell_bit_cell)

lemma bits_ok_moves:
  assumes "bits_ok Q w0 w" and "moves Q rq st w st' w'" and "rq \<in> Q"
  shows "bits_ok Q w0 w'"
  unfolding bits_ok_def
proof (intro allI)
  fix h p
  show "of_bool (cell_bit w' h p) \<in> told Q w0 h p"
  proof (cases "h \<in> dest_hashes Q")
    case False
    then have "cell w' h k = cell w h k" for k using moves_cell [OF assms(2)] dest_hashes_mem [OF assms(3)] by blast
    then show ?thesis using assms(1) by (simp add: bits_ok_def cell_bit_cell)
  qed (rule told_dest)
qed

text \<open>Writing back a byte whose bits are all allowed, with one of them replaced.\<close>

lemma written_bits:
  assumes ok: "bits_ok Q w0 w" and q: "Set_request cmd \<in> Q" and g: "good_set cmd"
    and b: "\<And>p. p div 8 = position_in cmd div 8 \<Longrightarrow>
      of_bool (bit b (7 - p mod 8)) \<in> told Q w0 (key_hash (sb_key cmd)) p"
    and w': "\<And>h k. cell w' h k =
      (if h = key_hash (sb_key cmd) \<and> k = position_in cmd div 8 then new_bit cmd b else cell w h k)"
  shows "bits_ok Q w0 w'"
  unfolding bits_ok_def
proof (intro allI)
  fix h p
  show "of_bool (cell_bit w' h p) \<in> told Q w0 h p"
  proof (cases "h = key_hash (sb_key cmd) \<and> p div 8 = position_in cmd div 8")
    case True
    have "7 - p mod 8 < 8" "7 - position_in cmd mod 8 < 8" by simp_all
    then have n: "cell_bit w' h p = (if p = position_in cmd then sb_value cmd = 1 else bit b (7 - p mod 8))"
      using True same_bit_iff [of p "position_in cmd"] by (simp add: cell_bit_cell w' new_bit_def bit_put_bit)
    show ?thesis
    proof (cases "p = position_in cmd")
      case True
      have "of_bool (sb_value cmd = 1) = sb_value cmd" using good_set_range(4) [OF g] by auto
      then show ?thesis using n True q \<open>h = _ \<and> _\<close> by (auto simp: told_def)
    qed (use n b [of p] True in simp)
  next
    case False
    then have "cell_bit w' h p = cell_bit w h p" by (auto simp: cell_bit_cell w')
    then show ?thesis using ok by (simp add: bits_ok_def)
  qed
qed

section \<open>Every turn\<close>

lemma set_told:
  assumes st: "steady Q w" and q: "Set_request cmd \<in> Q" and g: "good_set cmd"
    and ho: "holds_ok w (Set_request cmd) stg" and e: "setbit_turn cmd stg w = (st', w')"
    and bits: "bits_ok Q w0 w" and old: "bit_stage Q w0 (Set_request cmd) stg"
  shows "bits_ok Q w0 w' \<and> bit_stage Q w0 (Set_request cmd) st'"
proof -
  let ?h = "key_hash (sb_key cmd)" and ?p = "position_in cmd"
  have now: "of_bool (cell_bit w g p) \<in> told Q w0 g p" for g p using bits by (simp add: bits_ok_def)
  note rh = request_hash_def
  show ?thesis
  proof (cases stg)
    case Queued
    have h: "?h \<in> all_hashes Q" by (rule all_hashes_mem [OF q]) simp
    obtain i v where "prepare_file (sb_key cmd) 0 w = (0, Some i, v)" "cell v = cell w"
      using set_acquires [OF st h] unfolding takes_def by blast
    then show ?thesis using e bits_ok_cell [OF bits] by (auto simp: Queued)
  next
    case (Holds i)
    let ?b = "cell w ?h (?p div 8)"
    have l: "live w i" "d_hash (descs w i) = ?h" using ho by (simp_all add: Holds holds_ok_def)
    obtain x v where r: "setbit_read cmd i w = (x, v)" "cell v = cell w"
      "x = Inr (?b, ?b AND push_bit (7 - ?p mod 8) 1) \<or> x = Inl 0 \<and> ?b = 0 \<and> sb_value cmd = 0"
      using set_reads [OF st l g] by blast
    have b: "of_bool (bit ?b (7 - p mod 8)) \<in> told Q w0 ?h p" if "p div 8 = ?p div 8" for p
      using now [of ?h p] that by (simp add: cell_bit_cell)
    have w': "bits_ok Q w0 w'" using e r(1,2) bits_ok_cell [OF bits] by (auto simp: Holds split: sum.splits)
    from r(3) show ?thesis
    proof
      assume x: "x = Inr (?b, ?b AND push_bit (7 - ?p mod 8) 1)"
      then have "st' = Middle i ?b (?b AND push_bit (7 - ?p mod 8) 1)" using e r(1) by (simp add: Holds)
      then show ?thesis using b w' by (simp add: rh)
    next
      assume x: "x = Inl 0 \<and> ?b = 0 \<and> sb_value cmd = 0"
      then have "st' = Leaving [i] 0" using e r(1) by (simp add: Holds)
      then show ?thesis using b [of ?p] x w' by (simp add: rh)
    qed
  next
    case (Middle i b bv)
    have l: "live w i" "d_hash (descs w i) = ?h" using ho by (simp_all add: Middle holds_ok_def)
    obtain v where r: "setbit_write cmd i (b, bv) w = (if bv \<noteq> 0 then 1 else 0, v)"
      "\<forall>g k. cell v g k = (if g = ?h \<and> k = ?p div 8 then new_bit cmd b else cell w g k)"
      using set_writes [OF st l g] by blast
    have b: "of_bool (bit b (7 - p mod 8)) \<in> told Q w0 ?h p" if "p div 8 = ?p div 8" for p
      using old that by (simp add: Middle rh)
    have "bits_ok Q w0 v" by (rule written_bits [OF bits q g b]) (use r(2) in simp_all)
    moreover have "w' = v" "st' = Leaving [i] (of_bool (bit b (7 - ?p mod 8)))"
      using e r(1) old read_bit [of b ?p] by (auto simp: Middle)
    ultimately show ?thesis using b [of ?p] by (simp add: rh)
  next
    case (Leaving ds r)
    have "cell w' = cell w" "st' = depart (tl ds) r"
      using leave_step_ok(2) [OF st, of "Set_request cmd" ds r] ho e by (simp_all add: Leaving leave_def)
    then show ?thesis using old bits_ok_cell [OF bits] by (simp add: Leaving depart_def)
  next
    case (Answered r)
    then show ?thesis using e bits old by auto
  qed (use old in simp_all)
qed

lemma get_told:
  assumes st: "steady Q w" and q: "Get_request cmd \<in> Q" and g: "0 \<le> gb_offset cmd" "gb_offset cmd < 2 ^ 63"
    and ho: "holds_ok w (Get_request cmd) stg" and e: "getbit_turn cmd stg w = (st', w')"
    and bits: "bits_ok Q w0 w" and old: "bit_stage Q w0 (Get_request cmd) stg"
  shows "bits_ok Q w0 w' \<and> bit_stage Q w0 (Get_request cmd) st'"
proof -
  let ?h = "key_hash (gb_key cmd)" and ?p = "nat (gb_offset cmd)"
  have now: "of_bool (cell_bit w ?h p) \<in> told Q w0 ?h p" for p using bits by (simp add: bits_ok_def)
  note rh = request_hash_def
  show ?thesis
  proof (cases stg)
    case Queued
    have zero: "0 \<in> told Q w0 ?h ?p" if "\<forall>p. \<not> cell_bit w ?h p" using now [of ?p] that by simp
    have "?h \<in> all_hashes Q" by (rule all_hashes_mem [OF q]) simp
    from get_acquires [OF st this] show ?thesis
      using e bits_ok_cell [OF bits] zero by (auto simp: Queued takes_def rh simp del: One_nat_def)
  next
    case (Holds i)
    have l: "live w i" "d_hash (descs w i) = ?h" using ho by (simp_all add: Holds holds_ok_def)
    obtain v where r: "getbitCommand cmd i w = (of_bool (cell_bit w ?h ?p), v)" "cell v = cell w"
      using get_reads [OF st l g] by blast
    then have "w' = v" "st' = Leaving [i] (of_bool (cell_bit w ?h ?p))" using e by (simp_all add: Holds)
    then show ?thesis using now bits_ok_cell [OF bits r(2)] by (simp add: rh)
  next
    case (Leaving ds r)
    have "cell w' = cell w" "st' = depart (tl ds) r"
      using leave_step_ok(2) [OF st, of "Get_request cmd" ds r] ho e by (simp_all add: Leaving leave_def)
    then show ?thesis using old bits_ok_cell [OF bits] by (simp add: Leaving depart_def)
  qed (use e bits old in auto)
qed

lemma step_told:
  assumes st: "steady Q w" and q: "rq \<in> Q" and good: "good_request rq" and ho: "holds_ok w rq stg"
    and e: "worker_step rq stg w = (st', w')" and bits: "bits_ok Q w0 w" and old: "stage_told Q w0 rq stg"
  shows "bits_ok Q w0 w' \<and> stage_told Q w0 rq st'"
proof (cases rq)
  case (Set_request cmd)
  then show ?thesis using set_told [OF st, of cmd stg st' w' w0] q good ho e bits old by (simp add: stage_told_def)
next
  case (Get_request cmd)
  then show ?thesis using get_told [OF st, of cmd stg st' w' w0] q good ho e bits old by (simp add: stage_told_def)
next
  case (Count_request key s n)
  have "moves Q rq stg w st' w'" using count_moves [OF st] q good ho e by (simp add: Count_request)
  then show ?thesis using bits_ok_moves [OF bits _ q] by (simp add: stage_told_def Count_request)
next
  case (Op_request cmd srcs)
  have "moves Q rq stg w st' w'" using op_moves [OF st] q ho e by (simp add: Op_request)
  then show ?thesis using bits_ok_moves [OF bits _ q] by (simp add: stage_told_def Op_request)
qed

end
