(* ===== verification/Net.thy ===== *)
theory Net
  imports Reply "HOL-Library.Sublist"
begin

text \<open>
  \<open>net.c\<close>: one connection. The callbacks are functions on the connection; what the loop of libuv
  guarantees (one \<open>after_work_cb\<close> per queued request, one \<open>on_write\<close> per write, no reads after a
  close) is the step function on events. Each event carries how the calls in its callback fare.
\<close>

section \<open>The connection and its callbacks\<close>

definition RBUF_INIT_CAP :: nat where "RBUF_INIT_CAP = 4096"
definition RBUF_MAX_CAP :: nat where "RBUF_MAX_CAP = 65536"
definition READ_CHUNK :: nat where "READ_CHUNK = 4096"

text \<open>
  \<open>struct conn_t\<close>, \<open>c_rbuf\<close> being the first \<open>rlen\<close> bytes of the buffer; \<open>c_closes\<close> counts the calls of
  \<open>uv_close\<close> and \<open>c_queued\<close> lists the lines given to \<open>uv_queue_work\<close>.
\<close>

record conn_t =
  c_rbuf :: "byte list"
  c_rcap :: nat
  c_busy :: bool
  c_closing :: bool
  c_closes :: nat
  c_queued :: "byte list list"

text \<open>The connection that \<open>on_connection\<close> leaves when every call succeeds.\<close>

definition new_conn :: conn_t where
  "new_conn = \<lparr>c_rbuf = [], c_rcap = RBUF_INIT_CAP, c_busy = False, c_closing = False, c_closes = 0,
     c_queued = []\<rparr>"

text \<open>
  \<open>on_connection\<close>, with how its calls fare: \<open>None\<close> when the connection is given up before it is
  accepted; a connection that could not be accepted or read from is closed at once.
\<close>

definition on_connection :: "bool \<Rightarrow> bool \<Rightarrow> bool \<Rightarrow> bool \<Rightarrow> bool \<Rightarrow> bool \<Rightarrow> conn_t option" where
  "on_connection status_ok calloc_ok malloc_ok init_ok accept_ok read_ok =
     (if \<not> status_ok then None
      else if \<not> calloc_ok then None
      else if \<not> malloc_ok then None
      else if \<not> init_ok then None
      else if accept_ok
           then (if read_ok then Some new_conn else Some (new_conn\<lparr>c_closes := c_closes new_conn + 1\<rparr>))
           else Some (new_conn\<lparr>c_closes := c_closes new_conn + 1\<rparr>))"

text \<open>The size of the buffer given to libuv; 0 makes it report an error to \<open>on_read\<close>.\<close>

definition alloc_cb :: "bool \<Rightarrow> nat" where
  "alloc_cb malloc_ok = (if \<not> malloc_ok then 0 else READ_CHUNK)"

definition maybe_close :: "conn_t \<Rightarrow> conn_t" where
  "maybe_close c = (if c_closing c \<and> \<not> c_busy c then c\<lparr>c_closes := c_closes c + 1\<rparr> else c)"

text \<open>\<open>ok\<close>: the three allocations succeed.\<close>

definition dispatch_line :: "bool \<Rightarrow> byte list \<Rightarrow> conn_t \<Rightarrow> conn_t" where
  "dispatch_line ok line c =
     (if ok then c\<lparr>c_busy := True, c_queued := c_queued c @ [line]\<rparr>
      else maybe_close (c\<lparr>c_closing := True\<rparr>))"

text \<open>\<open>memchr(s, '\n', n)\<close>: the length of the line that it ends.\<close>

definition find_nl :: "byte list \<Rightarrow> nat option" where
  "find_nl s = (if 10 \<in> set s then Some (length (takeWhile (\<lambda>b. b \<noteq> 10) s)) else None)"

lemma dispatch_line_rbuf [simp]: "c_rbuf (dispatch_line ok line c) = c_rbuf c"
  by (simp add: dispatch_line_def maybe_close_def)

lemma line_shorter: "10 \<in> set s \<Longrightarrow> length (takeWhile (\<lambda>b. b \<noteq> 10) s) < length (s :: byte list)"
  by (induction s) auto

lemma find_nl_less: "find_nl s = Some n \<Longrightarrow> n < length s"
  by (auto simp: find_nl_def line_shorter split: if_splits)

text \<open>The dispatch loop of \<open>on_read\<close>, with the scan position.\<close>

function dispatch_loop :: "bool \<Rightarrow> conn_t \<Rightarrow> nat \<Rightarrow> conn_t \<times> nat" where
  "dispatch_loop ok c scan =
     (if \<not> c_busy c \<and> \<not> c_closing c
      then (case find_nl (drop scan (c_rbuf c)) of
              None \<Rightarrow> (c, scan)
            | Some llen \<Rightarrow>
                dispatch_loop ok (dispatch_line ok (take llen (drop scan (c_rbuf c))) c) (scan + llen + 1))
      else (c, scan))"
  by pat_completeness auto
termination
  by (relation "measure (\<lambda>(ok, c, scan). length (c_rbuf c) - scan)") (auto dest: find_nl_less)

declare dispatch_loop.simps [simp del]

definition consume :: "nat \<Rightarrow> conn_t \<Rightarrow> conn_t" where
  "consume scan c = (if 0 < scan then c\<lparr>c_rbuf := drop scan (c_rbuf c)\<rparr> else c)"

text \<open>\<open>nread < 0\<close>, \<open>nread == 0\<close>, or the bytes read.\<close>

datatype read_result = Read_error | Read_nothing | Read_data "byte list"

definition on_read :: "read_result \<Rightarrow> bool \<Rightarrow> bool \<Rightarrow> conn_t \<Rightarrow> conn_t option" where
  "on_read res realloc_ok dispatch_ok c =
     (case res of
        Read_error \<Rightarrow> Some (maybe_close (c\<lparr>c_closing := True\<rparr>))
      | Read_nothing \<Rightarrow> Some c
      | Read_data bs \<Rightarrow>
          (let append = (\<lambda>c. let c = c\<lparr>c_rbuf := c_rbuf c @ bs\<rparr>;
                                 (c, scan) = dispatch_loop dispatch_ok c 0
                             in consume scan c)
           in if c_rcap c < length (c_rbuf c) + length bs
              then (case grow_cap (length (c_rbuf c) + length bs) (c_rcap c) of
                      None \<Rightarrow> None
                    | Some ncap \<Rightarrow>
                        if RBUF_MAX_CAP < ncap then Some (maybe_close (c\<lparr>c_closing := True\<rparr>))
                        else if \<not> realloc_ok then Some (maybe_close (c\<lparr>c_closing := True\<rparr>))
                        else Some (append (c\<lparr>c_rcap := ncap\<rparr>)))
              else Some (append c)))"

definition try_dispatch_next :: "bool \<Rightarrow> conn_t \<Rightarrow> conn_t" where
  "try_dispatch_next ok c =
     (if c_closing c then maybe_close c
      else if c_busy c then c
      else case find_nl (c_rbuf c) of
             None \<Rightarrow> c
           | Some llen \<Rightarrow>
               (let c = dispatch_line ok (take llen (c_rbuf c)) c
                in c\<lparr>c_rbuf := drop (llen + 1) (c_rbuf c)\<rparr>))"

text \<open>The flag says whether a write was started.\<close>

definition after_work_cb :: "bool \<Rightarrow> bool \<Rightarrow> byte list \<Rightarrow> bool \<Rightarrow> conn_t \<Rightarrow> bool \<times> conn_t" where
  "after_work_cb status_ok oom resp write_ok c =
     (if \<not> status_ok \<or> c_closing c \<or> oom \<or> resp = [] then (False, maybe_close (c\<lparr>c_busy := False\<rparr>))
      else if \<not> write_ok then (False, maybe_close (c\<lparr>c_busy := False, c_closing := True\<rparr>))
      else (True, c))"

definition on_write :: "bool \<Rightarrow> bool \<Rightarrow> conn_t \<Rightarrow> conn_t" where
  "on_write status_ok dispatch_ok c =
     (let c = c\<lparr>c_busy := False\<rparr>
      in if \<not> status_ok then maybe_close (c\<lparr>c_closing := True\<rparr>)
         else try_dispatch_next dispatch_ok c)"

section \<open>Events\<close>

text \<open>What is in flight for the connection.\<close>

datatype phase = Idle | Working "byte list" | Writing "byte list" "byte list"

record net =
  n_conn :: conn_t
  n_phase :: phase
  n_input :: "byte list"
  n_replies :: "(byte list \<times> byte list) list"

datatype event =
    Recv read_result bool bool
  | Work_done bool bool "byte list" bool
  | Write_done bool bool

definition init_net :: net where
  "init_net = \<lparr>n_conn = new_conn, n_phase = Idle, n_input = [], n_replies = []\<rparr>"

text \<open>The phase after a callback that may have queued a line.\<close>

definition next_phase :: "conn_t \<Rightarrow> conn_t \<Rightarrow> phase \<Rightarrow> phase" where
  "next_phase c c' ph = (if length (c_queued c) < length (c_queued c') then Working (last (c_queued c')) else ph)"

text \<open>
  One event; \<open>None\<close> when it cannot happen. \<open>n_input\<close> collects the bytes that were read, \<open>n_replies\<close>
  the lines with the replies that were written.
\<close>

definition net_step :: "event \<Rightarrow> net \<Rightarrow> net option" where
  "net_step e s =
     (case e of
        Recv res realloc_ok dispatch_ok \<Rightarrow>
          if c_closes (n_conn s) \<noteq> 0 then None
          else (case on_read res realloc_ok dispatch_ok (n_conn s) of
                  None \<Rightarrow> None
                | Some c \<Rightarrow>
                    Some (s\<lparr>n_conn := c, n_phase := next_phase (n_conn s) c (n_phase s),
                      n_input := n_input s @ (case res of Read_data bs \<Rightarrow> bs | _ \<Rightarrow> [])\<rparr>))
      | Work_done status_ok oom resp write_ok \<Rightarrow>
          (case n_phase s of
             Working line \<Rightarrow>
               (let (wr, c) = after_work_cb status_ok oom resp write_ok (n_conn s)
                in Some (s\<lparr>n_conn := c, n_phase := if wr then Writing line resp else Idle\<rparr>))
           | _ \<Rightarrow> None)
      | Write_done status_ok dispatch_ok \<Rightarrow>
          (case n_phase s of
             Writing line resp \<Rightarrow>
               (let c = on_write status_ok dispatch_ok (n_conn s)
                in Some (s\<lparr>n_conn := c, n_phase := next_phase (n_conn s) c Idle,
                     n_replies := n_replies s @ (if status_ok then [(line, resp)] else [])\<rparr>))
           | _ \<Rightarrow> None))"

text \<open>States that events of a kind \<open>P\<close> lead to.\<close>

inductive reaches :: "(event \<Rightarrow> bool) \<Rightarrow> net \<Rightarrow> bool" for P where
  start: "reaches P init_net"
| event: "reaches P s \<Longrightarrow> P e \<Longrightarrow> net_step e s = Some s' \<Longrightarrow> reaches P s'"

inductive_cases reachesE: "reaches P s"

section \<open>One line at a time\<close>

lemma find_nl_Some:
  assumes "find_nl s = Some n"
  shows "s = take n s @ 10 # drop (n + 1) s" and "10 \<notin> set (take n s)"
proof -
  have n: "n = length (takeWhile (\<lambda>b. b \<noteq> 10) s)" and "10 \<in> set s" using assms by (auto simp: find_nl_def split: if_splits)
  have tk: "take n s = takeWhile (\<lambda>b. b \<noteq> 10) s" unfolding n by (metis takeWhile_eq_take)
  have "s ! n = 10" unfolding n using line_shorter [OF \<open>10 \<in> set s\<close>] nth_length_takeWhile [of "\<lambda>b. b \<noteq> 10" s] by blast
  then show "s = take n s @ 10 # drop (n + 1) s"
    using find_nl_less [OF assms] by (metis Suc_eq_plus1 id_take_nth_drop)
  show "10 \<notin> set (take n s)" unfolding tk by (auto dest: set_takeWhileD)
qed

lemma find_nl_None: "find_nl s = None \<longleftrightarrow> 10 \<notin> set s"
  by (simp add: find_nl_def)

lemma find_nl_line: "10 \<notin> set l \<Longrightarrow> find_nl (l @ 10 # rest) = Some (length l)"
  by (induction l) (auto simp: find_nl_def)

lemma dispatch_line_stops: "c_busy (dispatch_line ok line c) \<or> c_closing (dispatch_line ok line c)"
  by (simp add: dispatch_line_def maybe_close_def)

text \<open>The loop of \<open>on_read\<close> dispatches at most one line.\<close>

lemma dispatch_loop_once:
  "dispatch_loop ok c 0 =
    (if c_busy c \<or> c_closing c then (c, 0)
     else case find_nl (c_rbuf c) of
            None \<Rightarrow> (c, 0)
          | Some n \<Rightarrow> (dispatch_line ok (take n (c_rbuf c)) c, n + 1))"
proof -
  have stop: "dispatch_loop ok (dispatch_line ok l c) k = (dispatch_line ok l c, k)" for l k
    using dispatch_line_stops [of ok l c] by (subst dispatch_loop.simps) auto
  show ?thesis by (subst dispatch_loop.simps) (auto simp: stop split: option.split)
qed

text \<open>What a callback that may dispatch does with the buffer.\<close>

definition take_line :: "bool \<Rightarrow> conn_t \<Rightarrow> conn_t" where
  "take_line ok c =
     (if c_busy c \<or> c_closing c then c
      else case find_nl (c_rbuf c) of
             None \<Rightarrow> c
           | Some n \<Rightarrow> (dispatch_line ok (take n (c_rbuf c)) c)\<lparr>c_rbuf := drop (n + 1) (c_rbuf c)\<rparr>)"

lemma on_read_take_line:
  "(let (c, scan) = dispatch_loop ok c 0 in consume scan c) = take_line ok c"
  by (auto simp: dispatch_loop_once take_line_def consume_def split: option.split)

lemma try_dispatch_take_line:
  "try_dispatch_next ok c = (if c_closing c then maybe_close c else take_line ok c)"
  by (auto simp: try_dispatch_next_def take_line_def Let_def split: option.split)

section \<open>Invariant\<close>

definition framed :: "byte list list \<Rightarrow> byte list" where
  "framed ls = concat (map (\<lambda>l. l @ [10]) ls)"

definition cap_ok :: "conn_t \<Rightarrow> bool" where
  "cap_ok c \<longleftrightarrow> RBUF_INIT_CAP \<le> c_rcap c \<and> c_rcap c \<le> RBUF_MAX_CAP \<and> length (c_rbuf c) \<le> c_rcap c"

definition close_ok :: "conn_t \<Rightarrow> bool" where
  "close_ok c \<longleftrightarrow> c_closes c \<le> 1 \<and> (c_closes c = 1 \<longrightarrow> c_closing c \<and> \<not> c_busy c)"

definition frame_ok :: "conn_t \<Rightarrow> byte list \<Rightarrow> bool" where
  "frame_ok c input \<longleftrightarrow>
     (\<exists>rest. input = framed (c_queued c) @ rest \<and> (\<not> c_closing c \<longrightarrow> rest = c_rbuf c)) \<and>
     (\<forall>l\<in>set (c_queued c). 10 \<notin> set l)"

definition in_flight :: "phase \<Rightarrow> byte list list" where
  "in_flight ph = (case ph of Idle \<Rightarrow> [] | Working l \<Rightarrow> [l] | Writing l r \<Rightarrow> [l])"

definition order_ok :: "net \<Rightarrow> bool" where
  "order_ok s \<longleftrightarrow> subseq (map fst (n_replies s) @ in_flight (n_phase s)) (c_queued (n_conn s))"

definition net_inv :: "net \<Rightarrow> bool" where
  "net_inv s \<longleftrightarrow>
     cap_ok (n_conn s) \<and> close_ok (n_conn s) \<and> frame_ok (n_conn s) (n_input s) \<and> order_ok s \<and>
     (c_busy (n_conn s) \<longleftrightarrow> n_phase s \<noteq> Idle)"

lemma framed_simps [simp]: "framed [] = []" "framed (ls @ ms) = framed ls @ framed ms" "framed [l] = l @ [10]"
  by (simp_all add: framed_def)

lemma subseq_snoc: "subseq xs ys \<Longrightarrow> subseq (xs @ [z]) (ys @ [z])"
  by simp

lemma take_line_cases:
  obtains (same) "take_line ok c = c"
  | (queued) l rest where "\<not> c_busy c" "\<not> c_closing c" "c_rbuf c = l @ 10 # rest" "10 \<notin> set l"
      "take_line ok c = c\<lparr>c_rbuf := rest, c_busy := True, c_queued := c_queued c @ [l]\<rparr>"
  | (failed) rest where "\<not> c_busy c" "\<not> c_closing c" "length rest \<le> length (c_rbuf c)"
      "take_line ok c = c\<lparr>c_rbuf := rest, c_closing := True, c_closes := c_closes c + 1\<rparr>"
proof (cases "c_busy c \<or> c_closing c \<or> find_nl (c_rbuf c) = None")
  case True
  then show thesis using same by (auto simp: take_line_def)
next
  case False
  then obtain n where n: "find_nl (c_rbuf c) = Some n" "\<not> c_busy c" "\<not> c_closing c" by auto
  note f = find_nl_Some [OF n(1)]
  show thesis
  proof (cases ok)
    case True
    show thesis by (rule queued [OF n(2,3) f]) (use n True in \<open>simp add: take_line_def dispatch_line_def\<close>)
  next
    case False
    show thesis
      by (rule failed [OF n(2,3), of "drop (n + 1) (c_rbuf c)"])
        (use n False in \<open>simp_all add: take_line_def dispatch_line_def maybe_close_def\<close>)
  qed
qed

text \<open>The part of the invariant on a connection with a phase, input and list of answered lines.\<close>

definition conn_inv :: "conn_t \<Rightarrow> phase \<Rightarrow> byte list \<Rightarrow> byte list list \<Rightarrow> bool" where
  "conn_inv c ph input ans \<longleftrightarrow>
     cap_ok c \<and> close_ok c \<and> frame_ok c input \<and> subseq (ans @ in_flight ph) (c_queued c) \<and>
     (c_busy c \<longleftrightarrow> ph \<noteq> Idle)"

lemma net_inv_conn: "net_inv s = conn_inv (n_conn s) (n_phase s) (n_input s) (map fst (n_replies s))"
  by (simp add: net_inv_def conn_inv_def order_ok_def conj_ac)

lemma take_line_inv:
  assumes "conn_inv c ph input ans"
  shows "conn_inv (take_line ok c) (next_phase c (take_line ok c) ph) input ans"
proof (cases rule: take_line_cases [of ok c])
  case same
  then show ?thesis using assms by (simp add: next_phase_def)
next
  case (queued l rest)
  then have "ph = Idle" using assms by (simp add: conn_inv_def)
  then show ?thesis using assms queued
    by (auto simp: conn_inv_def next_phase_def cap_ok_def close_ok_def frame_ok_def in_flight_def intro: subseq_snoc)
next
  case (failed rest)
  then show ?thesis using assms
    by (auto simp: conn_inv_def next_phase_def cap_ok_def close_ok_def frame_ok_def)
qed

lemma closing_inv:
  assumes "conn_inv c ph input ans" and "c_closes c = 0"
  shows "conn_inv (maybe_close (c\<lparr>c_closing := True\<rparr>)) ph (input @ extra) ans"
  using assms by (auto simp: conn_inv_def maybe_close_def cap_ok_def close_ok_def frame_ok_def)

lemma maybe_close_queued [simp]: "c_queued (maybe_close c) = c_queued c"
  by (simp add: maybe_close_def)

lemma append_inv:
  assumes "conn_inv c ph input ans" and "c_rcap c \<le> cap" and "cap \<le> RBUF_MAX_CAP"
    and "length (c_rbuf c) + length bs \<le> cap"
  shows "conn_inv (c\<lparr>c_rcap := cap, c_rbuf := c_rbuf c @ bs\<rparr>) ph (input @ bs) ans"
  using assms by (auto simp: conn_inv_def cap_ok_def close_ok_def frame_ok_def)

lemma on_read_inv:
  assumes inv: "conn_inv c ph input ans" and open0: "c_closes c = 0"
  shows "\<exists>c'. on_read res realloc_ok ok c = Some c' \<and>
    conn_inv c' (next_phase c c' ph) (input @ (case res of Read_data bs \<Rightarrow> bs | _ \<Rightarrow> [])) ans"
proof (cases res)
  case Read_error
  then show ?thesis using closing_inv [OF inv open0, of "[]"] by (simp add: on_read_def next_phase_def)
next
  case Read_nothing
  then show ?thesis using inv by (simp add: on_read_def next_phase_def)
next
  case (Read_data bs)
  have cap: "0 < c_rcap c" "c_rcap c \<le> RBUF_MAX_CAP"
    using inv by (auto simp: conn_inv_def cap_ok_def RBUF_INIT_CAP_def)
  have app: "conn_inv (take_line ok (c\<lparr>c_rcap := n, c_rbuf := c_rbuf c @ bs\<rparr>))
      (next_phase c (take_line ok (c\<lparr>c_rcap := n, c_rbuf := c_rbuf c @ bs\<rparr>)) ph) (input @ bs) ans"
    if "c_rcap c \<le> n" "n \<le> RBUF_MAX_CAP" "length (c_rbuf c) + length bs \<le> n" for n
    using take_line_inv [OF append_inv [OF inv that], of ok] by (simp add: next_phase_def)
  show ?thesis
  proof (cases "c_rcap c < length (c_rbuf c) + length bs")
    case False
    then have "on_read res realloc_ok ok c = Some (take_line ok (c\<lparr>c_rbuf := c_rbuf c @ bs\<rparr>))"
      using Read_data on_read_take_line [of ok "c\<lparr>c_rbuf := c_rbuf c @ bs\<rparr>"] by (simp add: on_read_def Let_def)
    moreover have "c\<lparr>c_rcap := c_rcap c, c_rbuf := c_rbuf c @ bs\<rparr> = c\<lparr>c_rbuf := c_rbuf c @ bs\<rparr>" by simp
    ultimately show ?thesis using app [of "c_rcap c"] cap False Read_data by simp
  next
    case True
    obtain k where k: "grow_cap (length (c_rbuf c) + length bs) (c_rcap c) = Some (c_rcap c * 2 ^ k)"
      "length (c_rbuf c) + length bs \<le> c_rcap c * 2 ^ k" using grow_cap_ends [OF cap(1)] by blast
    show ?thesis
    proof (cases "RBUF_MAX_CAP < c_rcap c * 2 ^ k \<or> \<not> realloc_ok")
      case True
      then have "on_read res realloc_ok ok c = Some (maybe_close (c\<lparr>c_closing := True\<rparr>))"
        using \<open>c_rcap c < _\<close> Read_data k(1) by (auto simp: on_read_def Let_def)
      then show ?thesis using closing_inv [OF inv open0, of bs] Read_data by (simp add: next_phase_def)
    next
      case False
      let ?c = "c\<lparr>c_rcap := c_rcap c * 2 ^ k, c_rbuf := c_rbuf c @ bs\<rparr>"
      have "on_read res realloc_ok ok c = Some (take_line ok ?c)"
        using True False Read_data k(1) on_read_take_line [of ok ?c] by (simp add: on_read_def Let_def)
      then show ?thesis using app [of "c_rcap c * 2 ^ k"] False k(2) Read_data by simp
    qed
  qed
qed

lemma idle_inv:
  assumes "conn_inv c ph input ans" and "ph \<noteq> Idle" and "subseq ans' (ans @ in_flight ph)"
  shows "conn_inv (c\<lparr>c_busy := False\<rparr>) Idle input ans'" and "c_closes c = 0"
  using assms by (auto simp: conn_inv_def cap_ok_def close_ok_def frame_ok_def in_flight_def
      intro: subseq_order.trans le_antisym)

lemma maybe_close_inv:
  assumes "conn_inv c ph input ans" and "c_closes c = 0"
  shows "conn_inv (maybe_close c) ph input ans"
  using assms by (auto simp: conn_inv_def maybe_close_def cap_ok_def close_ok_def frame_ok_def)

lemma net_step_inv:
  assumes inv: "net_inv s" and st: "net_step e s = Some s'"
  shows "net_inv s'"
proof (cases e)
  case (Recv res ra ok)
  have "c_closes (n_conn s) = 0" using st Recv by (auto simp: net_step_def split: if_splits)
  from on_read_inv [OF inv [unfolded net_inv_conn] this, of res ra ok] obtain c' where
    c': "on_read res ra ok (n_conn s) = Some c'"
    "conn_inv c' (next_phase (n_conn s) c' (n_phase s))
       (n_input s @ (case res of Read_data bs \<Rightarrow> bs | _ \<Rightarrow> [])) (map fst (n_replies s))" by blast
  then show ?thesis using st Recv by (auto simp: net_step_def net_inv_conn split: if_splits)
next
  case (Work_done status_ok oom resp write_ok)
  then obtain line where ph: "n_phase s = Working line"
    using st by (auto simp: net_step_def split: phase.splits)
  note i = inv [unfolded net_inv_conn]
  have ni: "n_phase s \<noteq> Idle" using ph by simp
  have sub: "subseq (map fst (n_replies s)) (map fst (n_replies s) @ in_flight (n_phase s))"
    by (intro prefix_imp_subseq) simp
  note idle = idle_inv [OF i ni sub]
  have "conn_inv (maybe_close (n_conn s\<lparr>c_busy := False\<rparr>)) Idle (n_input s) (map fst (n_replies s))"
    by (rule maybe_close_inv [OF idle(1)]) (simp add: idle(2))
  moreover have "conn_inv (maybe_close (n_conn s\<lparr>c_busy := False, c_closing := True\<rparr>)) Idle (n_input s)
      (map fst (n_replies s))"
    using closing_inv [OF idle(1), of "[]"] idle(2) by simp
  moreover have "conn_inv (n_conn s) (Writing line resp) (n_input s) (map fst (n_replies s))"
    using i ph by (simp add: conn_inv_def in_flight_def)
  ultimately show ?thesis using st Work_done ph
    by (auto simp: net_step_def net_inv_conn after_work_cb_def Let_def split: if_splits)
next
  case (Write_done status_ok ok)
  then obtain line resp where ph: "n_phase s = Writing line resp"
    using st by (auto simp: net_step_def split: phase.splits)
  note i = inv [unfolded net_inv_conn]
  have ni: "n_phase s \<noteq> Idle" using ph by simp
  let ?ans = "map fst (n_replies s @ (if status_ok then [(line, resp)] else []))"
  have sub: "subseq ?ans (map fst (n_replies s) @ in_flight (n_phase s))"
    using ph by (intro prefix_imp_subseq) (simp add: in_flight_def)
  note idle = idle_inv [OF i ni sub]
  let ?c = "n_conn s\<lparr>c_busy := False\<rparr>"
  let ?d = "on_write status_ok ok (n_conn s)"
  have q: "next_phase (n_conn s) d ph = next_phase ?c d ph" for d ph by (simp add: next_phase_def)
  have "conn_inv ?d (next_phase ?c ?d Idle) (n_input s) ?ans"
  proof (cases "status_ok \<and> \<not> c_closing (n_conn s)")
    case True
    then have "?d = take_line ok ?c" by (simp add: on_write_def try_dispatch_take_line)
    then show ?thesis using take_line_inv [OF idle(1), of ok] by simp
  next
    case False
    have "conn_inv (maybe_close (n_conn s\<lparr>c_busy := False, c_closing := True\<rparr>)) Idle (n_input s) ?ans"
      using closing_inv [OF idle(1), of "[]"] idle(2) by simp
    moreover have "conn_inv (maybe_close ?c) Idle (n_input s) ?ans"
      by (rule maybe_close_inv [OF idle(1)]) (simp add: idle(2))
    ultimately show ?thesis using False
      by (auto simp: on_write_def try_dispatch_take_line next_phase_def)
  qed
  then show ?thesis using st Write_done ph q by (auto simp: net_step_def net_inv_conn Let_def)
qed

lemma net_inv_init: "net_inv init_net"
  by (simp add: net_inv_def init_net_def new_conn_def cap_ok_def close_ok_def frame_ok_def order_ok_def
      in_flight_def RBUF_INIT_CAP_def RBUF_MAX_CAP_def)

lemma reaches_inv: "reaches P s \<Longrightarrow> net_inv s"
  by (induction rule: reaches.induct) (auto intro: net_inv_init net_step_inv)

text \<open>Once a connection is closed nothing happens to it any more, so freeing it is safe.\<close>

lemma closed_final:
  assumes "reaches P s" and "c_closes (n_conn s) \<noteq> 0"
  shows "net_step e s = None"
proof -
  have "c_closes (n_conn s) = 1" "\<not> c_busy (n_conn s)" "n_phase s = Idle"
    using reaches_inv [OF assms(1)] assms(2) by (auto simp: net_inv_def close_ok_def)
  then show ?thesis by (cases e) (simp_all add: net_step_def)
qed

text \<open>The first data that arrives is one whole line.\<close>

lemma first_line:
  assumes "10 \<notin> set l" and "length l < RBUF_INIT_CAP"
  shows "net_step (Recv (Read_data (l @ [10])) True True) init_net =
    Some \<lparr>n_conn = new_conn\<lparr>c_busy := True, c_queued := [l]\<rparr>, n_phase = Working l, n_input = l @ [10],
      n_replies = []\<rparr>"
proof -
  have "take_line True (new_conn\<lparr>c_rbuf := l @ [10]\<rparr>) = new_conn\<lparr>c_busy := True, c_queued := [l]\<rparr>"
    using assms(1) find_nl_line [of l "[]"] by (simp add: take_line_def new_conn_def dispatch_line_def)
  then show ?thesis
    using on_read_take_line [of True "new_conn\<lparr>c_rbuf := l @ [10]\<rparr>"] assms(2)
    by (simp add: net_step_def on_read_def init_net_def next_phase_def new_conn_def Let_def)
qed

lemma partial_line:
  assumes "10 \<notin> set l" and "length l \<le> RBUF_INIT_CAP"
  shows "net_step (Recv (Read_data l) True True) init_net =
    Some (init_net\<lparr>n_conn := new_conn\<lparr>c_rbuf := l\<rparr>, n_input := l\<rparr>)"
proof -
  have "take_line True (new_conn\<lparr>c_rbuf := l\<rparr>) = new_conn\<lparr>c_rbuf := l\<rparr>"
    using assms(1) by (simp add: take_line_def find_nl_def)
  then show ?thesis
    using on_read_take_line [of True "new_conn\<lparr>c_rbuf := l\<rparr>"] assms(2)
    by (simp add: net_step_def on_read_def init_net_def next_phase_def new_conn_def Let_def)
qed

section \<open>Buffered lines do not wait, unless a command is silent\<close>

text \<open>Every command is answered: no work fails, runs out of memory or stays silent.\<close>

definition answering :: "event \<Rightarrow> bool" where
  "answering e = (case e of Work_done status_ok oom resp write_ok \<Rightarrow> status_ok \<and> \<not> oom \<and> resp \<noteq> [] | _ \<Rightarrow> True)"

definition drained :: "net \<Rightarrow> bool" where
  "drained s \<longleftrightarrow> n_phase s = Idle \<and> \<not> c_closing (n_conn s) \<longrightarrow> 10 \<notin> set (c_rbuf (n_conn s))"

lemma take_line_drained:
  "c_busy (take_line ok c) \<or> c_closing (take_line ok c) \<or> 10 \<notin> set (c_rbuf (take_line ok c))"
  using dispatch_line_stops [of ok _ c] by (auto simp: take_line_def find_nl_None split: option.split)

lemma net_step_drained:
  assumes inv: "net_inv s" and dr: "drained s" and a: "answering e" and st: "net_step e s = Some s'"
  shows "drained s'"
proof -
  have busy: "c_busy (n_conn s') = (n_phase s' \<noteq> Idle)"
    using net_step_inv [OF inv st] by (simp add: net_inv_def)
  have b0: "c_busy (n_conn s) = (n_phase s \<noteq> Idle)" using inv by (simp add: net_inv_def)
  have goal: "drained s'" if "c_busy (n_conn s') \<or> c_closing (n_conn s') \<or> 10 \<notin> set (c_rbuf (n_conn s'))"
    using that busy by (auto simp: drained_def)
  show ?thesis
  proof (cases e)
    case (Recv res ra ok)
    show ?thesis
    proof (cases res)
      case Read_error
      then show ?thesis using st Recv
        by (intro goal) (auto simp: net_step_def on_read_def maybe_close_def split: if_splits)
    next
      case Read_nothing
      then show ?thesis using st Recv dr
        by (auto simp: net_step_def on_read_def drained_def next_phase_def split: if_splits)
    next
      case (Read_data bs)
      have "n_conn s' = take_line ok (n_conn s\<lparr>c_rbuf := c_rbuf (n_conn s) @ bs\<rparr>) \<or>
          (\<exists>n. n_conn s' = take_line ok (n_conn s\<lparr>c_rcap := n, c_rbuf := c_rbuf (n_conn s) @ bs\<rparr>)) \<or>
          c_closing (n_conn s')"
        using st Recv Read_data on_read_take_line [of ok "n_conn s\<lparr>c_rbuf := c_rbuf (n_conn s) @ bs\<rparr>"]
          on_read_take_line [of ok "n_conn s\<lparr>c_rcap := _, c_rbuf := c_rbuf (n_conn s) @ bs\<rparr>"]
        by (auto simp: net_step_def on_read_def Let_def maybe_close_def split: if_splits option.splits)
      then show ?thesis using take_line_drained by (intro goal) metis
    qed
  next
    case (Work_done status_ok oom resp write_ok)
    then show ?thesis using st a
      by (intro goal) (auto simp: net_step_def answering_def after_work_cb_def maybe_close_def b0
          split: phase.splits if_splits)
  next
    case (Write_done status_ok ok)
    let ?c = "n_conn s\<lparr>c_busy := False\<rparr>"
    have "n_conn s' = take_line ok ?c \<or> c_closing (n_conn s')"
      using st Write_done
      by (auto simp: net_step_def on_write_def try_dispatch_take_line maybe_close_def Let_def
          split: phase.splits if_splits)
    then show ?thesis using take_line_drained by (intro goal) metis
  qed
qed

lemma reaches_drained: "reaches answering s \<Longrightarrow> drained s"
proof (induction rule: reaches.induct)
  case start
  then show ?case by (simp add: drained_def init_net_def new_conn_def)
next
  case (event s e s')
  then show ?case using net_step_drained reaches_inv by blast
qed

lemma take_line_idle:
  assumes "\<not> c_busy c" and "\<not> c_closing c" and "c_rbuf c = l @ 10 # rest" and "10 \<notin> set l"
  shows "take_line True c = c\<lparr>c_rbuf := rest, c_busy := True, c_queued := c_queued c @ [l]\<rparr>"
  using assms by (simp add: take_line_def find_nl_line dispatch_line_def)

end
