(* ===== verification/Service.thy ===== *)
theory Service
  imports Net Server
begin

text \<open>
  The connection together with the execution of its commands: a queued line is executed by
  \<open>parse_and_execute\<close> on the server's state, and its response is what the connection writes. The
  replies a client receives are those of executing its lines one after the other.
\<close>

section \<open>Executing lines\<close>

text \<open>\<open>work_cb\<close>: the request becomes \<open>current_work\<close> while it runs.\<close>

definition work_cb :: "work_req \<Rightarrow> world \<Rightarrow> work_req \<times> world" where
  "work_cb w v = parse_and_execute w v"

text \<open>The specification: the lines in order, with their responses.\<close>

fun run_lines :: "byte list list \<Rightarrow> world \<Rightarrow> byte list list \<times> world" where
  "run_lines [] v = ([], v)"
| "run_lines (l # ls) v =
     (let (w, v) = work_cb (new_work l) v; (rs, v) = run_lines ls v in (w_resp w # rs, v))"

lemma run_lines_snoc:
  "run_lines (ls @ [l]) v =
    (fst (run_lines ls v) @ [w_resp (fst (work_cb (new_work l) (snd (run_lines ls v))))],
     snd (work_cb (new_work l) (snd (run_lines ls v))))"
  by (induction ls arbitrary: v) (simp_all add: Let_def split_def)

lemma length_run_lines [simp]: "length (fst (run_lines ls v)) = length ls"
  by (induction ls arbitrary: v) (simp_all add: Let_def split_def)

section \<open>The connection with the server's state\<close>

record service =
  sv_net :: net
  sv_world :: world

text \<open>What the network may do: data arrives, the running command ends, a write ends.\<close>

datatype service_event =
    Arrives read_result bool bool
  | Executed bool bool
  | Written bool bool

definition service_step :: "service_event \<Rightarrow> service \<Rightarrow> service option" where
  "service_step e s =
     (case e of
        Arrives res realloc_ok dispatch_ok \<Rightarrow>
          map_option (\<lambda>n. s\<lparr>sv_net := n\<rparr>) (net_step (Recv res realloc_ok dispatch_ok) (sv_net s))
      | Executed status_ok write_ok \<Rightarrow>
          (case n_phase (sv_net s) of
             Working line \<Rightarrow>
               (let (w, v) = work_cb (new_work line) (sv_world s)
                in map_option (\<lambda>n. \<lparr>sv_net = n, sv_world = v\<rparr>)
                     (net_step (Work_done status_ok (w_oom w) (w_resp w) write_ok) (sv_net s)))
           | _ \<Rightarrow> None)
      | Written status_ok dispatch_ok \<Rightarrow>
          map_option (\<lambda>n. s\<lparr>sv_net := n\<rparr>) (net_step (Write_done status_ok dispatch_ok) (sv_net s)))"

inductive serves :: "world \<Rightarrow> service \<Rightarrow> bool" for v where
  connect: "serves v \<lparr>sv_net = init_net, sv_world = v\<rparr>"
| happens: "serves v s \<Longrightarrow> service_step e s = Some s' \<Longrightarrow> serves v s'"

text \<open>The line that is queued but not yet executed, and the reply that is being written.\<close>

definition waiting :: "phase \<Rightarrow> byte list list" where
  "waiting ph = (case ph of Working l \<Rightarrow> [l] | _ \<Rightarrow> [])"

definition underway :: "phase \<Rightarrow> (byte list \<times> byte list) list" where
  "underway ph = (case ph of Writing l r \<Rightarrow> [(l, r)] | _ \<Rightarrow> [])"

text \<open>
  The refinement relation: \<open>ls\<close> are the lines that were executed; the server is in the state after
  them, and the replies are a subsequence of theirs (the others were silent, or their write failed).
\<close>

definition executed_in_order :: "world \<Rightarrow> byte list list \<Rightarrow> service \<Rightarrow> bool" where
  "executed_in_order v ls s \<longleftrightarrow>
     c_queued (n_conn (sv_net s)) = ls @ waiting (n_phase (sv_net s)) \<and>
     sv_world s = snd (run_lines ls v) \<and>
     subseq (n_replies (sv_net s) @ underway (n_phase (sv_net s))) (zip ls (fst (run_lines ls v)))"

lemma serves_reaches: "serves v s \<Longrightarrow> reaches (\<lambda>_. True) (sv_net s)"
proof (induction rule: serves.induct)
  case connect
  show ?case using reaches.start by simp
next
  case (happens s e s')
  then obtain e' where "net_step e' (sv_net s) = Some (sv_net s')"
    by (cases e) (auto simp: service_step_def Let_def split: phase.splits prod.splits)
  then show ?case using reaches.event [OF happens.IH TrueI] by blast
qed

text \<open>A step of the connection queues at most one line, and only when nothing is in flight.\<close>

definition queues_one :: "conn_t \<Rightarrow> conn_t \<Rightarrow> phase \<Rightarrow> phase \<Rightarrow> bool" where
  "queues_one c c' ph ph' \<longleftrightarrow>
     c_queued c' = c_queued c \<and> ph' = ph \<or>
     ph = Idle \<and> (\<exists>l. c_queued c' = c_queued c @ [l] \<and> ph' = Working l)"

lemma take_line_queues:
  assumes "c_busy c \<longleftrightarrow> ph \<noteq> Idle"
  shows "queues_one c (take_line ok c) ph (next_phase c (take_line ok c) ph)"
  using assms by (cases rule: take_line_cases [of ok c]) (auto simp: next_phase_def queues_one_def)

lemma on_read_outcome:
  assumes "on_read res realloc_ok ok c = Some c'"
  shows "c' = c \<or> c' = maybe_close (c\<lparr>c_closing := True\<rparr>) \<or>
    (\<exists>n b. c' = take_line ok (c\<lparr>c_rcap := n, c_rbuf := b\<rparr>))"
proof (cases res)
  case (Read_data bs)
  have same: "c\<lparr>c_rbuf := b\<rparr> = c\<lparr>c_rcap := c_rcap c, c_rbuf := b\<rparr>" for b by simp
  show ?thesis
  proof (cases "c_rcap c < length (c_rbuf c) + length bs")
    case True
    then show ?thesis using assms Read_data on_read_take_line [of ok "c\<lparr>c_rcap := _, c_rbuf := c_rbuf c @ bs\<rparr>"]
      by (auto simp: on_read_def Let_def split: option.splits if_splits)
  next
    case False
    then have "c' = take_line ok (c\<lparr>c_rbuf := c_rbuf c @ bs\<rparr>)"
      using assms Read_data on_read_take_line [of ok "c\<lparr>c_rbuf := c_rbuf c @ bs\<rparr>"] by (simp add: on_read_def Let_def)
    then show ?thesis using same by metis
  qed
qed (use assms in \<open>auto simp: on_read_def\<close>)

lemma on_read_queues:
  assumes "c_busy c \<longleftrightarrow> ph \<noteq> Idle" and "on_read res realloc_ok ok c = Some c'"
  shows "queues_one c c' ph (next_phase c c' ph)"
  using on_read_outcome [OF assms(2)]
proof (elim disjE exE)
  fix n b
  assume c': "c' = take_line ok (c\<lparr>c_rcap := n, c_rbuf := b\<rparr>)"
  show ?thesis using take_line_queues [of "c\<lparr>c_rcap := n, c_rbuf := b\<rparr>" ph ok] assms(1)
    by (simp add: c' queues_one_def next_phase_def)
qed (simp_all add: queues_one_def next_phase_def)

lemma on_write_queues:
  "queues_one c (on_write status_ok ok c) Idle (next_phase c (on_write status_ok ok c) Idle)"
proof (cases "status_ok \<and> \<not> c_closing c")
  case True
  then have "on_write status_ok ok c = take_line ok (c\<lparr>c_busy := False\<rparr>)"
    by (simp add: on_write_def try_dispatch_take_line)
  then show ?thesis using take_line_queues [of "c\<lparr>c_busy := False\<rparr>" Idle ok]
    by (simp add: queues_one_def next_phase_def)
next
  case False
  then have "c_queued (on_write status_ok ok c) = c_queued c"
    by (cases status_ok) (simp_all add: on_write_def try_dispatch_take_line Let_def)
  then show ?thesis by (simp add: next_phase_def queues_one_def)
qed

section \<open>The refinement\<close>

lemma phase_lists [simp]:
  "waiting Idle = []" "waiting (Working l) = [l]" "waiting (Writing l r) = []"
  "underway Idle = []" "underway (Working l) = []" "underway (Writing l r) = [(l, r)]"
  by (simp_all add: waiting_def underway_def)

lemma queues_order:
  assumes "queues_one c c' ph ph'"
  shows "waiting ph' = waiting ph \<and> c_queued c' = c_queued c \<or>
      (\<exists>l. waiting ph = [] \<and> waiting ph' = [l] \<and> c_queued c' = c_queued c @ [l])"
    and "underway ph' = underway ph"
  using assms by (auto simp: queues_one_def)

lemma subseq_drop_last: "subseq (xs @ [y]) zs \<Longrightarrow> subseq xs zs"
  by (metis subseq_append_le_same_iff subseq_order.order_trans prefix_imp_subseq prefixI)

lemma service_step_ordered:
  assumes inv: "net_inv (sv_net s)" and ex: "executed_in_order v ls s" and st: "service_step e s = Some s'"
  shows "\<exists>ls'. executed_in_order v ls' s'"
proof (cases e)
  case (Arrives res ra ok)
  have busy: "c_busy (n_conn (sv_net s)) \<longleftrightarrow> n_phase (sv_net s) \<noteq> Idle" using inv by (simp add: net_inv_def)
  obtain c where c: "on_read res ra ok (n_conn (sv_net s)) = Some c" "n_conn (sv_net s') = c"
    "n_phase (sv_net s') = next_phase (n_conn (sv_net s)) c (n_phase (sv_net s))"
    "n_replies (sv_net s') = n_replies (sv_net s)" "sv_world s' = sv_world s"
    using st Arrives by (auto simp: service_step_def net_step_def split: if_splits option.splits)
  show ?thesis using queues_order [OF on_read_queues [OF busy c(1)]] ex
    by (intro exI [of _ ls]) (auto simp: executed_in_order_def c)
next
  case (Executed status_ok write_ok)
  then obtain l where ph: "n_phase (sv_net s) = Working l"
    using st by (auto simp: service_step_def split: phase.splits)
  let ?w = "fst (work_cb (new_work l) (sv_world s))"
  have s': "sv_world s' = snd (work_cb (new_work l) (sv_world s))"
    "c_queued (n_conn (sv_net s')) = c_queued (n_conn (sv_net s))"
    "n_replies (sv_net s') = n_replies (sv_net s)"
    "n_phase (sv_net s') = Idle \<or> n_phase (sv_net s') = Writing l (w_resp ?w)"
    using st Executed ph
    by (auto simp: service_step_def net_step_def after_work_cb_def Let_def split_def split: if_splits)
  have z: "zip (ls @ [l]) (fst (run_lines (ls @ [l]) v)) =
      zip ls (fst (run_lines ls v)) @ [(l, w_resp ?w)]"
    using ex by (simp add: run_lines_snoc executed_in_order_def)
  have "subseq (n_replies (sv_net s)) (zip ls (fst (run_lines ls v)))" using ex ph by (simp add: executed_in_order_def)
  then have "subseq (n_replies (sv_net s') @ underway (n_phase (sv_net s')))
      (zip ls (fst (run_lines ls v)) @ [(l, w_resp ?w)])"
    using s'(3,4) by auto
  then have "executed_in_order v (ls @ [l]) s'"
    unfolding executed_in_order_def z using ex ph s' by (auto simp: executed_in_order_def run_lines_snoc)
  then show ?thesis by blast
next
  case (Written status_ok ok)
  then obtain l r where ph: "n_phase (sv_net s) = Writing l r"
    using st by (auto simp: service_step_def net_step_def split: phase.splits)
  let ?c = "on_write status_ok ok (n_conn (sv_net s))"
  have s': "n_conn (sv_net s') = ?c" "sv_world s' = sv_world s"
    "n_phase (sv_net s') = next_phase (n_conn (sv_net s)) ?c Idle"
    "n_replies (sv_net s') = n_replies (sv_net s) @ (if status_ok then [(l, r)] else [])"
    using st Written ph by (auto simp: service_step_def net_step_def Let_def)
  have sub: "subseq (n_replies (sv_net s')) (zip ls (fst (run_lines ls v)))"
    using ex ph subseq_drop_last by (auto simp: s'(4) executed_in_order_def)
  show ?thesis using queues_order [OF on_write_queues [of "n_conn (sv_net s)" status_ok ok]] ex sub ph
    by (intro exI [of _ ls]) (auto simp: executed_in_order_def s'(1-3))
qed

lemma serves_in_order: "serves v s \<Longrightarrow> \<exists>ls. executed_in_order v ls s"
proof (induction rule: serves.induct)
  case connect
  have "executed_in_order v [] \<lparr>sv_net = init_net, sv_world = v\<rparr>"
    by (simp add: executed_in_order_def init_net_def new_conn_def)
  then show ?case by blast
next
  case (happens s e s')
  then show ?case using service_step_ordered reaches_inv [OF serves_reaches] by blast
qed

end
