(* ===== verification/Rejects.thy ===== *)
theory Rejects
  imports Server
begin

text \<open>
  The lines that are answered without touching a file: too short, an unknown command, a wrong number
  of arguments, a bad offset, value, option or key. \<open>command_error\<close> gives the reply as a function of the
  line; the lemmas show that the parser sends exactly it and leaves the server's state alone.
\<close>

section \<open>The reply to a bad line\<close>

definition offset_bad :: "byte list \<Rightarrow> bool" where
  "offset_bad arg \<longleftrightarrow> atol arg < 0 \<or> 8 * FILE_SIZE_LIMIT + 7 < atol arg"

definition key_bad :: "byte list \<Rightarrow> bool" where
  "key_bad arg \<longleftrightarrow> 64 < length (cstr arg)"

definition setbit_error :: "byte list list \<Rightarrow> string option" where
  "setbit_error args =
     (if length args \<noteq> 3 then Some ''ERR:ARG TOO MANY OR FEW''
      else if offset_bad (args ! 1) then Some ''ERR:OFFSET OUT OF RANGE''
      else if atol (args ! 2) \<notin> {0, 1} then Some ''ERR:SETBIT(3) MUST BE 1 OR 0''
      else if key_bad (args ! 0) then Some ''ERR:KEY TOO LONG''
      else None)"

definition getbit_error :: "byte list list \<Rightarrow> string option" where
  "getbit_error args =
     (if length args \<noteq> 2 then Some ''ERR:ARGS TOO MANY OR FEW''
      else if offset_bad (args ! 1) then Some ''ERR:OFFSET OUT OF RANGE''
      else if key_bad (args ! 0) then Some ''ERR:KEY TOO LONG''
      else None)"

definition bitop_error :: "byte list list \<Rightarrow> string option" where
  "bitop_error args =
     (if length args < 3 \<or> 18 < length args then Some ''ERR:ARGS TOO MANY OR FEW''
      else case parse_option (args ! 0) of
             None \<Rightarrow> Some ''ERR:UKNOW OPTION''
           | Some op \<Rightarrow>
               if op = OP_NOT \<and> length args \<noteq> 3 then Some ''ERR:BITOP NOT JUST NEEDS ONE SOURCE''
               else case parse_hook (args ! 1) of
                      None \<Rightarrow> Some ''ERR:UKNOW OPTION''
                    | Some hook \<Rightarrow> if hook = NONE \<and> key_bad (args ! 1) then Some ''ERR:KEY TOO LONG'' else None)"

definition bitcount_error :: "byte list list \<Rightarrow> string option" where
  "bitcount_error args =
     (if length args < 1 \<or> 3 < length args then Some ''ERR:ARGS TOO MANY OR FEW''
      else if key_bad (args ! 0) then Some ''ERR:KEY TOO LONG''
      else None)"

text \<open>By the first five bytes; the arguments are the words after the first.\<close>

definition command_error :: "byte list \<Rightarrow> byte list list \<Rightarrow> string option" where
  "command_error name args =
     (if name = str ''SETBI'' then setbit_error args
      else if name = str ''GETBI'' then getbit_error args
      else if name = str ''BITOP'' then bitop_error args
      else if name = str ''BITCO'' then bitcount_error args
      else if name = str ''BITFI'' \<and> length args < 4 then Some ''ERR:ARGS TOO FEW''
      else None)"

section \<open>Literal replies\<close>

text \<open>The lengths written in the source are those of the literals, newline included.\<close>

lemma literal_reply:
  assumes "faults v = []" and "len = length s + 1"
  shows "w_resp (fst (reply_lit s len (new_work line, v))) = str s @ [10]"
    and "snd (reply_lit s len (new_work line, v)) = v"
  using reply_lit_ok [of "new_work line" v len s] assms by simp_all

definition rejects :: "work_req \<times> world \<Rightarrow> string \<Rightarrow> world \<Rightarrow> bool" where
  "rejects r msg v \<longleftrightarrow> w_resp (fst r) = str msg @ [10] \<and> snd r = v"

lemma rejects_literal:
  "faults v = [] \<Longrightarrow> len = length s + 1 \<Longrightarrow> rejects (reply_lit s len (new_work line, v)) s v"
  by (simp add: rejects_def literal_reply)

lemma bad_offset: "offset_bad arg \<longleftrightarrow> atol arg div 8 < 0 \<or> FILE_SIZE_LIMIT < atol arg div 8"
proof -
  have "(atol arg div 8 < 0) = (atol arg < 0)" by presburger
  moreover have "(FILE_SIZE_LIMIT < atol arg div 8) = (8 * FILE_SIZE_LIMIT + 7 < atol arg)" by presburger
  ultimately show ?thesis by (simp add: offset_bad_def)
qed

lemma bad_value: "and x (- 2) = 0 \<longleftrightarrow> x \<in> {0, 1 :: int}"
proof
  assume a: "and x (- 2) = 0"
  have "\<not> bit (drop_bit 1 x) n" for n
  proof -
    have "\<not> bit (and x (not 1)) (Suc n)" using a by simp
    then show ?thesis by (simp add: bit_and_iff bit_not_iff bit_drop_bit_eq bit_1_iff)
  qed
  then have "drop_bit 1 x = 0" by (intro bit_eqI) simp
  then have "x div 2 = 0" by (simp add: drop_bit_eq_div)
  then show "x \<in> {0, 1}" by auto
qed auto

section \<open>The handlers on a bad line\<close>

text \<open>The arguments a handler sees are the words after the first.\<close>

lemma handler_args:
  assumes "faults v = []"
  shows "split_fill (w_line (new_work line)) (length line) (length (line_words line)) v = (tl (line_words line), v)"
  using split_words [OF assms, of line] by (simp add: get_arg_count_eq)

lemma setbit_rejects:
  assumes "faults v = []" and "line_words line = name # args" and "setbit_error args = Some msg"
  shows "rejects (exec_setbit (length (line_words line)) (new_work line) v) msg v"
  using assms handler_args [OF assms(1), of line]
  by (auto simp: exec_setbit_def setbit_error_def bad_offset bad_value key_bad_def copy_key_def Let_def
      intro!: rejects_literal split: if_splits)

lemma getbit_rejects:
  assumes "faults v = []" and "line_words line = name # args" and "getbit_error args = Some msg"
  shows "rejects (exec_getbit (length (line_words line)) (new_work line) v) msg v"
  using assms handler_args [OF assms(1), of line]
  by (auto simp: exec_getbit_def getbit_error_def bad_offset key_bad_def copy_key_def Let_def
      intro!: rejects_literal split: if_splits)

lemma bitcount_rejects:
  assumes "faults v = []" and "line_words line = name # args" and "bitcount_error args = Some msg"
  shows "rejects (exec_bitcount (length (line_words line)) (new_work line) v) msg v"
  using assms handler_args [OF assms(1), of line]
  by (auto simp: exec_bitcount_def bitcount_error_def key_bad_def copy_key_def Let_def
      intro!: rejects_literal split: if_splits)

lemma bitop_rejects:
  assumes "faults v = []" and "line_words line = name # args" and "bitop_error args = Some msg"
  shows "rejects (exec_bitop (length (line_words line)) (new_work line) v) msg v"
  using assms handler_args [OF assms(1), of line]
  by (auto simp: exec_bitop_def bitop_error_def key_bad_def copy_key_def Let_def
      intro!: rejects_literal split: if_splits option.splits)

section \<open>The parser on a bad line\<close>

lemma bitfield_rejects:
  assumes "faults v = []" and "line_words line = name # args" and "length args < 4"
  shows "rejects (exec_bitfield (length (line_words line)) (new_work line) v) ''ERR:ARGS TOO FEW'' v"
  using assms by (auto simp: exec_bitfield_def intro!: rejects_literal)

lemma command_rejects:
  assumes "faults v = []" and "10 \<le> length line" and "line_words line = name # args"
    and "command_error (take 5 line) args = Some msg"
  shows "rejects (parse_and_execute (new_work line) v) msg v"
proof -
  have run: "parse_and_execute (new_work line) v = exec (length (line_words line)) (new_work line) v"
    if "handler_of (take 5 line) = Some exec" for exec
    by (rule dispatch_known [OF assms(2) that])
  show ?thesis
    using assms(4) run handler_names setbit_rejects [OF assms(1,3)] getbit_rejects [OF assms(1,3)]
      bitop_rejects [OF assms(1,3)] bitcount_rejects [OF assms(1,3)] bitfield_rejects [OF assms(1,3)]
    by (auto simp: command_error_def split: if_splits)
qed

lemma short_rejects:
  assumes "faults v = []" and "length line < 10"
  shows "rejects (parse_and_execute (new_work line) v) ''ERR:CMD TOO SHORT'' v"
  using assms by (auto simp: parse_and_execute_def CMD_MININUM_def intro!: rejects_literal)

lemma unknown_rejects:
  assumes "faults v = []" and "10 \<le> length line"
    and "\<forall>name \<in> {''SETBI'', ''GETBI'', ''BITOP'', ''BITCO'', ''BITPO'', ''BITFI''}.
      dispatch_hash line \<noteq> xxh64_bytes 0 (str name)"
  shows "rejects (parse_and_execute (new_work line) v) ''ERR:UNKNOW CMD'' v"
proof -
  have "parse_and_execute (new_work line) v = reply_lit ''ERR:UNKNOW CMD'' 15 (new_work line, v)"
    using assms(2,3) by (simp add: parse_and_execute_def CMD_MININUM_def Let_def hash_literals)
  then show ?thesis using rejects_literal [OF assms(1), of 15 "''ERR:UNKNOW CMD''"] by simp
qed

text \<open>BITPOS, and BITFIELD with enough arguments, are not answered at all.\<close>

lemma silent_reply:
  assumes "10 \<le> length line" and "line_words line = name # args"
    and "take 5 line = str ''BITPO'' \<or> take 5 line = str ''BITFI'' \<and> 4 \<le> length args"
  shows "w_resp (fst (parse_and_execute (new_work line) v)) = []"
  using assms(3)
proof
  assume "take 5 line = str ''BITPO''"
  then have "parse_and_execute (new_work line) v = exec_bitpos (length (line_words line)) (new_work line) v"
    by (intro dispatch_known [OF assms(1)]) (simp add: handler_names)
  moreover have "\<not> (length (line_words line) < 3 \<and> 5 < length (line_words line))" by simp
  ultimately show ?thesis by (simp add: exec_bitpos_def split_def del: not_less)
next
  assume a: "take 5 line = str ''BITFI'' \<and> 4 \<le> length args"
  then have "parse_and_execute (new_work line) v = exec_bitfield (length (line_words line)) (new_work line) v"
    by (intro dispatch_known [OF assms(1)]) (simp add: handler_names)
  then show ?thesis using a assms(2) by (simp add: exec_bitfield_def)
qed

lemma silent_commands:
  assumes "faults v = []" and "10 \<le> length line" and "line_words line = name # args"
    and "take 5 line = str ''BITPO'' \<or> take 5 line = str ''BITFI'' \<and> 4 \<le> length args"
  shows "w_resp (fst (parse_and_execute (new_work line) v)) = []"
    and "snd (parse_and_execute (new_work line) v) = v"
proof -
  have "parse_and_execute (new_work line) v = (new_work line, v)"
    using assms(4)
  proof
    assume "take 5 line = str ''BITPO''"
    then have "parse_and_execute (new_work line) v = exec_bitpos (length (line_words line)) (new_work line) v"
      by (intro dispatch_known [OF assms(2)]) (simp add: handler_names)
    moreover have "\<not> (length (line_words line) < 3 \<and> 5 < length (line_words line))" by simp
    ultimately show ?thesis
      using handler_args [OF assms(1), of line] by (simp add: exec_bitpos_def del: not_less)
  next
    assume "take 5 line = str ''BITFI'' \<and> 4 \<le> length args"
    moreover from this have "parse_and_execute (new_work line) v =
        exec_bitfield (length (line_words line)) (new_work line) v"
      by (intro dispatch_known [OF assms(2)]) (simp add: handler_names)
    ultimately show ?thesis using assms(3) by (simp add: exec_bitfield_def)
  qed
  then show "w_resp (fst (parse_and_execute (new_work line) v)) = []"
    "snd (parse_and_execute (new_work line) v) = v" by simp_all
qed

end
