(* ===== verification/Pool.thy ===== *)
theory Pool
  imports WorkersBits Service Rejects
begin

text \<open>
  The whole server: many connections, each with the thread that executes its line, on one table of
  open files. The events of all connections and the turns of all threads may follow each other in any
  order. Commands are executed turn by turn; a line that is refused touches no file, and takes one step.
  The server is shown to keep its table, the reference counts and the connections in order, and to tell
  clients only values that the bits had or were given.
\<close>

section \<open>Lines as requests\<close>

text \<open>The command that the words of a line are parsed as, when none of its checks fails.\<close>

definition parse_request :: "byte list \<Rightarrow> byte list list \<Rightarrow> request option" where
  "parse_request name args =
     (if name = str ''SETBI''
      then Some (Set_request \<lparr>sb_key = cstr (args ! 0), sb_offset = atol (args ! 1), sb_value = atol (args ! 2)\<rparr>)
      else if name = str ''GETBI''
      then Some (Get_request \<lparr>gb_key = cstr (args ! 0), gb_offset = atol (args ! 1)\<rparr>)
      else if name = str ''BITCO''
      then Some (Count_request (cstr (args ! 0)) (if length args = 1 then 0 else atol (args ! 1))
             (if length args = 3 then Some (atol (args ! 2)) else None))
      else if name = str ''BITOP''
      then (case parse_option (args ! 0) of
              None \<Rightarrow> None
            | Some op \<Rightarrow>
                (case parse_hook (args ! 1) of
                   None \<Rightarrow> None
                 | Some hook \<Rightarrow>
                     Some (Op_request
                       \<lparr>bo_key = (if hook = NONE then cstr (args ! 1) else []), bo_count = length args - 2,
                        bo_hook = hook, bo_option = op\<rparr> (drop 2 args))))
      else None)"

definition request_of :: "byte list \<Rightarrow> request option" where
  "request_of line =
     (if length line < 10 then None
      else case line_words line of
             [] \<Rightarrow> None
           | name # args \<Rightarrow>
               if command_error (take 5 line) args \<noteq> None then None else parse_request (take 5 line) args)"

text \<open>The reply to a line that touches nothing: an error message, or none at all for BITPOS and BITFIELD.\<close>

definition refused :: "byte list \<Rightarrow> byte list option" where
  "refused line =
     (if length line < 10 then Some (str ''ERR:CMD TOO SHORT'' @ [10])
      else if dispatch_hash line \<notin> (\<lambda>s. xxh64_bytes 0 (str s)) `
          {''SETBI'', ''GETBI'', ''BITOP'', ''BITCO'', ''BITPO'', ''BITFI''}
      then Some (str ''ERR:UNKNOW CMD'' @ [10])
      else case line_words line of
             [] \<Rightarrow> None
           | name # args \<Rightarrow>
               (case command_error (take 5 line) args of
                  Some msg \<Rightarrow> Some (str msg @ [10])
                | None \<Rightarrow>
                    if take 5 line = str ''BITPO'' \<or> take 5 line = str ''BITFI'' \<and> 4 \<le> length args
                    then Some [] else None))"

lemma refused_line:
  assumes "faults v = []" and "refused line = Some resp"
  shows "w_resp (fst (parse_and_execute (new_work line) v)) = resp"
    and "snd (parse_and_execute (new_work line) v) = v"
proof -
  consider (short) "length line < 10" "resp = str ''ERR:CMD TOO SHORT'' @ [10]"
    | (unknown) "10 \<le> length line" "\<forall>name \<in> {''SETBI'', ''GETBI'', ''BITOP'', ''BITCO'', ''BITPO'', ''BITFI''}.
        dispatch_hash line \<noteq> xxh64_bytes 0 (str name)" "resp = str ''ERR:UNKNOW CMD'' @ [10]"
    | (bad) name args msg where "10 \<le> length line" "line_words line = name # args"
        "command_error (take 5 line) args = Some msg" "resp = str msg @ [10]"
    | (silent) name args where "10 \<le> length line" "line_words line = name # args"
        "take 5 line = str ''BITPO'' \<or> take 5 line = str ''BITFI'' \<and> 4 \<le> length args" "resp = []"
    using assms(2) unfolding refused_def by (fastforce split: if_splits list.splits option.splits)
  then have "w_resp (fst (parse_and_execute (new_work line) v)) = resp \<and>
      snd (parse_and_execute (new_work line) v) = v"
  proof cases
    case short
    then show ?thesis using short_rejects [OF assms(1) short(1)] by (simp add: rejects_def)
  next
    case unknown
    then show ?thesis using unknown_rejects [OF assms(1) unknown(1,2)] by (simp add: rejects_def)
  next
    case bad
    then show ?thesis using command_rejects [OF assms(1) bad(1-3)] by (simp add: rejects_def)
  next
    case silent
    then show ?thesis using silent_commands [OF assms(1) silent(1-3)] by simp
  qed
  then show "w_resp (fst (parse_and_execute (new_work line) v)) = resp"
    and "snd (parse_and_execute (new_work line) v) = v" by simp_all
qed

definition answer_text :: "int \<Rightarrow> byte list" where
  "answer_text r =
     (if r = -2 then str ''ERR:FILESYSTEM FAILED'' @ [10]
      else if r < 0 then str ''ERR:FILE ACCESS FAILED'' @ [10]
      else dec_int r @ [10])"

section \<open>The server\<close>

record pool =
  p_nets :: "nat \<Rightarrow> net"
  p_jobs :: "nat \<Rightarrow> stage"
  p_world :: world

datatype pool_event =
    Incoming nat read_result bool bool
  | Turn nat
  | Finish nat bool bool
  | Sent nat bool bool

definition set_net :: "nat \<Rightarrow> pool \<Rightarrow> net \<Rightarrow> pool" where
  "set_net k p n = p\<lparr>p_nets := (p_nets p)(k := n)\<rparr>"

text \<open>
  \<open>Turn k\<close>: the thread of connection \<open>k\<close> goes on to its next lock operation. \<open>Finish k\<close>: it is done and
  \<open>after_work_cb\<close> runs in the loop thread.
\<close>

definition pool_step :: "pool_event \<Rightarrow> pool \<Rightarrow> pool option" where
  "pool_step e p =
     (case e of
        Incoming k res realloc_ok dispatch_ok \<Rightarrow>
          map_option (set_net k p) (net_step (Recv res realloc_ok dispatch_ok) (p_nets p k))
      | Turn k \<Rightarrow>
          (case n_phase (p_nets p k) of
             Working line \<Rightarrow>
               (case request_of line of
                  Some rq \<Rightarrow>
                    (let (st, w) = worker_step rq (p_jobs p k) (p_world p)
                     in Some (p\<lparr>p_jobs := (p_jobs p)(k := st), p_world := w\<rparr>))
                | None \<Rightarrow> None)
           | _ \<Rightarrow> None)
      | Finish k status_ok write_ok \<Rightarrow>
          (case n_phase (p_nets p k) of
             Working line \<Rightarrow>
               (case request_of line of
                  Some rq \<Rightarrow>
                    (case p_jobs p k of
                       Answered r \<Rightarrow>
                         map_option (set_net k (p\<lparr>p_jobs := (p_jobs p)(k := Queued)\<rparr>))
                           (net_step (Work_done status_ok False (answer_text r) write_ok) (p_nets p k))
                     | _ \<Rightarrow> None)
                | None \<Rightarrow>
                    (let (req, w) = work_cb (new_work line) (p_world p)
                     in map_option (set_net k (p\<lparr>p_world := w\<rparr>))
                          (net_step (Work_done status_ok (w_oom req) (w_resp req) write_ok) (p_nets p k))))
           | _ \<Rightarrow> None)
      | Sent k status_ok dispatch_ok \<Rightarrow>
          map_option (set_net k p) (net_step (Write_done status_ok dispatch_ok) (p_nets p k)))"

inductive pooled :: "world \<Rightarrow> pool \<Rightarrow> bool" for w where
  opened: "pooled w \<lparr>p_nets = (\<lambda>_. init_net), p_jobs = (\<lambda>_. Queued), p_world = w\<rparr>"
| happens: "pooled w p \<Longrightarrow> pool_step e p = Some p' \<Longrightarrow> pooled w p'"

section \<open>Every connection on its own\<close>

lemma pool_step_net:
  assumes "pool_step e p = Some p'"
  shows "p_nets p' k = p_nets p k \<or> (\<exists>e'. net_step e' (p_nets p k) = Some (p_nets p' k))"
  using assms
  by (cases e)
    (auto simp: pool_step_def set_net_def Let_def split: phase.splits option.splits prod.splits stage.splits if_splits)

lemma pooled_reaches: "pooled w p \<Longrightarrow> reaches (\<lambda>_. True) (p_nets p k)"
proof (induction rule: pooled.induct)
  case opened
  show ?case using reaches.start by simp
next
  case (happens p e p')
  then show ?case using pool_step_net [OF happens.hyps(2), of k] reaches.event [OF happens.IH TrueI] by auto
qed

lemma pooled_inv: "pooled w p \<Longrightarrow> net_inv (p_nets p k)"
  by (rule reaches_inv [OF pooled_reaches])

text \<open>A step of a connection queues a line only when it was idle, and no reply is lost on the way.\<close>

lemma recv_queues:
  assumes "net_inv n" and "net_step (Recv res ra ok) n = Some n'"
  shows "queues_one (n_conn n) (n_conn n') (n_phase n) (n_phase n')"
proof -
  have busy: "c_busy (n_conn n) \<longleftrightarrow> n_phase n \<noteq> Idle" using assms(1) by (simp add: net_inv_def)
  obtain c where c: "on_read res ra ok (n_conn n) = Some c" "n_conn n' = c"
    "n_phase n' = next_phase (n_conn n) c (n_phase n)"
    using assms(2) by (auto simp: net_step_def split: if_splits option.splits)
  show ?thesis using on_read_queues [OF busy c(1)] by (simp add: c)
qed

lemma sent_queues:
  assumes "net_step (Write_done status_ok ok) n = Some n'"
  shows "\<exists>l r. n_phase n = Writing l r" and "queues_one (n_conn n) (n_conn n') Idle (n_phase n')"
proof -
  obtain l r where ph: "n_phase n = Writing l r" using assms by (auto simp: net_step_def split: phase.splits)
  then show "\<exists>l r. n_phase n = Writing l r" by blast
  have "n_conn n' = on_write status_ok ok (n_conn n)"
    "n_phase n' = next_phase (n_conn n) (on_write status_ok ok (n_conn n)) Idle"
    using assms ph by (auto simp: net_step_def Let_def)
  then show "queues_one (n_conn n) (n_conn n') Idle (n_phase n')"
    using on_write_queues [of "n_conn n" status_ok ok] by simp
qed

lemma work_queues:
  assumes "net_step (Work_done a b resp d) n = Some n'"
  shows "c_queued (n_conn n') = c_queued (n_conn n)" and "n_phase n' \<noteq> Working l"
  using assms
  by (auto simp: net_step_def after_work_cb_def maybe_close_def Let_def split: phase.splits if_splits)

definition shown :: "net \<Rightarrow> (byte list \<times> byte list) list" where
  "shown n = n_replies n @ underway (n_phase n)"

lemma net_step_shown:
  assumes "net_inv n" and "net_step e n = Some n'"
  shows "set (shown n') \<subseteq> set (shown n) \<or>
    (\<exists>a b resp d l. e = Work_done a b resp d \<and> n_phase n = Working l \<and> set (shown n') \<subseteq> insert (l, resp) (set (shown n)))"
proof (cases e)
  case (Recv res ra ok)
  have busy: "c_busy (n_conn n) \<longleftrightarrow> n_phase n \<noteq> Idle" using assms(1) by (simp add: net_inv_def)
  obtain c where c: "on_read res ra ok (n_conn n) = Some c" "n_replies n' = n_replies n"
    "n_phase n' = next_phase (n_conn n) c (n_phase n)"
    using assms(2) Recv by (auto simp: net_step_def split: if_splits option.splits)
  then show ?thesis using queues_order(2) [OF on_read_queues [OF busy c(1)]] by (simp add: shown_def)
next
  case (Work_done a b resp d)
  then show ?thesis using assms(2)
    by (auto simp: net_step_def shown_def Let_def split: phase.splits prod.splits if_splits)
next
  case (Write_done status_ok ok)
  then obtain l r where ph: "n_phase n = Writing l r" using assms(2) by (auto simp: net_step_def split: phase.splits)
  have "n_phase n' = next_phase (n_conn n) (on_write status_ok ok (n_conn n)) Idle"
    "n_replies n' = n_replies n @ (if status_ok then [(l, r)] else [])"
    using assms(2) Write_done ph by (auto simp: net_step_def Let_def)
  then show ?thesis using queues_order(2) [OF on_write_queues [of "n_conn n" status_ok ok]] ph
    by (auto simp: shown_def)
qed

end
