(* ===== verification/PoolInv.thy ===== *)
theory PoolInv
  imports Pool
begin

text \<open>
  The invariant of the whole server when the lines that arrive are commands on keys for which there is
  room, and lines that touch nothing.
\<close>

section \<open>The invariant\<close>

definition harmless :: "byte list \<Rightarrow> bool" where
  "harmless l \<longleftrightarrow> request_of l = None \<and> refused l \<noteq> None"

text \<open>
  All lines so far are requests of \<open>Q\<close> or touch nothing, and come from the first \<open>n\<close> connections.
\<close>

definition asked :: "request set \<Rightarrow> nat \<Rightarrow> pool \<Rightarrow> bool" where
  "asked Q n p \<longleftrightarrow>
     (\<forall>k. \<forall>l\<in>set (c_queued (n_conn (p_nets p k))). k < n \<and> (harmless l \<or> (\<exists>rq\<in>Q. request_of l = Some rq)))"

definition job_ok :: "request set \<Rightarrow> world \<Rightarrow> world \<Rightarrow> phase \<Rightarrow> stage \<Rightarrow> bool" where
  "job_ok Q w0 w ph st \<longleftrightarrow>
     (case ph of
        Working l \<Rightarrow>
          harmless l \<and> st = Queued \<or>
          (\<exists>rq\<in>Q. request_of l = Some rq \<and> holds_ok w rq st \<and> stage_told Q w0 rq st)
      | _ \<Rightarrow> st = Queued)"

definition reply_ok :: "request set \<Rightarrow> world \<Rightarrow> byte list \<Rightarrow> byte list \<Rightarrow> bool" where
  "reply_ok Q w0 line resp \<longleftrightarrow>
     harmless line \<and> refused line = Some resp \<or>
     (\<exists>rq\<in>Q. \<exists>r. request_of line = Some rq \<and> resp = answer_text r \<and>
       (on_bit rq \<longrightarrow> r \<in> told Q w0 (request_hash rq) (request_bit rq)))"

definition pool_ok :: "request set \<Rightarrow> nat \<Rightarrow> world \<Rightarrow> pool \<Rightarrow> bool" where
  "pool_ok Q n w0 p \<longleftrightarrow>
     steady Q (p_world p) \<and> hung (p_world p) = hung w0 \<and>
     (\<forall>i. d_refs (descs (p_world p) i) = d_refs (descs w0 i) + of_nat (holders n (p_jobs p) i)) \<and>
     bits_ok Q w0 (p_world p) \<and>
     (\<forall>k. job_ok Q w0 (p_world p) (n_phase (p_nets p k)) (p_jobs p k)) \<and>
     (\<forall>k. \<forall>x\<in>set (shown (p_nets p k)). reply_ok Q w0 (fst x) (snd x))"

text \<open>What is known of the words of a line that is a request.\<close>

lemma request_lineE:
  assumes "request_of line = Some rq"
  obtains (set_line) name key off val where "10 \<le> length line" "take 5 line = str ''SETBI''"
      "line_words line = [name, key, off, val]" "0 \<le> atol off" "atol off div 8 \<le> FILE_SIZE_LIMIT"
      "atol val = 0 \<or> atol val = 1" "length (cstr key) \<le> 64"
      "rq = Set_request \<lparr>sb_key = cstr key, sb_offset = atol off, sb_value = atol val\<rparr>"
  | (get_line) name key off where "10 \<le> length line" "take 5 line = str ''GETBI''"
      "line_words line = [name, key, off]" "0 \<le> atol off" "atol off div 8 \<le> FILE_SIZE_LIMIT"
      "length (cstr key) \<le> 64" "rq = Get_request \<lparr>gb_key = cstr key, gb_offset = atol off\<rparr>"
  | (count_line) name key rest where "10 \<le> length line" "take 5 line = str ''BITCO''"
      "line_words line = name # key # rest" "length rest \<le> 2" "length (cstr key) \<le> 64"
      "rq = Count_request (cstr key) (if rest = [] then 0 else atol (rest ! 0))
         (if length rest = 2 then Some (atol (rest ! 1)) else None)"
  | (op_line) name opt dest srcs op hook where "10 \<le> length line" "take 5 line = str ''BITOP''"
      "line_words line = name # opt # dest # srcs" "srcs \<noteq> []" "length srcs \<le> 16"
      "parse_option opt = Some op" "op = OP_NOT \<Longrightarrow> length srcs = 1" "parse_hook dest = Some hook"
      "hook = NONE \<Longrightarrow> length (cstr dest) \<le> 64"
      "rq = Op_request \<lparr>bo_key = (if hook = NONE then cstr dest else []), bo_count = length srcs, bo_hook = hook,
         bo_option = op\<rparr> srcs"
proof -
  obtain name args where l: "10 \<le> length line" "line_words line = name # args" "command_error (take 5 line) args = None"
    "parse_request (take 5 line) args = Some rq"
    using assms by (auto simp: request_of_def split: if_splits list.splits)
  have ne: "str ''SETBI'' \<noteq> str ''GETBI''" "str ''BITCO'' \<noteq> str ''SETBI''" "str ''BITCO'' \<noteq> str ''GETBI''"
    "str ''BITCO'' \<noteq> str ''BITOP''" "str ''BITOP'' \<noteq> str ''SETBI''" "str ''BITOP'' \<noteq> str ''GETBI''"
    by (simp_all add: str_def)
  consider "take 5 line = str ''SETBI''" | "take 5 line = str ''GETBI''" | "take 5 line = str ''BITCO''"
    | "take 5 line = str ''BITOP''" using l(4) by (auto simp: parse_request_def split: if_splits)
  then show thesis
  proof cases
    case 1
    have e: "setbit_error args = None" using l(3) 1 by (simp add: command_error_def)
    then obtain key off val where a: "args = [key, off, val]"
      by (auto simp: setbit_error_def length_Suc_conv numeral_eq_Suc split: if_splits)
    show thesis by (rule that(1)) (use e l 1 in \<open>auto simp: a setbit_error_def bad_offset key_bad_def parse_request_def split: if_splits\<close>)
  next
    case 2
    have e: "getbit_error args = None" using l(3) 2 ne by (simp add: command_error_def)
    then obtain key off where a: "args = [key, off]"
      by (auto simp: getbit_error_def length_Suc_conv numeral_eq_Suc split: if_splits)
    show thesis
      by (rule that(2)) (use e l 2 ne in \<open>auto simp: a getbit_error_def bad_offset key_bad_def parse_request_def split: if_splits\<close>)
  next
    case 3
    have e: "bitcount_error args = None" using l(3) 3 ne by (simp add: command_error_def)
    then obtain key rest where a: "args = key # rest" "length rest \<le> 2"
      by (cases args) (auto simp: bitcount_error_def split: if_splits)
    show thesis
      by (rule that(3)) (use e l 3 ne a in \<open>auto simp: bitcount_error_def key_bad_def parse_request_def numeral_eq_Suc split: if_splits\<close>)
  next
    case 4
    have e: "bitop_error args = None" using l(3) 4 ne by (simp add: command_error_def)
    then have n: "3 \<le> length args" "length args \<le> 18" by (auto simp: bitop_error_def split: if_splits)
    then obtain opt dest srcs where a: "args = opt # dest # srcs"
      by (cases args; cases "tl args") auto
    obtain op where op: "parse_option opt = Some op" using e n by (auto simp: a bitop_error_def split: if_splits option.splits)
    obtain hook where h: "parse_hook dest = Some hook" using e n op by (auto simp: a bitop_error_def split: if_splits option.splits)
    show thesis
      by (rule that(4)) (use e l 4 ne n op h in \<open>auto simp: a bitop_error_def key_bad_def parse_request_def split: if_splits\<close>)
  qed
qed

lemma request_of_good: "request_of l = Some rq \<Longrightarrow> good_request rq"
proof (erule request_lineE)
  fix off key assume "0 \<le> atol off" "atol off div 8 \<le> FILE_SIZE_LIMIT"
    "rq = Get_request \<lparr>gb_key = cstr key, gb_offset = atol off\<rparr>"
  then show "good_request rq" using offset_range by simp
qed (auto simp: good_set_def atol_range)

lemma asked_before:
  assumes "pool_step e p = Some p'" and "asked Q n p'" and "\<And>k. net_inv (p_nets p k)"
  shows "asked Q n p"
proof -
  have "set (c_queued (n_conn (p_nets p k))) \<subseteq> set (c_queued (n_conn (p_nets p' k)))" for k
  proof (cases "p_nets p' k = p_nets p k")
    case False
    then obtain e' where e: "net_step e' (p_nets p k) = Some (p_nets p' k)" using pool_step_net [OF assms(1), of k] by blast
    show ?thesis
    proof (cases e')
      case (Recv a b c)
      then show ?thesis using recv_queues [OF assms(3)] e by (fastforce simp: queues_one_def)
    next
      case (Work_done a b c d)
      then show ?thesis using work_queues(1) e by auto
    next
      case (Write_done a b)
      then show ?thesis using sent_queues(2) e by (fastforce simp: queues_one_def)
    qed
  qed simp
  then show ?thesis using assms(2) unfolding asked_def by blast
qed

lemma queues_job:
  assumes "queues_one c c' ph ph'" and "job_ok Q w0 w ph st"
    and "\<forall>l\<in>set (c_queued c'). harmless l \<or> (\<exists>rq\<in>Q. request_of l = Some rq)"
  shows "job_ok Q w0 w ph' st"
  using assms holds_ok_queued by (auto simp: queues_one_def job_ok_def stage_told_def)

section \<open>Steps of a connection\<close>

lemma pool_ok_net:
  assumes ok: "pool_ok Q n w0 p" and h: "held st = held (p_jobs p k)"
    and job: "job_ok Q w0 (p_world p) (n_phase m) st"
    and rep: "\<And>x. x \<in> set (shown m) \<Longrightarrow> reply_ok Q w0 (fst x) (snd x)"
  shows "pool_ok Q n w0 (set_net k (p\<lparr>p_jobs := (p_jobs p)(k := st)\<rparr>) m)"
proof -
  have "held (((p_jobs p)(k := st)) t) = held (p_jobs p t)" for t using h by simp
  then have "holders n ((p_jobs p)(k := st)) i = holders n (p_jobs p) i" for i by (simp add: holders_def)
  then show ?thesis using ok job rep by (auto simp: pool_ok_def set_net_def)
qed

lemma pool_ok_same_job:
  assumes "pool_ok Q n w0 p" and "job_ok Q w0 (p_world p) (n_phase m) (p_jobs p k)"
    and "\<And>x. x \<in> set (shown m) \<Longrightarrow> reply_ok Q w0 (fst x) (snd x)"
  shows "pool_ok Q n w0 (set_net k p m)"
  using pool_ok_net [OF assms(1) refl assms(2,3)] by simp

lemma working_queued:
  assumes "net_inv m" and "n_phase m = Working l"
  shows "l \<in> set (c_queued (n_conn m))"
proof -
  have "subseq (map fst (n_replies m) @ [l]) (c_queued (n_conn m))"
    using assms by (simp add: net_inv_def order_ok_def in_flight_def)
  from list_emb_set [OF this, of l] show ?thesis by auto
qed

section \<open>Every step\<close>

lemma turn_pool_ok:
  assumes ok: "pool_ok Q n w0 p" and k: "k < n" and ph: "n_phase (p_nets p k) = Working line"
    and rq: "request_of line = Some rq" and e: "worker_step rq (p_jobs p k) (p_world p) = (st, w)"
  shows "pool_ok Q n w0 (p\<lparr>p_jobs := (p_jobs p)(k := st), p_world := w\<rparr>)"
proof -
  let ?jobs = "(p_jobs p)(k := st)"
  have sv: "steady Q (p_world p)" and bits: "bits_ok Q w0 (p_world p)"
    and refs: "\<And>i. d_refs (descs (p_world p) i) = d_refs (descs w0 i) + of_nat (holders n (p_jobs p) i)"
    using ok by (simp_all add: pool_ok_def)
  have job: "job_ok Q w0 (p_world p) (n_phase (p_nets p j)) (p_jobs p j)" for j using ok by (simp add: pool_ok_def)
  from job [of k] have q: "rq \<in> Q" and ho: "holds_ok (p_world p) rq (p_jobs p k)" and st: "stage_told Q w0 rq (p_jobs p k)"
    by (auto simp: job_ok_def ph rq harmless_def)
  note good = request_of_good [OF rq]
  have "step_ok Q rq (p_jobs p k) (p_world p) st w" by (rule worker_step_ok [OF sv q good ho e])
  then have re: "rehold Q (p_world p) w (held (p_jobs p k)) (held st)" and ho': "holds_ok w rq st"
    by (simp_all add: step_ok_def)
  have bits': "bits_ok Q w0 w" and st': "stage_told Q w0 rq st"
    using step_told [OF sv q good ho e bits st] by simp_all
  have "job_ok Q w0 w (n_phase (p_nets p j)) (?jobs j)" for j
  proof (cases "j = k")
    case True
    then show ?thesis using q rq ho' st' by (auto simp: job_ok_def ph)
  next
    case False
    have "holds_ok w r t" if "holds_ok (p_world p) r t" for r t
      by (rule holds_ok_kept [OF that]) (rule reholdD(3) [OF re])
    then show ?thesis using job [of j] False by (auto simp: job_ok_def split: phase.splits)
  qed
  moreover have "d_refs (descs w i) = d_refs (descs w0 i) + of_nat (holders n ?jobs i)" for i
    by (rule rehold_counts [where s = "p_jobs p", OF re k refs])
  ultimately show ?thesis using ok reholdD(1,2) [OF re] bits' by (simp add: pool_ok_def)
qed

lemma pool_ok_step:
  assumes ok: "pool_ok Q n w0 p" and inv: "\<And>k. net_inv (p_nets p k)" and e: "pool_step e p = Some p'"
    and ask: "asked Q n p'"
  shows "pool_ok Q n w0 p'"
proof -
  have ask0: "asked Q n p" by (rule asked_before [OF e ask inv])
  have lines: "\<forall>l\<in>set (c_queued (n_conn (p_nets p' k))). harmless l \<or> (\<exists>rq\<in>Q. request_of l = Some rq)" for k
    using ask by (auto simp: asked_def)
  have job: "job_ok Q w0 (p_world p) (n_phase (p_nets p k)) (p_jobs p k)" for k using ok by (simp add: pool_ok_def)
  have rep: "x \<in> set (shown (p_nets p k)) \<Longrightarrow> reply_ok Q w0 (fst x) (snd x)" for x k
    using ok by (auto simp: pool_ok_def)
  have here: "k < n" "harmless l \<or> (\<exists>rq\<in>Q. request_of l = Some rq)" if "n_phase (p_nets p k) = Working l" for k l
    using working_queued [OF inv that] ask0 by (auto simp: asked_def)
  show ?thesis
  proof (cases e)
    case (Incoming k res ra dok)
    then obtain m where m: "net_step (Recv res ra dok) (p_nets p k) = Some m" "p' = set_net k p m"
      using e by (auto simp: pool_step_def)
    have "set (shown m) \<subseteq> set (shown (p_nets p k))" using net_step_shown [OF inv m(1)] by auto
    moreover have "job_ok Q w0 (p_world p) (n_phase m) (p_jobs p k)"
      by (rule queues_job [OF recv_queues [OF inv m(1)] job]) (use lines [of k] m(2) in \<open>simp add: set_net_def\<close>)
    ultimately show ?thesis unfolding m(2) by (intro pool_ok_same_job [OF ok]) (auto intro: rep)
  next
    case (Sent k sok dok)
    then obtain m where m: "net_step (Write_done sok dok) (p_nets p k) = Some m" "p' = set_net k p m"
      using e by (auto simp: pool_step_def)
    have "set (shown m) \<subseteq> set (shown (p_nets p k))" using net_step_shown [OF inv m(1)] by auto
    moreover have "job_ok Q w0 (p_world p) Idle (p_jobs p k)"
      using job [of k] sent_queues(1) [OF m(1)] by (auto simp: job_ok_def)
    then have "job_ok Q w0 (p_world p) (n_phase m) (p_jobs p k)"
      by (rule queues_job [OF sent_queues(2) [OF m(1)]]) (use lines [of k] m(2) in \<open>simp add: set_net_def\<close>)
    ultimately show ?thesis unfolding m(2) by (intro pool_ok_same_job [OF ok]) (auto intro: rep)
  next
    case (Turn k)
    then obtain line rq where ph: "n_phase (p_nets p k) = Working line" and rq: "request_of line = Some rq"
      using e by (auto simp: pool_step_def split: phase.splits option.splits)
    obtain st w where s: "worker_step rq (p_jobs p k) (p_world p) = (st, w)" by fastforce
    then have "p' = p\<lparr>p_jobs := (p_jobs p)(k := st), p_world := w\<rparr>"
      using e Turn ph rq by (simp add: pool_step_def)
    then show ?thesis using turn_pool_ok [OF ok here(1) [OF ph] ph rq s] by simp
  next
    case (Finish k sok wok)
    then obtain line where ph: "n_phase (p_nets p k) = Working line"
      using e by (auto simp: pool_step_def split: phase.splits)
    from here(2) [OF ph] show ?thesis
    proof
      assume h: "harmless line"
      then obtain resp where resp: "request_of line = None" "refused line = Some resp" by (auto simp: harmless_def)
      have "steady Q (p_world p)" using ok by (simp add: pool_ok_def)
      then have f: "faults (p_world p) = []" by (rule server_faults [OF steadyD(1)])
      note rl = refused_line [OF f resp(2)]
      have q: "p_jobs p k = Queued" using job [of k] resp(1) by (auto simp: job_ok_def ph)
      obtain oom m where m: "net_step (Work_done sok oom resp wok) (p_nets p k) = Some m" "p' = set_net k p m"
        using e Finish ph resp(1) rl by (auto simp: pool_step_def work_cb_def split_def)
      have "reply_ok Q w0 (fst x) (snd x)" if "x \<in> set (shown m)" for x
      proof -
        have "x \<in> set (shown (p_nets p k)) \<or> x = (line, resp)" using net_step_shown [OF inv m(1)] that ph by auto
        then show ?thesis using rep [of x k] h resp(2) by (auto simp: reply_ok_def)
      qed
      moreover have "job_ok Q w0 (p_world p) (n_phase m) (p_jobs p k)"
        using work_queues(2) [OF m(1)] q by (auto simp: job_ok_def split: phase.splits)
      ultimately show ?thesis unfolding m(2) by (intro pool_ok_same_job [OF ok]) simp_all
    next
    assume "\<exists>rq\<in>Q. request_of line = Some rq"
    then obtain rq where rq: "rq \<in> Q" "request_of line = Some rq" by blast
    obtain r m where r: "p_jobs p k = Answered r"
      and m: "net_step (Work_done sok False (answer_text r) wok) (p_nets p k) = Some m"
        "p' = set_net k (p\<lparr>p_jobs := (p_jobs p)(k := Queued)\<rparr>) m"
      using e Finish ph rq(2) by (auto simp: pool_step_def split: stage.splits)
    have told: "on_bit rq \<Longrightarrow> r \<in> told Q w0 (request_hash rq) (request_bit rq)"
      using job [of k] rq(2) by (auto simp: job_ok_def ph r harmless_def stage_told_def)
    have "reply_ok Q w0 (fst x) (snd x)" if "x \<in> set (shown m)" for x
    proof -
      have "x \<in> set (shown (p_nets p k)) \<or> x = (line, answer_text r)"
        using net_step_shown [OF inv m(1)] that ph by auto
      then show ?thesis using rep [of x k] told rq by (auto simp: reply_ok_def)
    qed
    moreover have "job_ok Q w0 (p_world p) (n_phase m) Queued"
      using work_queues(2) [OF m(1)] by (auto simp: job_ok_def split: phase.splits)
    ultimately show ?thesis unfolding m(2) by (intro pool_ok_net [OF ok]) (simp_all add: r)
    qed
  qed
qed

lemma pooled_ok:
  assumes "pooled w p" and "steady Q w"
  shows "asked Q n p \<Longrightarrow> pool_ok Q n w p"
  using assms(1)
proof (induction rule: pooled.induct)
  case opened
  show ?case using assms(2)
    by (simp add: pool_ok_def holders_def bits_ok_start job_ok_def init_net_def shown_def)
next
  case (happens p e p')
  have inv: "net_inv (p_nets p k)" for k by (rule pooled_inv [OF happens.hyps(1)])
  have "pool_ok Q n w p" by (rule happens.IH [OF asked_before [OF happens.hyps(2) happens.prems inv]])
  then show ?case using pool_ok_step inv happens.hyps(2) happens.prems by blast
qed

section \<open>What it says\<close>

lemma job_holds:
  assumes ok: "pool_ok Q n w0 p" and h: "i \<in> set (held (p_jobs p k))"
  obtains line rq where "n_phase (p_nets p k) = Working line" "request_of line = Some rq" "rq \<in> Q"
    "holds_ok (p_world p) rq (p_jobs p k)"
proof -
  have "job_ok Q w0 (p_world p) (n_phase (p_nets p k)) (p_jobs p k)" using ok by (simp add: pool_ok_def)
  then show thesis using that h by (fastforce simp: job_ok_def split: phase.splits)
qed

lemma job_load:
  assumes "pool_ok Q n w0 p"
  shows "length (held (p_jobs p k)) \<le> 17"
proof (cases "held (p_jobs p k)")
  case (Cons i ds)
  then have "i \<in> set (held (p_jobs p k))" by simp
  then obtain line rq where r: "request_of line = Some rq" "holds_ok (p_world p) rq (p_jobs p k)"
    using job_holds [OF assms] by blast
  have "load rq \<le> 17" by (rule good_load [OF request_of_good [OF r(1)]])
  then show ?thesis using r(2) by (simp add: holds_ok_def)
qed simp

lemma pool_ok_files:
  assumes ok: "pool_ok Q n w0 p" and inv: "\<And>k. net_inv (p_nets p k)" and ask: "asked Q n p" and n: "17 * n < 2 ^ 32"
  shows "server_ok (p_world p) \<and> hung (p_world p) = hung w0 \<and>
    (\<forall>i. d_refs (descs (p_world p) i) = d_refs (descs w0 i) + of_nat (holders n (p_jobs p) i)) \<and>
    (\<forall>k. \<forall>i\<in>set (held (p_jobs p k)).
      (\<exists>line rq. n_phase (p_nets p k) = Working line \<and> request_of line = Some rq \<and>
        live (p_world p) i \<and> d_hash (descs (p_world p) i) \<in> request_hashes rq) \<and>
      (d_refs (descs w0 i) = 0 \<longrightarrow> d_refs (descs (p_world p) i) \<noteq> 0))"
proof (intro conjI allI ballI impI)
  fix k i
  assume h: "i \<in> set (held (p_jobs p k))"
  obtain line rq where ph: "n_phase (p_nets p k) = Working line" and r: "request_of line = Some rq"
    and ho: "holds_ok (p_world p) rq (p_jobs p k)"
    by (rule job_holds [OF ok h])
  then show "\<exists>line rq. n_phase (p_nets p k) = Working line \<and> request_of line = Some rq \<and>
      live (p_world p) i \<and> d_hash (descs (p_world p) i) \<in> request_hashes rq"
    using h by (auto simp: holds_ok_def)
  have k: "k < n" using working_queued [OF inv ph] ask by (auto simp: asked_def)
  assume z: "d_refs (descs w0 i) = 0"
  have "of_nat (holders n (p_jobs p) i) \<noteq> (0 :: u32)"
    by (rule holders_nonzero [OF holders_pos [where s = "p_jobs p", OF k h]
        holders_le [where m = 17 and s = "p_jobs p", OF job_load [OF ok]] n])
  then show "d_refs (descs (p_world p) i) \<noteq> 0" using ok z by (simp add: pool_ok_def)
qed (use ok steadyD(1) in \<open>auto simp: pool_ok_def\<close>)

lemma pool_ok_values:
  assumes "pool_ok Q n w0 p"
  shows "(\<forall>k line resp. (line, resp) \<in> set (n_replies (p_nets p k)) \<longrightarrow>
      harmless line \<and> refused line = Some resp \<or>
      (\<exists>rq\<in>Q. \<exists>r. request_of line = Some rq \<and> resp = answer_text r \<and>
        (on_bit rq \<longrightarrow> r \<in> told Q w0 (request_hash rq) (request_bit rq)))) \<and>
    (\<forall>h b. of_bool (cell_bit (p_world p) h b) \<in> told Q w0 h b) \<and>
    (\<forall>h b. h \<notin> dest_hashes Q \<and>
      (\<forall>cmd. Set_request cmd \<in> Q \<and> key_hash (sb_key cmd) = h \<longrightarrow> position_in cmd \<noteq> b) \<longrightarrow>
      cell_bit (p_world p) h b = cell_bit w0 h b)"
proof (intro conjI allI impI)
  have bits: "of_bool (cell_bit (p_world p) h b) \<in> told Q w0 h b" for h b
    using assms by (simp add: pool_ok_def bits_ok_def)
  then show "of_bool (cell_bit (p_world p) h b) \<in> told Q w0 h b" for h b .
  show "harmless line \<and> refused line = Some resp \<or>
      (\<exists>rq\<in>Q. \<exists>r. request_of line = Some rq \<and> resp = answer_text r \<and>
        (on_bit rq \<longrightarrow> r \<in> told Q w0 (request_hash rq) (request_bit rq)))"
    if "(line, resp) \<in> set (n_replies (p_nets p k))" for k line resp
  proof -
    have "(line, resp) \<in> set (shown (p_nets p k))" using that by (simp add: shown_def)
    then have "reply_ok Q w0 line resp" using assms by (force simp: pool_ok_def)
    then show ?thesis by (simp add: reply_ok_def)
  qed
  show "cell_bit (p_world p) h b = cell_bit w0 h b"
    if "h \<notin> dest_hashes Q \<and> (\<forall>cmd. Set_request cmd \<in> Q \<and> key_hash (sb_key cmd) = h \<longrightarrow> position_in cmd \<noteq> b)" for h b
    using bits [of h b] that by (auto simp: told_def)
qed

end
