(* ===== verification/WorkersInv.thy ===== *)
theory WorkersInv
  imports WorkersBits
begin

text \<open>
  The invariant of the threads of \<open>Workers\<close> under every schedule, when no two of them write the same
  byte: the byte of each SETBIT goes from its old to its new value when its thread writes. BITCOUNT and
  BITOP run beside them; a BITOP has its destination for itself.
\<close>

section \<open>The invariant\<close>

text \<open>The bytes that a thread writes.\<close>

primrec targets :: "request \<Rightarrow> u64 \<Rightarrow> nat \<Rightarrow> bool" where
  "targets (Set_request cmd) h k \<longleftrightarrow> key_hash (sb_key cmd) = h \<and> position_in cmd div 8 = k"
| "targets (Get_request cmd) h k \<longleftrightarrow> False"
| "targets (Count_request key s e) h k \<longleftrightarrow> False"
| "targets (Op_request cmd srcs) h k \<longleftrightarrow> h \<in> request_dests (Op_request cmd srcs)"

text \<open>What the stage of a thread says; \<open>b\<close> is the byte at the beginning and \<open>now\<close> the present one.\<close>

primrec set_stage :: "setbit_cmd \<Rightarrow> byte \<Rightarrow> byte \<Rightarrow> stage \<Rightarrow> bool" where
  "set_stage cmd b now Queued \<longleftrightarrow> now = b"
| "set_stage cmd b now (Holds i) \<longleftrightarrow> now = b"
| "set_stage cmd b now (Middle i b' bv) \<longleftrightarrow> now = b \<and> b' = b \<and> bv = b AND push_bit (7 - position_in cmd mod 8) 1"
| "set_stage cmd b now (Counting i remaining off bits) \<longleftrightarrow> False"
| "set_stage cmd b now (Sources d dts keys) \<longleftrightarrow> False"
| "set_stage cmd b now (Block d dts m ss offset bits bufs) \<longleftrightarrow> False"
| "set_stage cmd b now (Storing d dts m ss offset next bits p) \<longleftrightarrow> False"
| "set_stage cmd b now (Leaving ds r) \<longleftrightarrow>
     now = new_bit cmd b \<and> r = of_bool (bit b (7 - position_in cmd mod 8))"
| "set_stage cmd b now (Answered r) \<longleftrightarrow>
     now = new_bit cmd b \<and> r = of_bool (bit b (7 - position_in cmd mod 8))"

primrec get_stage :: "int set \<Rightarrow> stage \<Rightarrow> bool" where
  "get_stage rs Queued \<longleftrightarrow> True"
| "get_stage rs (Holds i) \<longleftrightarrow> True"
| "get_stage rs (Middle i b' bv) \<longleftrightarrow> False"
| "get_stage rs (Counting i remaining off bits) \<longleftrightarrow> False"
| "get_stage rs (Sources d dts keys) \<longleftrightarrow> False"
| "get_stage rs (Block d dts m ss offset bits bufs) \<longleftrightarrow> False"
| "get_stage rs (Storing d dts m ss offset next bits p) \<longleftrightarrow> False"
| "get_stage rs (Leaving ds r) \<longleftrightarrow> r \<in> rs"
| "get_stage rs (Answered r) \<longleftrightarrow> r \<in> rs"

primrec stage_ok :: "request list \<Rightarrow> world \<Rightarrow> world \<Rightarrow> stage \<Rightarrow> request \<Rightarrow> bool" where
  "stage_ok rs w0 w st (Set_request cmd) \<longleftrightarrow>
     set_stage cmd (cell w0 (key_hash (sb_key cmd)) (position_in cmd div 8))
       (cell w (key_hash (sb_key cmd)) (position_in cmd div 8)) st"
| "stage_ok rs w0 w st (Get_request cmd) \<longleftrightarrow>
     get_stage (told (set rs) w0 (key_hash (gb_key cmd)) (nat (gb_offset cmd))) st"
| "stage_ok rs w0 w st (Count_request key s e) \<longleftrightarrow> True"
| "stage_ok rs w0 w st (Op_request cmd srcs) \<longleftrightarrow> True"

definition workers_ok :: "request list \<Rightarrow> world \<Rightarrow> workers \<Rightarrow> bool" where
  "workers_ok rs w0 c \<longleftrightarrow> refs_ok rs w0 c \<and>
     (\<forall>t<length rs. stage_ok rs w0 (snd c) (fst c t) (rs ! t)) \<and>
     (\<forall>h k. (\<forall>t<length rs. \<not> targets (rs ! t) h k) \<longrightarrow> cell (snd c) h k = cell w0 h k)"

text \<open>No two threads write the same byte.\<close>

definition apart :: "request list \<Rightarrow> bool" where
  "apart rs \<longleftrightarrow> (\<forall>t<length rs. \<forall>u<length rs. \<forall>h k. targets (rs ! t) h k \<and> targets (rs ! u) h k \<longrightarrow> t = u)"

lemma stage_ok_other:
  assumes "\<And>h k. targets rq h k \<Longrightarrow> cell w' h k = cell w h k"
  shows "stage_ok rs w0 w' st rq = stage_ok rs w0 w st rq"
proof (cases rq)
  case (Set_request cmd)
  have "cell w' (key_hash (sb_key cmd)) (position_in cmd div 8) = cell w (key_hash (sb_key cmd)) (position_in cmd div 8)"
    by (rule assms) (simp add: Set_request)
  then show ?thesis by (simp add: Set_request)
qed simp_all

lemma workers_ok_step:
  assumes inv: "workers_ok rs w0 (s, w)" and t: "t < length rs" and ap: "apart rs"
    and refs: "refs_ok rs w0 (s(t := st), w')" and st: "stage_ok rs w0 w' st (rs ! t)"
    and cells: "\<And>h k. \<not> targets (rs ! t) h k \<Longrightarrow> cell w' h k = cell w h k"
  shows "workers_ok rs w0 (s(t := st), w')"
proof -
  let ?n = "length rs" and ?s = "s(t := st)"
  have "stage_ok rs w0 w' (?s u) (rs ! u)" if u: "u < ?n" for u
  proof (cases "u = t")
    case False
    have "cell w' h k = cell w h k" if "targets (rs ! u) h k" for h k
      using that ap u t False by (intro cells) (auto simp: apart_def)
    then have "stage_ok rs w0 w' (s u) (rs ! u)"
      using inv u stage_ok_other [of "rs ! u" w' w rs w0 "s u"] by (simp add: workers_ok_def)
    then show ?thesis using False by simp
  qed (use st in simp)
  moreover have "cell w' h k = cell w0 h k" if "\<forall>u<?n. \<not> targets (rs ! u) h k" for h k
    using inv that t cells [of h k] by (simp add: workers_ok_def)
  ultimately show ?thesis using refs by (simp add: workers_ok_def)
qed

text \<open>The bit that is read is one that the thread may be told.\<close>

lemma told_now:
  assumes inv: "workers_ok rs w0 (s, w)" and good: "\<forall>rq\<in>set rs. good_request rq"
  shows "of_bool (cell_bit w h p) \<in> told (set rs) w0 h p"
proof -
  consider (no) "\<forall>t<length rs. \<not> targets (rs ! t) h (p div 8)" | (dest) "h \<in> dest_hashes (set rs)"
    | (set) t cmd where "t < length rs" "rs ! t = Set_request cmd" "key_hash (sb_key cmd) = h"
        "position_in cmd div 8 = p div 8"
  proof (cases "\<exists>t<length rs. targets (rs ! t) h (p div 8)")
    case True
    then obtain t where t: "t < length rs" "targets (rs ! t) h (p div 8)" by blast
    then show thesis using that dest_hashes_mem [OF nth_mem [OF t(1)], of h] by (cases "rs ! t") auto
  qed (use that in blast)
  then show ?thesis
  proof cases
    case no
    then have "cell w h (p div 8) = cell w0 h (p div 8)" using inv by (simp add: workers_ok_def)
    then show ?thesis by (simp add: told_def cell_bit_cell)
  next
    case dest
    then show ?thesis by (rule told_dest)
  next
    case (set t cmd)
    note t = set(1) and c = set(2-4)
    have m: "Set_request cmd \<in> set rs" using t c(1) by (metis nth_mem)
    have st: "set_stage cmd (cell w0 h (p div 8)) (cell w h (p div 8)) (s t)"
      using inv t c by (auto simp: workers_ok_def)
    show ?thesis
    proof (cases "cell w h (p div 8) = cell w0 h (p div 8)")
      case False
      then have "cell w h (p div 8) = new_bit cmd (cell w0 h (p div 8))"
        using st by (cases "s t") auto
      moreover have "7 - p mod 8 < 8" "7 - position_in cmd mod 8 < 8" by simp_all
      ultimately have b: "cell_bit w h p = (if p = position_in cmd then sb_value cmd = 1 else cell_bit w0 h p)"
        using same_bit_iff [of p "position_in cmd"] c(3) by (simp add: cell_bit_cell new_bit_def bit_put_bit)
      moreover have "sb_value cmd = 0 \<or> sb_value cmd = 1" using good m good_set_range(4) by force
      ultimately show ?thesis using m c(2) by (auto simp: told_def)
    qed (simp add: told_def cell_bit_cell)
  qed
qed

section \<open>Every turn keeps it\<close>

lemma turn_ok:
  assumes inv: "workers_ok rs w0 (s, w)" and t: "t < length rs" and ap: "apart rs"
    and good: "\<forall>rq\<in>set rs. good_request rq"
    and e: "worker_step (rs ! t) (s t) w = (st, w')"
  shows "workers_ok rs w0 (s(t := st), w')"
proof -
  have refs: "refs_ok rs w0 (s, w)" and so: "stage_ok rs w0 w (s t) (rs ! t)"
    using inv t by (simp_all add: workers_ok_def)
  then have ok: "steady (set rs) w" and ho: "holds_ok w (rs ! t) (s t)" using t by (simp_all add: refs_ok_def)
  have mem: "rs ! t \<in> set rs" using t by simp
  have gd: "good_request (rs ! t)" using good mem by blast
  note step = workers_ok_step [OF inv t ap refs_ok_step [OF refs good t e]]
  show ?thesis
  proof (cases "rs ! t")
    case rq: (Set_request cmd)
    let ?h = "key_hash (sb_key cmd)" and ?k = "position_in cmd div 8"
    have g: "good_set cmd" using gd by (simp add: rq)
    have key: "?h \<in> all_hashes (set rs)" by (rule all_hashes_mem [OF mem]) (simp add: rq)
    show ?thesis
    proof (cases "s t")
      case Queued
      obtain i v where p: "prepare_file (sb_key cmd) 0 w = (0, Some i, v)" "cell v = cell w"
        using set_acquires [OF ok key] unfolding takes_def by blast
      then have "st = Holds i" "w' = v" using e by (simp_all add: Queued rq)
      then show ?thesis using p so by (intro step) (simp_all add: Queued rq)
    next
      case (Holds i)
      have l: "live w i" "d_hash (descs w i) = ?h" using ho by (simp_all add: Holds holds_ok_def request_hash_def rq)
      let ?b = "cell w ?h ?k"
      obtain x v where r: "setbit_read cmd i w = (x, v)" "cell v = cell w"
        "x = Inr (?b, ?b AND push_bit (7 - position_in cmd mod 8) 1) \<or> x = Inl 0 \<and> ?b = 0 \<and> sb_value cmd = 0"
        using set_reads [OF ok l g] by blast
      have w': "w' = v" using e r(1) by (simp add: Holds rq split: sum.splits prod.splits)
      from r(3) show ?thesis
      proof
        assume x: "x = Inr (?b, ?b AND push_bit (7 - position_in cmd mod 8) 1)"
        then have "st = Middle i ?b (?b AND push_bit (7 - position_in cmd mod 8) 1)"
          using e r(1) by (simp add: Holds rq)
        then show ?thesis using r(2) so by (intro step) (simp_all add: Holds rq w')
      next
        assume x: "x = Inl 0 \<and> ?b = 0 \<and> sb_value cmd = 0"
        then have "st = Leaving [i] 0" using e r(1) by (simp add: Holds rq)
        then show ?thesis using r(2) so x written_byte [of ?b cmd] by (intro step) (simp_all add: Holds rq w')
      qed
    next
      case (Middle i b bv)
      have l: "live w i" "d_hash (descs w i) = ?h" using ho by (simp_all add: Middle holds_ok_def request_hash_def rq)
      obtain v where r: "setbit_write cmd i (b, bv) w = (if bv \<noteq> 0 then 1 else 0, v)"
        "\<And>g k. cell v g k = (if g = ?h \<and> k = ?k then new_bit cmd b else cell w g k)"
        using set_writes [OF ok l g, of b bv] by blast
      have w': "w' = v" and st: "st = Leaving [i] (if bv \<noteq> 0 then 1 else 0)" using e r(1) by (simp_all add: Middle rq)
      show ?thesis
        using so read_bit [of b "position_in cmd"] by (intro step) (auto simp: Middle rq w' st r(2))
    next
      case (Leaving ds r)
      have "cell w' = cell w" "st = depart (tl ds) r"
        using leave_step_ok(2) [OF ok, of "rs ! t" ds r] ho e by (simp_all add: Leaving rq leave_def)
      then show ?thesis using so by (intro step) (simp_all add: Leaving rq depart_def)
    next
      case (Answered r)
      then show ?thesis using e inv by (simp add: rq fun_upd_idem)
    qed (use so rq in simp_all)
  next
    case rq: (Get_request cmd)
    let ?h = "key_hash (gb_key cmd)" and ?p = "nat (gb_offset cmd)"
    have rg: "0 \<le> gb_offset cmd" "gb_offset cmd < 2 ^ 63" using gd by (simp_all add: rq)
    note now = told_now [OF inv good, of ?h ?p]
    show ?thesis
    proof (cases "s t")
      case Queued
      have key: "?h \<in> all_hashes (set rs)" by (rule all_hashes_mem [OF mem]) (simp add: rq)
      from get_acquires [OF ok key] consider
        (open_file) i v where "prepare_file (gb_key cmd) 1 w = (0, Some i, v)" "cell v = cell w"
        | (absent) v where "prepare_file (gb_key cmd) 1 w = (-2, None, v)" "cell v = cell w" "\<forall>p. \<not> cell_bit w ?h p"
        unfolding takes_def by blast
      then show ?thesis
      proof cases
        case open_file
        then have "st = Holds i" "w' = v" using e by (simp_all add: Queued rq del: One_nat_def)
        then show ?thesis using open_file so by (intro step) (simp_all add: Queued rq)
      next
        case absent
        then have "st = Answered 0" "w' = v" using e by (simp_all add: Queued rq del: One_nat_def)
        then show ?thesis using absent now by (intro step) (simp_all add: Queued rq)
      qed
    next
      case (Holds i)
      have l: "live w i" "d_hash (descs w i) = ?h" using ho by (simp_all add: Holds holds_ok_def request_hash_def rq)
      obtain v where r: "getbitCommand cmd i w = (of_bool (cell_bit w ?h ?p), v)" "cell v = cell w"
        using get_reads [OF ok l rg] by blast
      then have "w' = v" "st = Leaving [i] (of_bool (cell_bit w ?h ?p))" using e by (simp_all add: Holds rq)
      then show ?thesis using r(2) now by (intro step) (simp_all add: Holds rq)
    next
      case (Leaving ds r)
      have "cell w' = cell w" "st = depart (tl ds) r"
        using leave_step_ok(2) [OF ok, of "rs ! t" ds r] ho e by (simp_all add: Leaving rq leave_def)
      then show ?thesis using so by (intro step) (simp_all add: Leaving rq depart_def)
    next
      case (Answered r)
      then show ?thesis using e inv by (simp add: rq fun_upd_idem)
    qed (use so rq in simp_all)
  next
    case rq: (Count_request key a n)
    have "moves (set rs) (rs ! t) (s t) w st w'" using count_moves [OF ok] mem gd ho e by (simp add: rq)
    then show ?thesis by (intro step) (simp_all add: rq moves_cell)
  next
    case rq: (Op_request cmd srcs)
    have "moves (set rs) (rs ! t) (s t) w st w'" using op_moves [OF ok] mem ho e by (simp add: rq)
    then show ?thesis by (intro step) (simp_all add: rq moves_cell)
  qed
qed

end
