(* ===== verification/WorkersTurns.thy ===== *)
theory WorkersTurns
  imports WorkersInv
begin

text \<open>
  Every thread ends: each of its turns brings it nearer to its answer, whatever the other threads do in
  between, so a number of turns that depends on its command alone is always enough.
\<close>

section \<open>The stages of a command\<close>

definition fits :: "request \<Rightarrow> stage \<Rightarrow> bool" where
  "fits rq st \<longleftrightarrow>
     (case st of
        Queued \<Rightarrow> True
      | Holds i \<Rightarrow> (\<forall>cmd srcs. rq \<noteq> Op_request cmd srcs)
      | Middle i b bv \<Rightarrow> (\<exists>cmd. rq = Set_request cmd)
      | Counting i remaining off bits \<Rightarrow> (\<exists>key s e. rq = Count_request key s e)
      | Sources d dts keys \<Rightarrow> (\<exists>cmd srcs. rq = Op_request cmd srcs)
      | Block d dts m ss offset bits bufs \<Rightarrow> (\<exists>cmd srcs. rq = Op_request cmd srcs)
      | Storing d dts m ss offset next bits p \<Rightarrow> (\<exists>cmd srcs. rq = Op_request cmd srcs)
      | Leaving ds r \<Rightarrow> True
      | Answered r \<Rightarrow> True)"

lemma fits_simps [simp]:
  "fits rq Queued" "fits rq (Leaving ds r)" "fits rq (Answered r)" "fits rq (depart ds r)"
  "fits rq (Holds i) \<longleftrightarrow> (\<forall>cmd srcs. rq \<noteq> Op_request cmd srcs)"
  "fits rq (Middle i b bv) \<longleftrightarrow> (\<exists>cmd. rq = Set_request cmd)"
  "fits rq (Counting i remaining off bits) \<longleftrightarrow> (\<exists>key s e. rq = Count_request key s e)"
  "fits rq (Sources d dts keys) \<longleftrightarrow> (\<exists>cmd srcs. rq = Op_request cmd srcs)"
  "fits rq (Block d dts m ss offset bits bufs) \<longleftrightarrow> (\<exists>cmd srcs. rq = Op_request cmd srcs)"
  "fits rq (Storing d dts m ss offset nxt bits p) \<longleftrightarrow> (\<exists>cmd srcs. rq = Op_request cmd srcs)"
  by (simp_all add: fits_def depart_def)

lemma bitop_fits: "fits (Op_request cmd srcs) st \<Longrightarrow> fits (Op_request cmd srcs) (fst (bitop_turn cmd srcs st w))"
proof (cases st)
  case (Sources d dts keys)
  then show ?thesis by (simp add: bitop_start_def split_def Let_def)
next
  case (Block d dts m ss offset bits bufs)
  then show ?thesis
    by (simp add: split_def Let_def split: option.split OP_HOOKS.split)
qed (simp_all add: split_def Let_def leave_def)

lemma fits_step: "fits rq st \<Longrightarrow> fits rq (fst (worker_step rq st w))"
proof (cases rq)
  case (Set_request cmd)
  then show "fits rq st \<Longrightarrow> ?thesis" by (cases st) (auto simp: leave_def Let_def split: prod.split sum.split)
next
  case (Get_request cmd)
  then show "fits rq st \<Longrightarrow> ?thesis" by (cases st) (auto simp: leave_def Let_def split: prod.split)
next
  case (Count_request key s e)
  then show "fits rq st \<Longrightarrow> ?thesis"
    by (cases st) (auto simp: leave_def bitcount_start_def Let_def split: prod.split)
next
  case (Op_request cmd srcs)
  then show "fits rq st \<Longrightarrow> ?thesis" using bitop_fits by simp
qed

section \<open>How many turns are left\<close>

text \<open>A file of 2 GiB has 1873 blocks.\<close>

definition file_blocks :: nat where
  "file_blocks = 1873"

definition op_turns :: "nat \<Rightarrow> nat" where
  "op_turns n = file_blocks * (n + 2) + 1 + (n + 1)"

primrec max_turns :: "request \<Rightarrow> nat" where
  "max_turns (Set_request cmd) = 4"
| "max_turns (Get_request cmd) = 3"
| "max_turns (Count_request key s e) = 2 ^ 31 + 4"
| "max_turns (Op_request cmd srcs) = length srcs + 2 + op_turns (length srcs)"

primrec turns_left :: "request \<Rightarrow> stage \<Rightarrow> nat" where
  "turns_left rq Queued = max_turns rq"
| "turns_left rq (Holds i) = max_turns rq - 1"
| "turns_left rq (Middle i b bv) = 2"
| "turns_left rq (Counting i remaining off bits) = remaining + 2"
| "turns_left rq (Sources d dts keys) = length keys + 1 + op_turns (load rq - 1)"
| "turns_left rq (Block d dts m ss offset bits bufs) =
     (blocks_left ss m + of_bool (m < length bufs)) * (length ss + 2) - length bufs + 1 + length (somes (d # dts))"
| "turns_left rq (Storing d dts m ss offset next bits p) =
     blocks_left ss m * (length ss + 2) + 2 + length (somes (d # dts))"
| "turns_left rq (Leaving ds r) = (if ds = [] then 1 else length ds)"
| "turns_left rq (Answered r) = 0"

lemma turns_left_depart [simp]: "turns_left rq (depart ds r) = length ds"
  by (cases ds) (simp_all add: depart_def)

lemma no_turns_left: "turns_left rq st = 0 \<Longrightarrow> fits rq st \<Longrightarrow> \<exists>r. st = Answered r"
  by (cases st; cases rq) (auto split: if_splits)

lemma at_block_le: "at_block ss m t offset \<Longrightarrow> t \<le> file_blocks"
proof -
  assume a: "at_block ss m t offset"
  show "t \<le> file_blocks"
  proof (cases "t = 0")
    case False
    then obtain k where "k + (t - 1) * FILE_BUFFER_SIZE + last_left ss m \<le> 2 ^ 31" using a by (auto simp: at_block_def)
    then have "(t - 1) * 1146880 \<le> 2147483648" by (simp add: FILE_BUFFER_SIZE_def)
    then have "t - 1 \<le> 1872" by linarith
    then show ?thesis by (simp add: file_blocks_def)
  qed simp
qed

section \<open>Every turn of a thread counts\<close>

lemma bit_progress:
  assumes "worker_step rq st w = (st', w')" and "fits rq st" and "on_bit rq"
  shows "turns_left rq st' \<le> turns_left rq st - 1"
  using assms by (cases rq; cases st) (auto simp: leave_def depart_def split: prod.splits if_splits sum.splits)

lemma count_progress:
  assumes e: "bitcount_turn key s n st w = (st', w')" and fit: "fits (Count_request key s n) st"
    and ho: "holds_ok w' (Count_request key s n) st'"
  shows "turns_left (Count_request key s n) st' \<le> turns_left (Count_request key s n) st - 1"
proof (cases st)
  case (Holds i)
  have c: "off + remaining \<le> 2 ^ 31" if "st' = Counting j remaining off bits" for j remaining off bits
    using ho that by (simp add: holds_ok_def)
  have "(\<exists>r. st' = Leaving [i] r) \<or> (\<exists>remaining off. st' = Counting i remaining off 0)"
    using e by (auto simp: Holds bitcount_start_def Let_def split: if_splits prod.splits)
  then show ?thesis using c by (auto simp: Holds)
next
  case (Counting i remaining off bits)
  then show ?thesis using e by (auto simp: Let_def split: if_splits prod.splits)
next
  case (Leaving ds r)
  then show ?thesis using e by (auto simp: leave_def)
qed (use e fit in \<open>auto split: if_splits prod.splits\<close>)

lemma block_reads:
  assumes "\<not> (bufs = [] \<and> blocks_left ss m = 0)" and "length bufs < length ss"
  shows "\<exists>buf w'. bitop_turn cmd srcs (Block d dts m ss offset bits bufs) w =
    (Block d dts m (ss[length bufs := next_source (ss ! length bufs)]) offset bits (bufs @ [buf]), w')"
proof (cases "ss ! length bufs")
  case None
  then have "ss[length bufs := next_source (ss ! length bufs)] = ss"
    by (metis list_update_id next_source_def option.simps(8))
  then show ?thesis using assms None by auto
next
  case (Some x)
  obtain i t r where x: "x = (i, t, r)" by (cases x) auto
  show ?thesis
  proof (cases "t = 0")
    case True
    then have "next_source (ss ! length bufs) = ss ! length bufs" by (simp add: Some x next_source_def)
    then have "ss[length bufs := next_source (ss ! length bufs)] = ss" by (simp only: list_update_id)
    then show ?thesis using assms Some x True by auto
  next
    case False
    then show ?thesis
      unfolding bitop_turn.simps if_not_P [OF assms(1)] if_P [OF assms(2)]
      by (simp add: Some x next_source_def split_def Let_def)
  qed
qed

lemma op_progress:
  assumes e: "bitop_turn cmd srcs st w = (st', w')" and fit: "fits (Op_request cmd srcs) st"
    and ho: "holds_ok w (Op_request cmd srcs) st" and ho': "holds_ok w' (Op_request cmd srcs) st'"
  shows "turns_left (Op_request cmd srcs) st' \<le> turns_left (Op_request cmd srcs) st - 1"
proof (cases st)
  case Queued
  then show ?thesis using e by (auto split: if_splits prod.splits)
next
  case (Sources d dts keys)
  let ?n = "length srcs"
  have len: "length dts \<le> ?n" using ho by (simp add: Sources holds_ok_def)
  show ?thesis
  proof (cases "keys = []")
    case True
    have ld: "length (somes (d # dts)) \<le> ?n + 1" using length_somes [of "d # dts"] len by simp
    have "st' = depart (somes (d # dts)) 0 \<or> st' = depart (somes (d # dts)) (-1) \<or>
        (\<exists>m ss. length ss = length dts \<and> st' = Block d dts m ss 0 0 [])"
      using e by (auto simp: Sources True bitop_start_def Let_def simp del: somes.simps split: if_splits prod.splits)
    then have "turns_left (Op_request cmd srcs) st' \<le> file_blocks * (?n + 2) + 1 + (?n + 1)"
    proof (elim disjE exE conjE)
      fix m ss assume ss: "length ss = length dts" and st': "st' = Block d dts m ss 0 0 []"
      have "at_block ss m (blocks_left ss m) 0" using ho' st' by (simp add: holds_ok_def)
      then have "blocks_left ss m * (length ss + 2) \<le> file_blocks * (?n + 2)"
        using at_block_le ss len by (intro mult_le_mono) auto
      moreover have "turns_left (Op_request cmd srcs) st' = blocks_left ss m * (length ss + 2) + 1 + length (somes (d # dts))"
        by (simp add: st' del: somes.simps)
      ultimately show ?thesis using ld by linarith
    qed (use ld in \<open>simp_all del: somes.simps\<close>)
    moreover have "turns_left (Op_request cmd srcs) st = file_blocks * (?n + 2) + 1 + (?n + 1) + 1"
      by (simp add: Sources True op_turns_def)
    ultimately show ?thesis by linarith
  next
    case False
    have "length (butlast keys) + 1 = length keys" using False by (cases keys) simp_all
    moreover have "st' = depart (somes [d]) (-2) \<or> (\<exists>dt. st' = Sources d (dt # dts) (butlast keys))"
      using e False by (auto simp: Sources split: if_splits prod.splits)
    moreover have "length (somes [d]) \<le> op_turns ?n" using length_somes [of "[d]"] by (simp add: op_turns_def)
    ultimately show ?thesis by (auto simp: Sources simp del: somes.simps)
  qed
next
  case (Block d dts m ss offset bits bufs)
  let ?N = "length ss" and ?L = "length (somes (d # dts))" and ?b = "length bufs"
  have wf: "m < ?N" "?b \<le> ?N" "bufs \<noteq> [] \<longrightarrow> m < ?b \<or> blocks_left ss m \<noteq> 0"
    using ho by (simp_all add: Block holds_ok_def)
  consider (stop) "bufs = []" "blocks_left ss m = 0" | (read) "bufs \<noteq> [] \<or> blocks_left ss m \<noteq> 0" "?b < ?N"
    | (combine) "?b = ?N"
    using wf(2) by fastforce
  then show ?thesis
  proof cases
    case stop
    then show ?thesis using e by (auto simp: Block simp del: somes.simps)
  next
    case read
    let ?T = "blocks_left ss m + of_bool (m < ?b)"
    have ne: "\<not> (bufs = [] \<and> blocks_left ss m = 0)" using read by blast
    have nz: "?b \<le> m \<Longrightarrow> blocks_left ss m \<noteq> 0" using wf(3) read(1) by auto
    have T: "?T = Suc (?T - 1)" using wf(3) read(1) by auto
    have pos: "?N + 2 \<le> ?T * (?N + 2)" by (subst T) simp
    obtain buf v where "bitop_turn cmd srcs st w =
        (Block d dts m (ss[?b := next_source (ss ! ?b)]) offset bits (bufs @ [buf]), v)"
      unfolding Block using block_reads [OF ne read(2)] by blast
    then have st': "st' = Block d dts m (ss[?b := next_source (ss ! ?b)]) offset bits (bufs @ [buf])" using e by simp
    note bl = blocks_left_fill(1) [OF read(2)]
    have "blocks_left (ss[?b := next_source (ss ! ?b)]) m + of_bool (m < ?b + 1) = ?T"
      using nz by (cases m ?b rule: linorder_cases) (simp_all add: bl)
    then have "turns_left (Op_request cmd srcs) st' = ?T * (?N + 2) - (?b + 1) + 1 + ?L"
      by (simp add: st' del: somes.simps)
    moreover have "turns_left (Op_request cmd srcs) st = ?T * (?N + 2) - ?b + 1 + ?L" by (simp add: Block del: somes.simps)
    ultimately show ?thesis using pos read(2) by linarith
  next
    case combine
    let ?t = "blocks_left ss m"
    have ne: "bufs \<noteq> []" "m < ?b" using combine wf(1) by auto
    have "turns_left (Op_request cmd srcs) st = ?t * (?N + 2) + 3 + ?L"
      using combine ne(2) by (simp add: Block del: somes.simps)
    moreover have "turns_left (Op_request cmd srcs) st' \<le> ?t * (?N + 2) + 2 + ?L"
      using e combine ne by (auto simp: Block Let_def simp del: somes.simps split: OP_HOOKS.splits if_splits)
    ultimately show ?thesis by linarith
  qed
next
  case (Storing d dts m ss offset nxt bits p)
  then show ?thesis using e by (auto simp del: somes.simps split: option.splits prod.splits if_splits)
next
  case (Leaving ds r)
  then show ?thesis using e by (auto simp: leave_def)
qed (use e fit in auto)

lemma worker_step_progress:
  assumes st: "steady Q w" and q: "rq \<in> Q" and good: "good_request rq" and ho: "holds_ok w rq st"
    and fit: "fits rq st" and e: "worker_step rq st w = (st', w')"
  shows "turns_left rq st' \<le> turns_left rq st - 1"
proof -
  have "step_ok Q rq st w st' w'" by (rule worker_step_ok [OF st q good ho e])
  then have ho': "holds_ok w' rq st'" by (simp add: step_ok_def)
  show ?thesis
  proof (cases rq)
    case (Count_request key s n)
    then show ?thesis using count_progress [of key s n st w st' w'] e fit ho' by simp
  next
    case (Op_request cmd srcs)
    then show ?thesis using op_progress [of cmd srcs st w st' w'] e fit ho ho' by simp
  qed (use bit_progress [OF e fit] in simp_all)
qed

section \<open>Whole schedules\<close>

lemma turns_of_replicate [simp]: "count_list (replicate n t) u = (if u = t then n else 0)"
  by (cases "u = t"; induction n) simp_all

definition going :: "request list \<Rightarrow> world \<Rightarrow> workers \<Rightarrow> bool" where
  "going rs w0 c \<longleftrightarrow> refs_ok rs w0 c \<and> (\<forall>t<length rs. fits (rs ! t) (fst c t))"

lemma turn_progress:
  assumes go: "going rs w0 c" and good: "\<forall>rq\<in>set rs. good_request rq" and t: "t < length rs"
  shows "going rs w0 (turn rs u c)"
    and "turns_left (rs ! t) (fst (turn rs u c) t) \<le> turns_left (rs ! t) (fst c t) - of_bool (u = t)"
proof -
  obtain s w where c: "c = (s, w)" by (cases c)
  obtain st w' where e: "worker_step (rs ! u) (s u) w = (st, w')" by (cases "worker_step (rs ! u) (s u) w")
  have "refs_ok rs w0 (turn rs u c)" using refs_ok_turn [OF _ good] go by (simp add: going_def)
  moreover have "fits (rs ! v) (fst (turn rs u c) v)" if "v < length rs" for v
    using go that fits_step [of "rs ! u" "s u" w] by (auto simp: going_def c turn_def e)
  ultimately show "going rs w0 (turn rs u c)" by (simp add: going_def)
  show "turns_left (rs ! t) (fst (turn rs u c) t) \<le> turns_left (rs ! t) (fst c t) - of_bool (u = t)"
  proof (cases "u = t")
    case True
    have e': "worker_step (rs ! t) (s t) w = (st, w')" using e True by simp
    have "turns_left (rs ! t) st \<le> turns_left (rs ! t) (s t) - 1"
      by (rule worker_step_progress [of "set rs" w, OF _ _ _ _ _ e'])
        (use go good t in \<open>auto simp: going_def refs_ok_def c\<close>)
    then show ?thesis using t by (simp add: True c turn_def e')
  qed (simp add: c turn_def e)
qed

lemma schedule_progress:
  assumes "going rs w0 c" and good: "\<forall>rq\<in>set rs. good_request rq" and t: "t < length rs"
  shows "going rs w0 (fold (turn rs) sched c) \<and>
    turns_left (rs ! t) (fst (fold (turn rs) sched c) t) \<le> turns_left (rs ! t) (fst c t) - count_list sched t"
  using assms(1)
proof (induction sched arbitrary: c)
  case (Cons u sched)
  note p = turn_progress [OF Cons.prems good t, of u]
  show ?case using Cons.IH [OF p(1)] p(2) by (auto split: if_splits)
qed simp

lemma schedule_answers:
  assumes "steady (set rs) w" and good: "\<forall>rq\<in>set rs. good_request rq" and t: "t < length rs"
    and "max_turns (rs ! t) \<le> count_list sched t"
  shows "\<exists>r. fst (run_schedule rs sched w) t = Answered r"
proof -
  have "going rs w (\<lambda>_. Queued, w)" using refs_ok_start [OF assms(1)] by (simp add: going_def)
  note p = schedule_progress [OF this good t, of sched, folded run_schedule_def]
  then have "turns_left (rs ! t) (fst (run_schedule rs sched w) t) = 0" using assms(4) by auto
  then show ?thesis using p t by (intro no_turns_left) (auto simp: going_def)
qed

end
