(* ===== verification/Sequences.thy ===== *)
theory Sequences
  imports Service Rejects
begin

text \<open>
  Several commands in a row: what a client that sets a bit and then reads one gets, and what becomes of
  a line behind a command that has no reply.
\<close>

lemma get_after_set:
  assumes ok: "server_ok v" and can: "can_open v (key_hash key)" and key: "length (cstr key) \<le> 64"
    and l1: "10 \<le> length l1" "take 5 l1 = str ''SETBI''" "line_words l1 = [name1, key, off1, val]"
    and l2: "10 \<le> length l2" "take 5 l2 = str ''GETBI''" "line_words l2 = [name2, key, off2]"
    and off1: "0 \<le> atol off1" "atol off1 div 8 \<le> FILE_SIZE_LIMIT"
    and off2: "0 \<le> atol off2" "atol off2 div 8 \<le> FILE_SIZE_LIMIT"
    and val: "atol val = 0 \<or> atol val = 1"
  defines "c \<equiv> content_or_empty (db v (key_hash key))"
  shows "fst (run_lines [l1, l2] v) =
    [dec_int (of_bool (get_bit c (nat (atol off1)))) @ [10],
     dec_int (of_bool (if atol off2 = atol off1 then atol val = 1 else get_bit c (nat (atol off2)))) @ [10]]"
proof -
  note s = setbit_line [OF ok l1 off1 val key can]
  let ?v = "snd (parse_and_execute (new_work l1) v)"
  have d: "db ?v (key_hash key) = Some (setbit_content c (nat (atol off1)) (atol val = 1))"
    using s(4) by (simp add: c_def)
  note g = getbit_line [OF s(2) l2 off2 key s(5)]
  have same: "(nat (atol off2) = nat (atol off1)) = (atol off2 = atol off1)"
    using off1(1) off2(1) by (simp add: eq_nat_nat_iff)
  show ?thesis
    using s(1) g by (simp add: work_cb_def split_def Let_def d content_or_empty_def get_setbit_content same)
      (simp add: c_def content_or_empty_def)
qed

section \<open>A command without a reply\<close>

text \<open>
  When the thread of a connection has run a silent command, the connection is idle, with its buffer as
  it was, and only the arrival of more input can move it.
\<close>

definition stalled :: "service \<Rightarrow> bool" where
  "stalled s \<longleftrightarrow>
     n_phase (sv_net s) = Idle \<and> \<not> c_closing (n_conn (sv_net s)) \<and>
     (\<forall>e. service_step e s \<noteq> None \<longrightarrow> (\<exists>res a b. e = Arrives res a b))"

lemma silent_step:
  assumes "n_phase (sv_net s) = Working l" and "\<not> c_closing (n_conn (sv_net s))"
    and "w_resp (fst (work_cb (new_work l) (sv_world s))) = []"
  shows "\<exists>s'. service_step (Executed status_ok write_ok) s = Some s' \<and> stalled s' \<and>
    c_rbuf (n_conn (sv_net s')) = c_rbuf (n_conn (sv_net s)) \<and>
    c_queued (n_conn (sv_net s')) = c_queued (n_conn (sv_net s)) \<and>
    n_replies (sv_net s') = n_replies (sv_net s)"
proof -
  let ?n = "(sv_net s)\<lparr>n_conn := n_conn (sv_net s)\<lparr>c_busy := False\<rparr>, n_phase := Idle\<rparr>"
  let ?s = "\<lparr>sv_net = ?n, sv_world = snd (work_cb (new_work l) (sv_world s))\<rparr>"
  have "service_step (Executed status_ok write_ok) s = Some ?s"
    using assms by (simp add: service_step_def net_step_def after_work_cb_def maybe_close_def split_def Let_def)
  moreover have "\<exists>res a b. e = Arrives res a b" if "service_step e ?s \<noteq> None" for e
    using that by (cases e) (simp_all add: service_step_def net_step_def)
  then have "stalled ?s" using assms(2) by (simp add: stalled_def)
  ultimately show ?thesis by auto
qed

text \<open>Two lines that arrive together: the first is queued to a thread, the second waits in the buffer.\<close>

lemma two_lines_arrive:
  assumes "10 \<notin> set l" and "length l + length rest + 1 \<le> RBUF_INIT_CAP"
  shows "\<exists>s. serves v s \<and> sv_world s = v \<and> n_phase (sv_net s) = Working l \<and> \<not> c_closing (n_conn (sv_net s)) \<and>
    c_rbuf (n_conn (sv_net s)) = rest \<and> c_queued (n_conn (sv_net s)) = [l] \<and> n_replies (sv_net s) = []"
proof -
  let ?in = "l @ 10 # rest"
  let ?c = "new_conn\<lparr>c_rbuf := rest, c_busy := True, c_queued := [l]\<rparr>"
  let ?n = "init_net\<lparr>n_conn := ?c, n_phase := Working l, n_input := ?in\<rparr>"
  have "take_line True (new_conn\<lparr>c_rbuf := ?in\<rparr>) = ?c"
    using take_line_idle [of "new_conn\<lparr>c_rbuf := ?in\<rparr>" l rest] assms(1) by (simp add: new_conn_def)
  then have "on_read (Read_data ?in) True True new_conn = Some ?c"
    using on_read_take_line [of True "new_conn\<lparr>c_rbuf := ?in\<rparr>"] assms(2)
    by (simp add: on_read_def Let_def new_conn_def)
  then have "service_step (Arrives (Read_data ?in) True True) \<lparr>sv_net = init_net, sv_world = v\<rparr> =
      Some \<lparr>sv_net = ?n, sv_world = v\<rparr>"
    by (simp add: service_step_def net_step_def init_net_def next_phase_def new_conn_def)
  then have "serves v \<lparr>sv_net = ?n, sv_world = v\<rparr>" by (rule serves.happens [OF serves.connect])
  then show ?thesis by (intro exI [of _ "\<lparr>sv_net = ?n, sv_world = v\<rparr>"]) (simp add: init_net_def new_conn_def)
qed

end
