(* ===== verification/Shutdown.thy ===== *)
theory Shutdown
  imports Session
begin

text \<open>
  \<open>close_files\<close>, which SIGTERM runs before the loop stops: every open file is flushed and closed, so
  that the files on disk hold the data base. After it the table still lists the files, without
  streams; what a command that runs afterwards meets is the second part.
\<close>

section \<open>Closing one file\<close>

lemma close_file_live:
  assumes "d_fd (descs v i) = Some f" and "is_file v (f_path f)"
  shows "close_file i v =
    upd_desc i (\<lambda>d. d\<lparr>d_fd := None\<rparr>) (put_content (f_path f) (stream_view f v) v)"
  using assms by (simp add: close_file_def fclose_def fflush_eq)

lemma fs_put: "is_file v p \<Longrightarrow> fs (put_content p c v) = (fs v)(p \<mapsto> Reg True c)"
  by (auto simp: is_file_def put_content_def)

section \<open>Closing all of them\<close>

definition close_used :: "nat \<Rightarrow> world \<Rightarrow> world" where
  "close_used i w = (if d_hash (descs w i) \<noteq> 0 then close_file i w else w)"

text \<open>The state after the slots \<open>xs\<close> have been closed.\<close>

definition closed_slots :: "nat list \<Rightarrow> world \<Rightarrow> world \<Rightarrow> bool" where
  "closed_slots xs w v \<longleftrightarrow>
     descs v = (\<lambda>j. if j \<in> set xs \<and> live w j then (descs w j)\<lparr>d_fd := None\<rparr> else descs w j) \<and>
     (\<forall>j. live w j \<longrightarrow> fs v (path_of (srv_dir w) (d_hash (descs w j))) =
        (if j \<in> set xs then Some (Reg True (view w j)) else fs w (path_of (srv_dir w) (d_hash (descs w j))))) \<and>
     (\<forall>p. (\<forall>j. live w j \<longrightarrow> p \<noteq> path_of (srv_dir w) (d_hash (descs w j))) \<longrightarrow> fs v p = fs w p) \<and>
     XXTABLE v = XXTABLE w \<and> idx v = idx w \<and> crashed v = crashed w \<and> srv_dir v = srv_dir w \<and> lost v = lost w"

lemma closed_slots_step:
  assumes wf: "table_wf w" and cl: "closed_slots xs w v" and x: "x \<notin> set xs"
  shows "closed_slots (xs @ [x]) w (close_used x v)"
proof (cases "live w x")
  case False
  then have "d_hash (descs v x) = 0" using wf cl by (simp add: closed_slots_def live_def)
  then have "close_used x v = v" by (simp add: close_used_def)
  then show ?thesis using cl False unfolding closed_slots_def by (auto simp: fun_eq_iff)
next
  case True
  obtain f where f: "d_fd (descs w x) = Some f" "f_path f = path_of (srv_dir w) (d_hash (descs w x))"
    "is_file w (f_path f)" using True by (auto elim: liveE)
  have vx: "descs v x = descs w x" using cl x by (simp add: closed_slots_def)
  have fsx: "fs v (f_path f) = fs w (f_path f)" using cl x True f(2) by (simp add: closed_slots_def)
  then have isf: "is_file v (f_path f)" using f(3) by (simp add: is_file_def)
  have sv: "stream_view f v = view w x"
    using f(1) fsx by (simp add: view_def stream_view_def file_content_def split: option.split)
  have h: "d_hash (descs v x) \<noteq> 0" using True vx by (simp add: live_def)
  have c: "close_used x v = upd_desc x (\<lambda>d. d\<lparr>d_fd := None\<rparr>) (put_content (f_path f) (view w x) v)"
    using h close_file_live [OF _ isf, of x] vx f(1) by (simp add: close_used_def sv)
  have other: "path_of (srv_dir w) (d_hash (descs w j)) \<noteq> f_path f" if "live w j" "j \<noteq> x" for j
    using wf_slot_unique [OF wf, of j x] that by (auto simp: f(2) path_of_inject live_def)
  have fsv: "fs (close_used x v) = (fs v)(f_path f \<mapsto> Reg True (view w x))" by (simp add: c fs_put [OF isf])
  show ?thesis
    unfolding closed_slots_def fsv
  proof (intro conjI allI impI)
    show "descs (close_used x v) = (\<lambda>j. if j \<in> set (xs @ [x]) \<and> live w j then (descs w j)\<lparr>d_fd := None\<rparr> else descs w j)"
      using cl True x by (auto simp: c closed_slots_def fun_eq_iff)
    fix j assume j: "live w j"
    show "((fs v)(f_path f \<mapsto> Reg True (view w x))) (path_of (srv_dir w) (d_hash (descs w j))) =
        (if j \<in> set (xs @ [x]) then Some (Reg True (view w j)) else fs w (path_of (srv_dir w) (d_hash (descs w j))))"
      using cl j other [OF j] f(2) by (cases "j = x") (auto simp: closed_slots_def)
  next
    fix p assume p: "\<forall>j. live w j \<longrightarrow> p \<noteq> path_of (srv_dir w) (d_hash (descs w j))"
    then show "((fs v)(f_path f \<mapsto> Reg True (view w x))) p = fs w p"
      using cl True f(2) by (auto simp: closed_slots_def)
  qed (use cl in \<open>simp_all add: c closed_slots_def\<close>)
qed

lemma closed_slots_fold:
  assumes "table_wf w" and "distinct xs"
  shows "closed_slots xs w (fold close_used xs w)"
  using assms(2)
proof (induction xs rule: rev_induct)
  case Nil
  then show ?case by (simp add: closed_slots_def)
next
  case (snoc x xs)
  then show ?case using closed_slots_step [OF assms(1), of xs _ x] by simp
qed

lemma close_files_closed:
  assumes "table_wf w"
  shows "closed_slots [0..<DESC_TABLE_SIZE] w (close_files w)"
proof -
  have "close_files w = fold close_used [0..<DESC_TABLE_SIZE] w"
    unfolding close_files_def close_used_def by (rule refl)
  then show ?thesis using closed_slots_fold [OF assms] by simp
qed

lemma live_slot_less: "live w i \<Longrightarrow> i < DESC_TABLE_SIZE"
  by (auto simp: live_def table_wf_def slots_used_def)

text \<open>After it the disk holds the data base, and no slot has a stream.\<close>

lemma close_files_disk:
  assumes wf: "table_wf w"
  shows "disk (close_files w) h = db w h" and "d_fd (descs (close_files w) i) = None"
    and "\<not> crashed (close_files w)"
proof -
  let ?v = "close_files w"
  note c = close_files_closed [OF wf]
  show "disk ?v h = db w h"
  proof (cases "\<exists>j. live w j \<and> d_hash (descs w j) = h")
    case True
    then obtain j where j: "live w j" "d_hash (descs w j) = h" by blast
    then have "fs ?v (path_of (srv_dir w) h) = Some (Reg True (view w j))"
      using c live_slot_less [OF j(1)] by (auto simp: closed_slots_def)
    then show ?thesis using db_live [OF j(1)] c j(2) by (simp add: disk_def closed_slots_def)
  next
    case False
    then have "fs ?v (path_of (srv_dir w) h) = fs w (path_of (srv_dir w) h)"
      using c False path_of_inject unfolding closed_slots_def by metis
    then have "disk ?v h = disk w h" using c by (simp add: disk_def closed_slots_def)
    moreover have "d_hash (descs w i) \<noteq> h" if "XXTABLE w (chain_id h) = Some i" for i
      using False that wf by (auto simp: live_def table_wf_def chains_ok_def)
    then have "db w h = disk w h" by (simp add: db_def split: option.split)
    ultimately show ?thesis by simp
  qed
  show "d_fd (descs ?v i) = None"
  proof (cases "live w i")
    case True
    then show ?thesis using c live_slot_less [OF True] by (simp add: closed_slots_def)
  next
    case False
    then have "d_hash (descs w i) = 0" using wf by (simp add: live_def)
    then have "d_fd (descs w i) = None"
      using table_wf_parts(6) [OF wf, of i] by (auto simp: slot_ok_def Let_def split: option.splits)
    then show ?thesis using c False by (simp add: closed_slots_def)
  qed
  show "\<not> crashed ?v" using c wf by (simp add: closed_slots_def table_wf_def)
qed

section \<open>A command after the files were closed\<close>

text \<open>
  The worker threads still run while the handler closes the files. A key that was open is still
  found in the table, and its closed stream is used.
\<close>

lemma use_after_shutdown:
  assumes "live w i" and "d_hash (descs w i) = key_hash key"
  shows "fst (snd (prepare_file key mode (close_files w))) = Some i"
    and "crashed (snd (snd (read_from i n off (snd (snd (prepare_file key mode (close_files w)))))))"
proof -
  have wf: "table_wf w" using assms(1) by (simp add: live_def)
  let ?v = "close_files w"
  note c = close_files_closed [OF wf]
  have nl: "no_links ?v" using links_kept_close_files [of w] wf by (simp add: links_kept_def table_wf_def)
  have h: "d_hash (descs ?v i) = key_hash key" using c assms(2) by (simp add: closed_slots_def)
  have x: "XXTABLE ?v (chain_id (key_hash key)) = Some i"
    using c assms by (auto simp: closed_slots_def elim: liveE)
  have p: "prepare_file key mode ?v = (0, Some i, touch_desc i ?v)"
    using x h by (simp add: prepare_file_no_links [OF nl] Let_def)
  then show "fst (snd (prepare_file key mode ?v)) = Some i" by simp
  have "d_fd (descs (touch_desc i ?v) i) = None"
    using close_files_disk(2) [OF wf, of i] by (simp add: touch_desc_def Let_def split_def table_frames)
  then show "crashed (snd (snd (read_from i n off (snd (snd (prepare_file key mode ?v))))))"
    by (simp add: p read_from_def)
qed

end
