(* ===== verification/Startup.thy ===== *)
theory Startup
  imports Shutdown
begin

text \<open>
  \<open>main.c\<close>: the options, the settings they leave in \<open>server\<close>, the initialisation of the file module
  and the handler of SIGTERM. What \<open>getopt\<close> returns is a parameter, the list of option characters
  with their arguments; so are \<open>inet_addr\<close> and the number of processors. The rest of
  \<open>main\<close> is in \<open>Daemon\<close>.
\<close>

section \<open>Settings\<close>

definition WORKER_MINIMUM :: int where "WORKER_MINIMUM = 1"
definition WORKER_MAXIMUM :: int where "WORKER_MAXIMUM = 256"

text \<open>\<open>struct server_t\<close>; ports are in host order.\<close>

record server_t =
  sv_socket :: sockaddr_in
  sv_pid :: "byte list option"
  sv_dir :: "byte list option"
  sv_worker :: int
  sv_debug :: bool

definition default_server :: "(byte list \<Rightarrow> u32) \<Rightarrow> nat \<Rightarrow> server_t" where
  "default_server inet_addr nprocs =
     \<lparr>sv_socket = \<lparr>sin_port = 6379, s_addr = inet_addr (str ''127.0.0.1'')\<rparr>, sv_pid = None, sv_dir = None,
      sv_worker = int nprocs * 2, sv_debug = False\<rparr>"

section \<open>Options\<close>

text \<open>
  One turn of the loop over \<open>getopt\<close>; \<open>None\<close> is \<open>return -1\<close>. The option \<open>?\<close> stands for an invalid one,
  which is reported and skipped.
\<close>

definition apply_option ::
    "(byte list \<Rightarrow> u32) \<Rightarrow> 'a io_scheme \<Rightarrow> byte \<times> byte list \<Rightarrow> server_t \<Rightarrow> server_t option" where
  "apply_option inet_addr io = (\<lambda>(arg, optarg) sv.
     if [arg] = str ''l''
     then (let (r, sa) = set_addr_port inet_addr optarg (sv_socket sv)
           in if r \<noteq> 0 then None else Some (sv\<lparr>sv_socket := sa\<rparr>))
     else if [arg] = str ''D'' then Some (sv\<lparr>sv_debug := True\<rparr>)
     else if [arg] = str ''p''
     then (let sv = sv\<lparr>sv_pid := Some (cstr optarg)\<rparr> in if check_file optarg io < 0 then None else Some sv)
     else if [arg] = str ''w''
     then (let sv = sv\<lparr>sv_worker := atoi optarg\<rparr>
           in if WORKER_MINIMUM \<le> sv_worker sv \<and> sv_worker sv \<le> WORKER_MAXIMUM then Some sv else None)
     else if [arg] = str ''d''
     then (if 237 < length (cstr optarg) then None
           else if check_dir optarg io \<noteq> 0 then None
           else Some (sv\<lparr>sv_dir := Some (cstr optarg)\<rparr>))
     else Some sv)"

fun apply_options ::
    "(byte list \<Rightarrow> u32) \<Rightarrow> 'a io_scheme \<Rightarrow> (byte \<times> byte list) list \<Rightarrow> server_t \<Rightarrow> server_t option" where
  "apply_options inet_addr io [] sv = Some sv"
| "apply_options inet_addr io (opt # opts) sv =
     (case apply_option inet_addr io opt sv of
        None \<Rightarrow> None
      | Some sv \<Rightarrow> apply_options inet_addr io opts sv)"

text \<open>\<open>main\<close> up to the point where it daemonises: the settings, or \<open>None\<close> for an early return.\<close>

definition configure ::
    "(byte list \<Rightarrow> u32) \<Rightarrow> nat \<Rightarrow> 'a io_scheme \<Rightarrow> (byte \<times> byte list) list \<Rightarrow> server_t option" where
  "configure inet_addr nprocs io opts =
     (case apply_options inet_addr io opts (default_server inet_addr nprocs) of
        None \<Rightarrow> None
      | Some sv \<Rightarrow> if sv_dir sv = None then None else Some sv)"

text \<open>The initialisation of the file table, and what SIGTERM does to it.\<close>

definition start_files :: "world \<Rightarrow> world" where
  "start_files w = (init_file w)\<lparr>XXTABLE := (\<lambda>_. None)\<rparr>"

definition on_sigterm :: "world \<Rightarrow> world" where
  "on_sigterm w = close_files w"

section \<open>What the options guarantee\<close>

definition settings_ok :: "nat \<Rightarrow> 'a io_scheme \<Rightarrow> server_t \<Rightarrow> bool" where
  "settings_ok nprocs io sv \<longleftrightarrow>
     0 < sin_port (sv_socket sv) \<and> sin_port (sv_socket sv) < 65535 \<and>
     (sv_worker sv = 2 * int nprocs \<or> WORKER_MINIMUM \<le> sv_worker sv \<and> sv_worker sv \<le> WORKER_MAXIMUM) \<and>
     (\<forall>d. sv_dir sv = Some d \<longrightarrow> length d \<le> 237 \<and> 0 \<notin> set d \<and> fs io d = Some (Dir True))"

lemma set_addr_port_range:
  assumes "0 < sin_port sa" and "sin_port sa < 65535"
  shows "0 < sin_port (snd (set_addr_port inet arg sa)) \<and> sin_port (snd (set_addr_port inet arg sa)) < 65535"
  using assms by (auto simp: set_addr_port_def port_ok_def Let_def nat_less_iff split: list.split)

lemma check_dir_ok: "check_dir d io = 0 \<longleftrightarrow> fs io (cstr d) = Some (Dir True)"
  by (auto simp: check_dir_def split: option.split fnode.split)

lemma apply_option_ok:
  assumes "settings_ok nprocs io sv" and "apply_option inet io opt sv = Some sv'"
  shows "settings_ok nprocs io sv'"
  using assms set_addr_port_range [of "sv_socket sv" inet "snd opt"]
  by (cases opt) (auto simp: apply_option_def settings_ok_def check_dir_ok Let_def split_def split: if_splits)

lemma apply_options_ok:
  "settings_ok nprocs io sv \<Longrightarrow> apply_options inet io opts sv = Some sv' \<Longrightarrow> settings_ok nprocs io sv'"
  by (induction opts arbitrary: sv) (auto split: option.splits intro: apply_option_ok)

lemma configure_ok:
  assumes "configure inet nprocs io opts = Some sv"
  shows "settings_ok nprocs io sv" and "\<exists>d. sv_dir sv = Some d"
proof -
  have "settings_ok nprocs io (default_server inet nprocs)" by (simp add: settings_ok_def default_server_def)
  then show "settings_ok nprocs io sv" "\<exists>d. sv_dir sv = Some d"
    using assms apply_options_ok by (auto simp: configure_def split: option.splits if_splits)
qed

section \<open>The first state of the server\<close>

lemma start_files_ok:
  assumes "faults w = []" and "fs_ready w" and "idx w = 0" and "\<not> crashed w"
  shows "server_ok (start_files w)" and "db (start_files w) h = disk w h"
proof -
  let ?v = "start_files w"
  have v: "descs ?v = (\<lambda>_. zero_desc)" "XXTABLE ?v = (\<lambda>_. None)" "idx ?v = 0" "\<not> crashed ?v" "faults ?v = []"
    "fs ?v = fs w" "srv_dir ?v = srv_dir w"
    using assms by (simp_all add: start_files_def init_file_def)
  have "slots_used ?v 0" by (simp add: slots_used_def v zero_desc_def)
  moreover have "fs_ready ?v" using assms(2) by (simp add: fs_ready_def dirs_ready_def is_file_def v)
  ultimately have "table_wf ?v"
    by (auto simp: table_wf_def no_links_def slot_ok_def chains_ok_def zero_desc_def Let_def v)
  then show "server_ok ?v" by (simp add: server_ok_def live_def zero_desc_def v)
  show "db ?v h = disk w h" by (simp add: db_def disk_def v)
qed

end
