(* ===== verification/Progress.thy ===== *)
theory Progress
  imports Service Interleave
begin

text \<open>
  Every command ends, whatever calls of the operating system fail: no walk along a chain and no
  doubling of a buffer runs forever. The invariant is that the descriptors are not linked, which
  every operation keeps; the loops of the commands are total functions.
\<close>

section \<open>The commands keep the invariant\<close>

text \<open>The lemmas of \<open>TableLinks\<close> in the form of one more step after \<open>v1\<close>.\<close>

lemma links_more:
  assumes "links_kept v v1"
  shows "links_kept v (snd (snd (prepare_file key mode v1)))" and "links_kept v (snd (snd (prepare_files ks v1)))"
    and "links_kept v (release_desc dt v1)" and "links_kept v (snd (write_to d buf off v1))"
    and "links_kept v (snd (snd (read_from d n off v1)))" and "links_kept v (snd (alloc_ok v1))"
    and "links_kept v (v1\<lparr>crashed := True\<rparr>)"
proof -
  have a: "links_kept v1 (snd (alloc_ok v1))" "links_kept v1 (v1\<lparr>crashed := True\<rparr>)"
    by (simp_all add: links_kept_def no_links_def table_frames)
  show "links_kept v (snd (snd (prepare_file key mode v1)))" "links_kept v (snd (snd (prepare_files ks v1)))"
    "links_kept v (release_desc dt v1)" "links_kept v (snd (write_to d buf off v1))"
    "links_kept v (snd (snd (read_from d n off v1)))" "links_kept v (snd (alloc_ok v1))"
    "links_kept v (v1\<lparr>crashed := True\<rparr>)"
    by (rule links_kept_trans [OF assms], rule links_kept_ops a)+
qed

lemma links_read: "links_kept v v1 \<Longrightarrow> read_from d n off v1 = (r, bs, v2) \<Longrightarrow> links_kept v v2"
  using links_more(5) [of v v1 d n off] by simp

lemma links_write: "links_kept v v1 \<Longrightarrow> write_to d buf off v1 = (r, v2) \<Longrightarrow> links_kept v v2"
  using links_more(4) [of v v1 d buf off] by simp

lemma links_setbit:
  assumes "links_kept v v1"
  shows "links_kept v (snd (setbitCommand cmd dt v1))"
proof -
  have rd: "links_kept v (snd (setbit_read cmd dt v1))"
    using assms by (auto simp: setbit_read_def Let_def split: prod.split intro: links_read)
  have wr: "links_kept v (snd (setbit_write cmd dt p u))" if "links_kept v u" for p u
    using that by (cases p) (auto simp: setbit_write_def Let_def split: prod.split intro: links_write)
  show ?thesis
    using rd wr by (auto simp: setbitCommand_halves split: prod.split sum.split)
qed

lemma links_getbit:
  assumes "links_kept v v1"
  shows "links_kept v (snd (getbitCommand cmd dt v1))"
  using assms by (auto simp: getbitCommand_def Let_def split: prod.split intro: links_read)

lemma links_count_loop:
  assumes "\<And>n off u. links_kept u (snd (snd (rd n off u)))" and "links_kept v v1"
  shows "links_kept v (snd (count_loop rd n off bits v1))"
  using assms(2)
proof (induction n arbitrary: off bits v1 rule: less_induct)
  case (less n)
  let ?k = "if n < FILE_BUFFER_SIZE then n else FILE_BUFFER_SIZE"
  obtain r s v2 where rd: "rd ?k (to_off off) v1 = (r, s, v2)" by (metis prod_cases3)
  have v2: "links_kept v v2" using links_kept_trans [OF less.prems assms(1)] rd by (metis snd_conv)
  show ?case
  proof (cases "0 < n \<and> r \<noteq> 0")
    case True
    then show ?thesis using less.IH [of "n - r" v2] v2 rd by (subst count_loop.simps) (simp add: Let_def)
  next
    case False
    then show ?thesis using less.prems v2 rd by (subst count_loop.simps) (auto simp: Let_def)
  qed
qed

lemma links_bitcount:
  assumes "links_kept v v1"
  shows "links_kept v (snd (bitcountCommand cmd dt v1))"
proof -
  obtain ok v2 where al: "alloc_ok v1 = (ok, v2)" by fastforce
  have v2: "links_kept v v2" using links_more(6) [OF assms] al by simp
  have rd: "links_kept u (snd (snd (read_from dt n off u)))" for n off u by (rule links_kept_read_from)
  have "links_kept v u" if "count_loop (read_from dt) n off bits v2 = (b, u)" for n off bits b u
    using links_count_loop [where rd = "read_from dt" and n = n and off = off and bits = bits, OF rd v2] that by simp
  then show ?thesis
    using assms v2 by (auto simp: bitcountCommand_def Let_def al split: prod.split)
qed

lemma links_load_block:
  assumes "\<And>d n off u. links_kept u (snd (snd (rd d n off u)))" and "links_kept v v1"
  shows "links_kept v (snd (snd (load_block rd off ss v1)))"
  using assms(2)
proof (induction ss arbitrary: v1)
  case (Cons sc ss)
  show ?case
  proof (cases sc)
    case None
    then show ?thesis using Cons by (simp add: Let_def split: prod.split) (metis snd_conv)
  next
    case (Some dtr)
    obtain d t r where dtr: "dtr = (d, t, r)" by (metis prod_cases3)
    have "links_kept v (snd (snd (rd d n off v1)))" for n by (rule links_kept_trans [OF Cons.prems assms(1)])
    then show ?thesis using Cons Some dtr by (auto simp: Let_def split: prod.split) (metis snd_conv)+
  qed
qed simp

lemma links_bitop_loop:
  assumes rd: "\<And>d n off u. links_kept u (snd (snd (rd d n off u)))"
    and wr: "\<And>buf off u. links_kept u (snd (wr buf off u))" and "links_kept v v1"
  shows "links_kept v (snd (bitop_loop rd wr op hook maxidx ss offset bits v1))"
  using assms(3)
proof (induction "blocks_left ss maxidx" arbitrary: ss offset bits v1 rule: less_induct)
  case less
  show ?case
  proof (cases "blocks_left ss maxidx \<noteq> 0")
    case False
    then show ?thesis using less.prems by (simp add: bitop_loop.simps)
  next
    case True
    obtain bufs ss' v2 where ld: "load_block rd offset ss v1 = (bufs, ss', v2)" by (metis prod_cases3)
    have v2: "links_kept v v2" using links_load_block [where rd = rd and off = offset and ss = ss, OF rd less.prems] ld by simp
    have fewer: "blocks_left ss' maxidx < blocks_left ss maxidx" by (rule blocks_left_decreases [OF ld True])
    have go: "links_kept v (snd (bitop_loop rd wr op hook maxidx ss' off b u))" if "links_kept v u" for off b u
      by (rule less.hyps [OF fewer that])
    have w: "links_kept v u" if "wr buf off v2 = (r, u)" for buf off r u
      using links_kept_trans [OF v2 wr [where buf = buf and off = off and u = v2]] that by simp
    show ?thesis
      using True v2 go w by (subst bitop_loop.simps) (auto simp: ld Let_def split: OP_HOOKS.split prod.split)
  qed
qed

lemma links_op_malloc:
  assumes "links_kept v v1"
  shows "links_kept v (snd (op_malloc n v1))"
proof -
  have "links_kept v (snd ((op_malloc_step ^^ n) (0, v1)))"
  proof (induction n)
    case (Suc n)
    obtain r u where s: "(op_malloc_step ^^ n) (0, v1) = (r, u)" by fastforce
    then have "links_kept v (snd (alloc_ok u))" using links_more(6) [of v u] Suc by simp
    then show ?case using Suc s by (auto simp: op_malloc_step_def split: prod.split)
  qed (simp add: assms)
  then show ?thesis by (simp add: op_malloc_def)
qed

lemma links_bitop:
  assumes "links_kept v v1"
  shows "links_kept v (snd (bitopCommand cmd dest dts v1))"
proof -
  obtain r v2 where al: "op_malloc (bo_count cmd) v1 = (r, v2)" by fastforce
  have v2: "links_kept v v2" using links_op_malloc [OF assms] al by (metis snd_conv)
  let ?wr = "case dest of None \<Rightarrow> (\<lambda>buf off w. (0, w\<lparr>crashed := True\<rparr>)) | Some d \<Rightarrow> write_to d"
  have wr: "links_kept u (snd (?wr buf off u))" for buf off u
    using links_kept_write_to links_more(7) [OF links_kept_refl] by (cases dest) auto
  have "links_kept v u"
    if "bitop_loop read_from ?wr op hook mi ss o' b v2 = (res, u)" for op hook mi ss o' b res u
    using links_bitop_loop [where rd = read_from and wr = "?wr", OF links_kept_read_from wr v2] that by (metis snd_conv)
  then show ?thesis
    using assms v2 unfolding bitopCommand_def Let_def al by (auto split: prod.split option.split)
qed

section \<open>Replies and releases\<close>

lemma links_reply:
  assumes "links_kept v v1" and "0 < w_cap w"
  shows "links_kept v (snd (reply s len (w, v1)))"
proof -
  obtain ok v2 where al: "alloc_ok v1 = (ok, v2)" by fastforce
  have "links_kept v v2" using links_more(6) [OF assms(1)] al by simp
  moreover obtain k where "grow_cap (length (w_resp w) + len) (w_cap w) = Some (w_cap w * 2 ^ k)"
    using grow_cap_ends [OF assms(2)] by blast
  ultimately show ?thesis using assms(1) by (simp add: reply_def al)
qed

lemma links_release_all:
  assumes "links_kept v (snd s)"
  shows "links_kept v (snd (release_all_descs s))"
proof -
  have "links_kept v (fold release_desc ds u)" if "links_kept v u" for ds u
    using that by (induction ds arbitrary: u) (auto intro: links_more(3))
  then show ?thesis using assms by (cases s) (simp add: release_all_descs_def)
qed

lemma links_reply_lit: "links_kept v v1 \<Longrightarrow> 0 < w_cap w \<Longrightarrow> links_kept v (snd (reply_lit s len (w, v1)))"
  by (simp add: reply_lit_def links_reply)

lemma links_finish:
  assumes "links_kept v v1" and "0 < w_cap w"
  shows "links_kept v (snd (finish r (w, v1)))"
proof -
  have "links_kept v (snd (reply_num r (w, v1)))"
    using links_reply [OF assms] by (simp add: reply_num_def split_def Let_def)
  then show ?thesis
    using links_release_all links_reply_lit [OF assms] by (simp add: finish_def)
qed

text \<open>Splitting the line allocates.\<close>

lemma links_must_alloc: "links_kept v v1 \<Longrightarrow> links_kept v (must_alloc v1)"
  using links_more(6,7) by (simp add: must_alloc_def split_def Let_def)

lemma links_fill_args: "links_kept v v1 \<Longrightarrow> links_kept v (snd (fill_args s len n pos v1))"
  by (induction n arbitrary: pos v1) (simp_all add: Let_def split_def links_must_alloc)

section \<open>The handlers\<close>

lemma set_desc_cap [simp]: "w_cap (set_desc i dt w) = w_cap w"
  by (simp add: set_desc_def)

text \<open>Rules that follow the shape of a handler.\<close>

lemma links_if: "links_kept v (snd x) \<Longrightarrow> links_kept v (snd y) \<Longrightarrow> links_kept v (snd (if b then x else y))"
  by simp

lemma links_option:
  "links_kept v (snd x) \<Longrightarrow> (\<And>a. links_kept v (snd (f a))) \<Longrightarrow>
   links_kept v (snd (case opt of None \<Rightarrow> x | Some a \<Rightarrow> f a))"
  by (cases opt) simp_all

lemma links_bind:
  "links_kept v (snd p) \<Longrightarrow> (\<And>x u. links_kept v u \<Longrightarrow> links_kept v (snd (f x u))) \<Longrightarrow>
   links_kept v (snd (case p of (x, u) \<Rightarrow> f x u))"
  by (cases p) simp

lemma links_bind3:
  "links_kept v (snd (snd p)) \<Longrightarrow> (\<And>x y u. links_kept v u \<Longrightarrow> links_kept v (snd (f x y u))) \<Longrightarrow>
   links_kept v (snd (case p of (x, y, u) \<Rightarrow> f x y u))"
  by (cases p) simp

lemma links_split: "links_kept v v1 \<Longrightarrow> links_kept v (snd (split_fill s len n v1))"
  using links_fill_args [OF links_must_alloc] unfolding split_fill_def Let_def by blast

lemmas links_shape = links_if links_option links_bind3 links_bind
lemmas links_leaf =
  links_split links_more(1,2) links_setbit links_getbit links_bitcount links_bitop links_finish
  links_release_all links_reply_lit links_kept_refl

lemma links_exec_setbit: "0 < w_cap w \<Longrightarrow> links_kept v (snd (exec_setbit c w v))"
  unfolding exec_setbit_def Let_def by (assumption | rule links_shape links_leaf | simp)+

lemma links_exec_getbit: "0 < w_cap w \<Longrightarrow> links_kept v (snd (exec_getbit c w v))"
  unfolding exec_getbit_def Let_def by (assumption | rule links_shape links_leaf | simp)+

lemma links_exec_bitcount: "0 < w_cap w \<Longrightarrow> links_kept v (snd (exec_bitcount c w v))"
  unfolding exec_bitcount_def Let_def by (assumption | rule links_shape links_leaf | simp)+

lemma links_exec_sources:
  "0 < w_cap w \<Longrightarrow> links_kept v v1 \<Longrightarrow> links_kept v (snd (exec_bitop_sources c args cmd w v1))"
  unfolding exec_bitop_sources_def Let_def by (assumption | rule links_shape links_leaf | simp)+

lemma links_exec_bitop: "0 < w_cap w \<Longrightarrow> links_kept v (snd (exec_bitop c w v))"
  unfolding exec_bitop_def Let_def by (assumption | rule links_shape links_exec_sources links_leaf | simp)+

lemma links_exec_bitpos: "0 < w_cap w \<Longrightarrow> links_kept v (snd (exec_bitpos c w v))"
  unfolding exec_bitpos_def Let_def
  by (intro links_if links_bind links_reply_lit links_split links_kept_refl) simp_all

lemma links_exec_bitfield: "0 < w_cap w \<Longrightarrow> links_kept v (snd (exec_bitfield c w v))"
  unfolding exec_bitfield_def
  by (intro links_if links_reply_lit links_kept_refl) (simp_all add: links_kept_refl)

lemma links_parse: "0 < w_cap w \<Longrightarrow> links_kept v (snd (parse_and_execute w v))"
  unfolding parse_and_execute_def Let_def
  by (intro links_if links_exec_setbit links_exec_getbit links_exec_bitop links_exec_bitcount
      links_exec_bitpos links_exec_bitfield links_reply_lit links_kept_refl) simp_all

text \<open>So any sequence of lines is executed to its end.\<close>

lemma links_run_lines: "links_kept v (snd (run_lines ls v))"
proof (induction ls arbitrary: v)
  case (Cons l ls)
  have "links_kept v (snd (work_cb (new_work l) v))" unfolding work_cb_def by (rule links_parse) simp
  then have "links_kept v (snd (run_lines ls (snd (work_cb (new_work l) v))))"
    using Cons by (rule links_kept_trans)
  then show ?case by (simp add: Let_def split_def)
qed (simp add: links_kept_refl)

section \<open>Every handler replies\<close>

text \<open>A handler that comes to its end has appended a reply, unless there was no memory for it.\<close>

definition replied :: "work_req \<Rightarrow> bool" where
  "replied w \<longleftrightarrow> w_oom w \<or> w_resp w \<noteq> []"

lemma replied_reply:
  assumes "0 < len" and "s \<noteq> []" and "0 < w_cap w"
  shows "replied (fst (reply s len (w, v)))"
proof -
  obtain k where "grow_cap (length (w_resp w) + len) (w_cap w) = Some (w_cap w * 2 ^ k)"
    using grow_cap_ends [OF assms(3)] by blast
  then show ?thesis using assms(1,2) by (simp add: reply_def replied_def append_resp_def split_def Let_def)
qed

lemma replied_lit: "0 < len \<Longrightarrow> 0 < w_cap w \<Longrightarrow> replied (fst (reply_lit s len (w, v)))"
  by (simp add: reply_lit_def replied_reply)

lemma replied_release: "replied (fst s) \<Longrightarrow> replied (fst (release_all_descs s))"
  by (cases s) (simp add: release_all_descs_def replied_def)

lemma replied_finish: "0 < w_cap w \<Longrightarrow> replied (fst (finish r (w, v)))"
  unfolding finish_def
  by (rule replied_release)
    (cases "dec_int r", simp_all add: reply_num_def snprintf_ld_def replied_lit replied_reply)

lemma replied_if: "replied (fst x) \<Longrightarrow> replied (fst y) \<Longrightarrow> replied (fst (if b then x else y))"
  by simp

lemma replied_option:
  "replied (fst x) \<Longrightarrow> (\<And>a. replied (fst (f a))) \<Longrightarrow> replied (fst (case opt of None \<Rightarrow> x | Some a \<Rightarrow> f a))"
  by (cases opt) simp_all

lemma replied_bind: "(\<And>x u. replied (fst (f x u))) \<Longrightarrow> replied (fst (case p of (x, u) \<Rightarrow> f x u))"
  by (cases p) simp

lemma replied_bind3: "(\<And>x y u. replied (fst (f x y u))) \<Longrightarrow> replied (fst (case p of (x, y, u) \<Rightarrow> f x y u))"
  by (cases p) simp

lemmas replied_shape = replied_if replied_option replied_bind3 replied_bind
lemmas replied_leaf = replied_finish replied_release replied_lit

lemma replied_exec_setbit: "0 < w_cap w \<Longrightarrow> replied (fst (exec_setbit c w v))"
  unfolding exec_setbit_def Let_def by (assumption | rule replied_shape replied_leaf | simp)+

lemma replied_exec_getbit: "0 < w_cap w \<Longrightarrow> replied (fst (exec_getbit c w v))"
  unfolding exec_getbit_def Let_def by (assumption | rule replied_shape replied_leaf | simp)+

lemma replied_exec_bitcount: "0 < w_cap w \<Longrightarrow> replied (fst (exec_bitcount c w v))"
  unfolding exec_bitcount_def Let_def by (assumption | rule replied_shape replied_leaf | simp)+

lemma replied_exec_sources: "0 < w_cap w \<Longrightarrow> replied (fst (exec_bitop_sources c args cmd w v))"
  unfolding exec_bitop_sources_def Let_def by (assumption | rule replied_shape replied_leaf | simp)+

lemma replied_exec_bitop: "0 < w_cap w \<Longrightarrow> replied (fst (exec_bitop c w v))"
  unfolding exec_bitop_def Let_def by (assumption | rule replied_shape replied_exec_sources replied_leaf | simp)+

text \<open>The lines that are dispatched to BITPOS, and to BITFIELD with at least four arguments.\<close>

definition silent_line :: "byte list \<Rightarrow> bool" where
  "silent_line l \<longleftrightarrow> 10 \<le> length l \<and>
     (dispatch_hash l = dispatch_hash (str ''BITPO'') \<or>
      dispatch_hash l = dispatch_hash (str ''BITFI'') \<and> 5 \<le> length (line_words l))"

lemma silent_hashes:
  "dispatch_hash (str ''BITPO'') = 16475154490487774448" "dispatch_hash (str ''BITFI'') = 16283480983475320022"
  by (subst dispatch_hash_ref; simp add: str_def xxh64_eval)+

lemma replied_line:
  assumes "\<not> silent_line l"
  shows "replied (fst (parse_and_execute (new_work l) v))"
proof -
  let ?c = "get_arg_count l (length l)" and ?w = "new_work l"
  consider (short) "length l < 10" | (bitfield) "10 \<le> length l" "dispatch_hash l = 16283480983475320022" "?c < 5"
    | (other) "10 \<le> length l" "dispatch_hash l \<noteq> 16475154490487774448" "dispatch_hash l \<noteq> 16283480983475320022"
    using assms unfolding silent_line_def silent_hashes get_arg_count_eq not_le [symmetric] by blast
  then show ?thesis
  proof cases
    case short
    then show ?thesis by (simp add: parse_and_execute_def CMD_MININUM_def replied_lit)
  next
    case bitfield
    then show ?thesis
      by (simp add: parse_and_execute_def CMD_MININUM_def Let_def exec_bitfield_def replied_lit)
  next
    case other
    then show ?thesis
      by (simp add: parse_and_execute_def CMD_MININUM_def Let_def replied_lit replied_exec_setbit
          replied_exec_getbit replied_exec_bitop replied_exec_bitcount)
  qed
qed

end
