(* ===== verification/Examples.thy ===== *)
theory Examples
  imports BitopLimits Rejects Sequences Startup Progress
begin

text \<open>
  A server just started on an empty data directory, and one whose directory holds one file: concrete
  states at which the theorems about reachable states can be applied.
\<close>

definition demo_world :: world where
  "demo_world =
     \<lparr>fs = (\<lambda>p. if p = str ''d'' then Some (Dir True) else None), faults = [], clock_us = 1000000, ticks = [],
      srv_dir = str ''d'', descs = (\<lambda>_. zero_desc), XXTABLE = (\<lambda>_. None), idx = 0, lost = [],
      crashed = False, hung = False\<rparr>"

text \<open>The same with content \<open>c\<close> in the file of \<open>key\<close>.\<close>

definition demo_file :: "byte list \<Rightarrow> byte list \<Rightarrow> world" where
  "demo_file key c =
     (let w = mkdirs (key_hash key) demo_world
      in w\<lparr>fs := (fs w)(path_of (str ''d'') (key_hash key) \<mapsto> Reg True c)\<rparr>)"

lemma demo_dir [simp]: "0 \<notin> set (str ''d'')" "length (str ''d'') = 1"
  by (simp_all add: str_def)

lemma dirs_ready_demo: "dirs_ready demo_world"
proof -
  have "level1 (str ''d'') h \<noteq> str ''d''" "level2 (str ''d'') h \<noteq> str ''d''" for h
    using paths_distinct(5,6) by blast+
  then show ?thesis by (simp add: dirs_ready_def demo_world_def)
qed

lemma demo_fields:
  "srv_dir demo_world = str ''d''" "faults demo_world = []" "descs demo_world = (\<lambda>_. zero_desc)"
  "XXTABLE demo_world = (\<lambda>_. None)" "idx demo_world = 0" "crashed demo_world = False" "hung demo_world = False"
  "fs demo_world (path_of (str ''d'') h) = None"
  using paths_distinct(4) [of "str ''d''" h] by (simp_all add: demo_world_def)

lemma empty_table_ok:
  assumes "dirs_ready w" and "faults w = []" and "descs w = (\<lambda>_. zero_desc)" and "XXTABLE w = (\<lambda>_. None)"
    and "idx w = 0" and "\<not> crashed w"
    and "\<forall>h. fs w (path_of (srv_dir w) h) = None \<or> is_file w (path_of (srv_dir w) h)"
  shows "server_ok w" and "can_open w h \<longleftrightarrow> h \<noteq> 0" and "db w h = disk w h"
proof -
  have u: "slots_used w 0" using assms by (simp add: slots_used_def zero_desc_def)
  then have "table_wf w" using assms
    by (auto simp: table_wf_def no_links_def fs_ready_def slot_ok_def chains_ok_def zero_desc_def Let_def)
  then show "server_ok w" using assms by (simp add: server_ok_def live_def zero_desc_def)
  have "0 < DESC_TABLE_SIZE" by (simp add: DESC_TABLE_SIZE_def)
  then show "can_open w h \<longleftrightarrow> h \<noteq> 0" using assms u by (auto simp: can_open_def)
  show "db w h = disk w h" using assms by (simp add: db_def)
qed

lemma demo_ok: "server_ok demo_world" "can_open demo_world h \<longleftrightarrow> h \<noteq> 0" "db demo_world h = None"
  using empty_table_ok [of demo_world, OF dirs_ready_demo] by (simp_all add: demo_fields disk_def)

lemma demo_file_fields:
  "srv_dir (demo_file k c) = str ''d''" "faults (demo_file k c) = []" "descs (demo_file k c) = (\<lambda>_. zero_desc)"
  "XXTABLE (demo_file k c) = (\<lambda>_. None)" "idx (demo_file k c) = 0" "crashed (demo_file k c) = False"
  "fs (demo_file k c) (path_of (str ''d'') h) = (if h = key_hash k then Some (Reg True c) else None)"
  using mkdirs_frame(5) [of "key_hash k" demo_world h]
  by (simp_all add: demo_file_def Let_def demo_fields path_of_inject) (simp_all add: mkdirs_def demo_fields)

lemma dirs_ready_demo_file: "dirs_ready (demo_file k c)"
proof -
  have "level1 d h \<noteq> path_of d g" "level2 d h \<noteq> path_of d g" "d \<noteq> path_of d g" for d h g
    by (metis paths_distinct)+
  then show ?thesis using dirs_ready_mkdirs [OF dirs_ready_demo, of "key_hash k"]
    by (simp add: dirs_ready_def demo_file_def Let_def demo_fields)
qed

lemma demo_file_ok:
  "server_ok (demo_file k c)" "can_open (demo_file k c) h \<longleftrightarrow> h \<noteq> 0"
  "db (demo_file k c) h = (if h = key_hash k then Some c else None)"
  using empty_table_ok [of "demo_file k c", OF dirs_ready_demo_file]
  by (simp_all add: demo_file_fields disk_def is_file_def)

lemma key_hash_a: "key_hash (str ''a'') = 15154266338359012955" "key_hash (str ''b'') = 8666379929374662555"
  by (simp_all add: key_hash_def cstr_def str_def XXH64_eq_bytes xxh64_eval)

lemma demo_open:
  "can_open demo_world (key_hash (str ''a''))" "can_open (demo_file k c) (key_hash (str ''a''))"
  "can_open demo_world (key_hash (str ''b''))" "can_open (demo_file k c) (key_hash (str ''b''))"
  unfolding demo_ok demo_file_ok key_hash_a by simp_all

text \<open>Lines and numbers of the examples.\<close>

lemma demo_words:
  "line_words (str ''SETBIT a 9 1'') = [str ''SETBIT'', str ''a'', str ''9'', str ''1'']"
  "line_words (str ''GETBIT a 9'') = [str ''GETBIT'', str ''a'', str ''9'']"
  "line_words (str ''BITCOUNT a 0'') = [str ''BITCOUNT'', str ''a'', str ''0'']"
  by code_simp+

lemma demo_atol:
  "atol (str ''9'') = 9" "atol (str ''1'') = 1" "atol (str ''0'') = 0"
  by code_simp+

lemma demo_key [simp]: "cstr (str ''a'') = str ''a''" "cstr (str ''b'') = str ''b''"
  by code_simp+

text \<open>Three keys whose hashes can be open together.\<close>

lemma key_hash_c: "key_hash (str ''c'') = 11806979466381907949"
  by (simp add: key_hash_def cstr_def str_def XXH64_eq_bytes xxh64_eval)

lemma demo_open_set:
  "can_open_set (demo_file k c) {key_hash (str ''a''), key_hash (str ''b''), key_hash (str ''c'')} 3"
proof -
  have "slots_used (demo_file k c) 0" by (simp add: slots_used_def demo_file_fields zero_desc_def)
  moreover have "inj_on chain_id {key_hash (str ''a''), key_hash (str ''b''), key_hash (str ''c'')}"
    unfolding key_hash_a key_hash_c by (simp add: inj_on_def chain_id_def DESC_HASH_TABLE_SIZE_def)
  ultimately show ?thesis
    unfolding can_open_set_def by (auto simp: demo_file_fields key_hash_a key_hash_c DESC_TABLE_SIZE_def)
qed

lemma can_open_subset: "can_open_set v hs m \<Longrightarrow> gs \<subseteq> hs \<Longrightarrow> n \<le> m \<Longrightarrow> can_open_set v gs n"
  unfolding can_open_set_def by (meson inj_on_subset le_trans add_left_mono subsetD)

text \<open>The server after it opened the file of key \<open>a\<close>, and the slot it is in.\<close>

definition demo_opened :: "byte list \<Rightarrow> world" where
  "demo_opened c = snd (snd (prepare_file (str ''a'') 0 (demo_file (str ''a'') c)))"

definition demo_slot :: "byte list \<Rightarrow> nat" where
  "demo_slot c = the (fst (snd (prepare_file (str ''a'') 0 (demo_file (str ''a'') c))))"

lemma demo_opened_ok:
  "live (demo_opened c) (demo_slot c)" "view (demo_opened c) (demo_slot c) = c"
  "lengths (demo_opened c) (demo_slot c) = length c" "server_ok (demo_opened c)"
  "d_hash (descs (demo_opened c) (demo_slot c)) = key_hash (str ''a'')"
  "d_refs (descs (demo_opened c) (demo_slot c)) = 1"
proof -
  obtain i v where p: "prepare_file (str ''a'') 0 (demo_file (str ''a'') c) = (0, Some i, v)"
    and a: "acquired (demo_file (str ''a'') c) (key_hash (str ''a'')) c (length c) v i"
    using acquire_create [of "demo_file (str ''a'') c" "str ''a''", OF demo_file_ok(1) demo_open(2)]
    by (metis demo_file_ok(3) option.simps(5))
  show "live (demo_opened c) (demo_slot c)" "view (demo_opened c) (demo_slot c) = c"
    "lengths (demo_opened c) (demo_slot c) = length c" "server_ok (demo_opened c)"
    "d_hash (descs (demo_opened c) (demo_slot c)) = key_hash (str ''a'')"
    "d_refs (descs (demo_opened c) (demo_slot c)) = 1"
    using a acquired_server_ok [OF a]
    by (simp_all add: demo_opened_def demo_slot_def p acquired_def demo_file_fields zero_desc_def)
qed

text \<open>A full table, with a holder on slot 0.\<close>

definition demo_full :: world where
  "demo_full = demo_world
     \<lparr>descs := (\<lambda>i. zero_desc\<lparr>d_hash := of_nat (i + 1), d_fd := Some (new_stream (str ''f'')),
        d_refs := (if i = 0 then 1 else 0)\<rparr>), idx := DESC_TABLE_SIZE - 1\<rparr>"

lemma demo_full_ok:
  "full_at_end demo_full" "no_links demo_full" "dirs_ready demo_full" "faults demo_full = []"
  "d_fd (descs demo_full i) = Some (new_stream (str ''f''))" "XXTABLE demo_full c = None"
  "srv_dir demo_full = str ''d''" "fs demo_full p = fs demo_world p" "d_refs (descs demo_full 0) = 1"
  using dirs_ready_demo
  by (simp_all add: full_at_end_def demo_full_def no_links_def dirs_ready_def zero_desc_def DESC_TABLE_SIZE_def
      get_us_def gettimeofday_def demo_world_def)

text \<open>A full table in which every descriptor is in use; slot 0 holds key \<open>a\<close>.\<close>

definition demo_busy :: world where
  "demo_busy = demo_world
     \<lparr>descs := (\<lambda>i. zero_desc\<lparr>d_hash := (if i = 0 then key_hash (str ''a'') else of_nat (i + 1)), d_refs := 1\<rparr>),
      XXTABLE := (\<lambda>_. None)(chain_id (key_hash (str ''a'')) := Some 0), idx := DESC_TABLE_SIZE - 1\<rparr>"

lemma demo_busy_ok:
  defines "v \<equiv> touch_desc 0 (touch_desc 0 demo_busy)"
  shows "no_links demo_busy" "faults demo_busy = []" "d_refs (descs demo_busy 0) = 1"
    and "prepare_files [str ''a''] (touch_desc 0 demo_busy) = (0, [Some 0], v)"
    and "d_refs (descs v 0) = 3"
    and "\<exists>dt v'. prepare_file (str ''b'') 1 v = (-1, dt, v')"
    and "prepare_file (str ''a'') 2 demo_busy = (0, Some 0, touch_desc 0 demo_busy)"
proof -
  show "no_links demo_busy" "faults demo_busy = []" "d_refs (descs demo_busy 0) = 1"
    by (simp_all add: demo_busy_def no_links_def zero_desc_def demo_world_def)
  show "prepare_file (str ''a'') 2 demo_busy = (0, Some 0, touch_desc 0 demo_busy)"
    by (simp add: prepare_file_def demo_busy_def Let_def)
  have other: "descs (touch_desc 0 u) i = descs u i" if "i \<noteq> 0" for u i
    using that by (simp add: touch_desc_def Let_def split_def table_frames)
  note touched = touch_same(6,7,8,11)
  have "d_hash (descs (touch_desc 0 demo_busy) 0) = key_hash (str ''a'')"
    "XXTABLE (touch_desc 0 demo_busy) (chain_id (key_hash (str ''a''))) = Some 0"
    unfolding touched by (simp_all add: demo_busy_def)
  then show "prepare_files [str ''a''] (touch_desc 0 demo_busy) = (0, [Some 0], v)"
    by (simp add: prepare_file_def v_def Let_def)
  show "d_refs (descs v 0) = 3" unfolding v_def touched by (simp add: demo_busy_def)
  have t: "idx v = DESC_TABLE_SIZE - 1" "XXTABLE v = XXTABLE demo_busy"
    unfolding v_def touched by (simp_all add: demo_busy_def)
  have "DESC_TABLE_SIZE - 1 \<noteq> 0" by (simp add: DESC_TABLE_SIZE_def)
  then have d: "descs v (DESC_TABLE_SIZE - 1) = descs demo_busy (DESC_TABLE_SIZE - 1)" by (simp add: v_def other)
  have last: "d_hash (descs v (DESC_TABLE_SIZE - 1)) \<noteq> 0" "d_refs (descs v (DESC_TABLE_SIZE - 1)) = 1"
    unfolding d by (simp_all add: demo_busy_def DESC_TABLE_SIZE_def)
  have "DESC_TABLE_SIZE - 1 + 1 = DESC_TABLE_SIZE" by (simp add: DESC_TABLE_SIZE_def)
  then have "scan_slots (descs v) (idx v) tmp None = Inr None" for tmp
    unfolding t(1) using last by (subst scan_slots.simps) (subst scan_slots.simps, simp)
  then have slot: "get_avalible_slot v = (-1, (snd (get_us v))\<lparr>idx := 0\<rparr>)"
    by (simp add: get_avalible_slot_def Let_def split_def table_frames)
  have "XXTABLE v (chain_id (key_hash (str ''b''))) = None"
    by (simp add: t(2)) (simp add: demo_busy_def demo_fields key_hash_a chain_id_def DESC_HASH_TABLE_SIZE_def)
  then show "\<exists>dt v'. prepare_file (str ''b'') 1 v = (-1, dt, v')"
    by (simp add: prepare_file_def open_file_def slot)
qed

text \<open>Two keys with different hashes on one chain.\<close>

lemma key_hash_chain:
  "key_hash (str ''bf'') = 182906388940189934" "key_hash (str ''sf'') = 15577523721832269766"
  "chain_id (key_hash (str ''bf'')) = chain_id (key_hash (str ''sf''))"
proof -
  show h: "key_hash (str ''bf'') = 182906388940189934" "key_hash (str ''sf'') = 15577523721832269766"
    by (simp_all add: key_hash_def cstr_def str_def XXH64_eq_bytes xxh64_eval)
  show "chain_id (key_hash (str ''bf'')) = chain_id (key_hash (str ''sf''))"
    unfolding h by (simp add: chain_id_def DESC_HASH_TABLE_SIZE_def)
qed

lemma demo_chain:
  "\<exists>i v. table_wf v \<and> XXTABLE v (chain_id (key_hash (str ''sf''))) = Some i \<and>
     d_hash (descs v i) \<noteq> key_hash (str ''sf'') \<and> slots_used v 1"
proof -
  have can: "can_open demo_world (key_hash (str ''bf''))" by (simp add: demo_ok key_hash_chain(1))
  obtain n v where o: "prepare_file (str ''bf'') 0 demo_world = (0, Some n, v)"
    "opens demo_world v n (key_hash (str ''bf'')) (opened_content 0 (disk demo_world (key_hash (str ''bf''))))
      (opened_size (disk demo_world (key_hash (str ''bf''))))"
    using prepare_file_closed [of demo_world "str ''bf''" 0] demo_ok(1) can
    by (auto simp: server_ok_def demo_fields)
  have "slots_used demo_world 0" by (simp add: slots_used_def demo_fields zero_desc_def)
  then have n: "n = 0" using o(2) slots_used_unique by (auto simp: opens_def)
  have "XXTABLE v (chain_id (key_hash (str ''sf''))) = Some n"
    using o(2) by (auto elim!: opensE simp: key_hash_chain(3))
  moreover have "d_hash (descs v n) \<noteq> key_hash (str ''sf'')"
    using opens_fields(2) [OF o(2)] by (simp add: key_hash_chain)
  ultimately show ?thesis using opens_wf [OF o(2)] n by (intro exI [of _ 0] exI [of _ v]) simp
qed

text \<open>Options for the directory \<open>d\<close> and the file \<open>x\<close> of the process id.\<close>

lemma demo_options:
  "fs io (str ''d'') = Some (Dir True) \<Longrightarrow>
    apply_option inet io (100, str ''d'') sv = Some (sv\<lparr>sv_dir := Some (str ''d'')\<rparr>)"
  "fs io (str ''x'') = Some (Reg True c) \<Longrightarrow>
    apply_option inet io (112, str ''x'') sv = Some (sv\<lparr>sv_pid := Some (str ''x'')\<rparr>)"
proof -
  have c: "cstr (str ''d'') = str ''d''" "cstr (str ''x'') = str ''x''" by (simp_all add: cstr_def str_def)
  show "apply_option inet io (100, str ''d'') sv = Some (sv\<lparr>sv_dir := Some (str ''d'')\<rparr>)"
    if "fs io (str ''d'') = Some (Dir True)"
    by (simp add: apply_option_def check_dir_ok c that) (simp add: str_def)
  show "apply_option inet io (112, str ''x'') sv = Some (sv\<lparr>sv_pid := Some (str ''x'')\<rparr>)"
    if "fs io (str ''x'') = Some (Reg True c)"
    by (simp add: apply_option_def check_file_def c that Let_def) (simp add: str_def)
qed

lemmas demo_states = demo_ok(1,3) demo_file_ok(1,3) demo_open demo_words demo_atol

end
