(* ===== verification/WorkersRun.thy ===== *)
theory WorkersRun
  imports WorkersTurns Examples
begin

text \<open>
  Whole schedules: at every moment the reference counts are right and every held descriptor is open,
  and what all threads together have done at the end.
\<close>

section \<open>At every moment\<close>

lemma workers_ok_start:
  assumes "steady (set rs) w"
  shows "workers_ok rs w (\<lambda>_. Queued, w)"
proof -
  have "stage_ok rs w w Queued rq" for rq by (cases rq) simp_all
  then show ?thesis using refs_ok_start [OF assms] by (simp add: workers_ok_def)
qed

lemma turn_keeps:
  assumes "workers_ok rs w0 c" and "apart rs" and "\<forall>rq\<in>set rs. good_request rq"
  shows "workers_ok rs w0 (turn rs t c)"
proof (cases "t < length rs")
  case True
  obtain s w where c: "c = (s, w)" by (cases c)
  obtain st w' where e: "worker_step (rs ! t) (s t) w = (st, w')" by (cases "worker_step (rs ! t) (s t) w")
  show ?thesis using turn_ok [OF assms(1) [unfolded c] True assms(2,3) e] True by (simp add: c turn_def e)
next
  case False
  then show ?thesis using assms(1) by (cases c) (simp add: turn_def)
qed

lemma schedule_keeps:
  assumes "steady (set rs) w" and "apart rs" and "\<forall>rq\<in>set rs. good_request rq"
  shows "workers_ok rs w (run_schedule rs sched w)"
proof -
  have "workers_ok rs w (fold (turn rs) sched c)" if "workers_ok rs w c" for c
    using that by (induction sched arbitrary: c) (simp_all add: turn_keeps assms(2,3))
  then show ?thesis using workers_ok_start [OF assms(1)] by (simp add: run_schedule_def)
qed

lemma refs_ok_held:
  assumes ok: "refs_ok rs w0 (s, w)" and good: "\<forall>rq\<in>set rs. good_request rq" and n: "17 * length rs < 2 ^ 32"
    and t: "t < length rs" and i: "i \<in> set (held (s t))" and z: "d_refs (descs w0 i) = 0"
  shows "d_refs (descs w i) \<noteq> 0"
proof -
  have "length (held (s u)) \<le> 17" if "u < length rs" for u
  proof -
    have "length (held (s u)) \<le> load (rs ! u)" using ok that by (simp add: refs_ok_def holds_ok_def)
    then show ?thesis using good_load [of "rs ! u"] good nth_mem [OF that] by force
  qed
  then have "of_nat (holders (length rs) s i) \<noteq> (0 :: u32)"
    by (intro holders_nonzero [OF holders_pos [where s = s, OF t i] holders_le [where m = 17] n])
  then show ?thesis using ok z by (simp add: refs_ok_def)
qed

section \<open>At the end\<close>

lemma answered_refs:
  assumes "refs_ok rs w (s, v)" and "\<forall>t<length rs. \<exists>r. s t = Answered r"
  shows "same_refs w v"
proof -
  have "count_list (held (s t)) i = 0" if "t < length rs" for t i using assms(2) that by auto
  then have "holders (length rs) s i = 0" for i unfolding holders_def by simp
  then show ?thesis using assms(1) by (simp add: refs_ok_def same_refs_def)
qed

text \<open>When all commands are answered; of the destinations of BITOP nothing is said.\<close>

lemma all_answered:
  assumes inv: "workers_ok rs w (s, v)" and ap: "apart rs" and good: "\<forall>rq\<in>set rs. good_request rq"
    and all: "\<forall>t<length rs. \<exists>r. s t = Answered r"
  shows "same_refs w v"
    and "t < length rs \<Longrightarrow> rs ! t = Set_request cmd \<Longrightarrow>
      s t = Answered (of_bool (cell_bit w (key_hash (sb_key cmd)) (position_in cmd)))"
    and "t < length rs \<Longrightarrow> rs ! t = Get_request g \<Longrightarrow>
      \<exists>r\<in>told (set rs) w (key_hash (gb_key g)) (nat (gb_offset g)). s t = Answered r"
    and "Set_request cmd \<in> set rs \<Longrightarrow>
      cell_bit v (key_hash (sb_key cmd)) (position_in cmd) = (sb_value cmd = 1)"
    and "h \<notin> dest_hashes (set rs) \<Longrightarrow>
      (\<And>cmd. Set_request cmd \<in> set rs \<Longrightarrow> key_hash (sb_key cmd) = h \<Longrightarrow> position_in cmd \<noteq> p) \<Longrightarrow>
      cell_bit v h p = cell_bit w h p"
proof -
  have ans: "\<exists>r. s t = Answered r" if "t < length rs" for t using all that by blast
  have st: "stage_ok rs w v (s t) (rs ! t)" if "t < length rs" for t using inv that by (simp add: workers_ok_def)
  show "same_refs w v" using answered_refs [OF _ all] inv by (simp add: workers_ok_def)
  show "s t = Answered (of_bool (cell_bit w (key_hash (sb_key cmd)) (position_in cmd)))"
    if t: "t < length rs" "rs ! t = Set_request cmd" for t cmd
  proof -
    from ans [OF t(1)] show ?thesis using st [OF t(1)] t(2) by (auto simp: cell_bit_cell)
  qed
  show "\<exists>r\<in>told (set rs) w (key_hash (gb_key g)) (nat (gb_offset g)). s t = Answered r"
    if t: "t < length rs" "rs ! t = Get_request g"
  proof -
    from ans [OF t(1)] show ?thesis using st [OF t(1)] t(2) by auto
  qed
  have byte: "cell v (key_hash (sb_key cmd)) (position_in cmd div 8) =
      new_bit cmd (cell w (key_hash (sb_key cmd)) (position_in cmd div 8))" if m: "Set_request cmd \<in> set rs" for cmd
  proof -
    obtain t where t: "t < length rs" "rs ! t = Set_request cmd" using m by (metis in_set_conv_nth)
    from ans [OF t(1)] show ?thesis using st [OF t(1)] t(2) by auto
  qed
  have bits: "cell_bit v (key_hash (sb_key cmd)) p =
      (if p = position_in cmd then sb_value cmd = 1 else cell_bit w (key_hash (sb_key cmd)) p)"
    if "Set_request cmd \<in> set rs" "p div 8 = position_in cmd div 8" for cmd p
  proof -
    have "7 - p mod 8 < 8" "7 - position_in cmd mod 8 < 8" by simp_all
    then show ?thesis
      unfolding cell_bit_cell that(2) byte [OF that(1)] new_bit_def
      using bit_put_bit same_bit_iff [OF that(2)] by simp
  qed
  show "cell_bit v (key_hash (sb_key cmd)) (position_in cmd) = (sb_value cmd = 1)"
    if "Set_request cmd \<in> set rs" using bits [OF that] by simp
  show "cell_bit v h p = cell_bit w h p"
    if h: "h \<notin> dest_hashes (set rs)"
      and other: "\<And>cmd. Set_request cmd \<in> set rs \<Longrightarrow> key_hash (sb_key cmd) = h \<Longrightarrow> position_in cmd \<noteq> p"
  proof (cases "\<exists>t<length rs. targets (rs ! t) h (p div 8)")
    case True
    then obtain t where t: "t < length rs" "targets (rs ! t) h (p div 8)" by blast
    then obtain cmd where c: "rs ! t = Set_request cmd" "key_hash (sb_key cmd) = h" "position_in cmd div 8 = p div 8"
      using h dest_hashes_mem [OF nth_mem [OF t(1)], of h] by (cases "rs ! t") auto
    have m: "Set_request cmd \<in> set rs" using t(1) c(1) by (metis nth_mem)
    show ?thesis using bits [OF m, of p] other [OF m c(2)] c(2,3) by simp
  next
    case False
    then show ?thesis using inv by (simp add: workers_ok_def cell_bit_cell)
  qed
qed

section \<open>Concrete states\<close>

lemma room_subset:
  assumes "room w hs" and "gs \<subseteq> hs"
  shows "room w gs"
proof -
  have "card {h \<in> gs. XXTABLE w (chain_id h) = None} \<le> card {h \<in> hs. XXTABLE w (chain_id h) = None}"
    using assms by (intro card_mono) (auto simp: room_def)
  then show ?thesis using assms unfolding room_def by (meson add_left_mono finite_subset inj_on_subset le_trans subsetD)
qed

lemma can_open_set_room:
  assumes "can_open_set w hs m" and "finite hs" and "card hs \<le> m"
  shows "room w hs"
proof -
  have "card {h \<in> hs. XXTABLE w (chain_id h) = None} \<le> m"
    using card_mono [OF assms(2), of "{h \<in> hs. XXTABLE w (chain_id h) = None}"] assms(3) by simp
  then show ?thesis using assms(1,2) unfolding can_open_set_def room_def by (meson add_left_mono le_trans)
qed

text \<open>The states of \<open>Examples\<close> are steady for commands on \<open>a\<close>, \<open>b\<close> and \<open>c\<close>, when no destination exists.\<close>

lemma demo_steady:
  assumes "all_hashes Q \<subseteq> {key_hash (str ''a''), key_hash (str ''b''), key_hash (str ''c'')}"
    and "key_hash k \<notin> dest_hashes Q" and "length c \<le> 2 ^ 31"
  shows "steady Q (demo_file k c)"
proof -
  have "room (demo_file k c) {key_hash (str ''a''), key_hash (str ''b''), key_hash (str ''c'')}"
    by (rule can_open_set_room [OF demo_open_set]) (simp_all add: card_insert_if)
  then show ?thesis
    using room_subset [OF _ assms(1)] assms(2,3) by (auto simp: steady_def demo_file_ok split: if_splits)
qed

end
