(* ===== verification/WorkersAlone.thy ===== *)
theory WorkersAlone
  imports WorkersRun
begin

text \<open>
  A thread that runs alone: its turns together are the function of \<open>bitops.c\<close> that its command calls,
  then the release of its descriptors, and so what the handler of its line does in one go.
\<close>

section \<open>Several turns in a row\<close>

definition leads :: "request \<Rightarrow> stage \<times> world \<Rightarrow> stage \<times> world \<Rightarrow> bool" where
  "leads rq c c' \<longleftrightarrow> (\<exists>n. ((\<lambda>(st, w). worker_step rq st w) ^^ n) c = c')"

lemma leads_refl: "leads rq c c"
  unfolding leads_def by (rule exI [of _ 0]) simp

lemma leads_step: "worker_step rq st w = c \<Longrightarrow> leads rq c c' \<Longrightarrow> leads rq (st, w) c'"
proof -
  assume s: "worker_step rq st w = c" and "leads rq c c'"
  then obtain n where "((\<lambda>(st, w). worker_step rq st w) ^^ n) c = c'" by (auto simp: leads_def)
  then show "leads rq (st, w) c'"
    unfolding leads_def using s by (intro exI [of _ "Suc n"]) (simp add: funpow_Suc_right del: funpow.simps)
qed

lemma leads_once: "worker_step rq st w = c \<Longrightarrow> leads rq (st, w) c"
  by (rule leads_step [OF _ leads_refl])

lemma leads_trans: "leads rq c1 c2 \<Longrightarrow> leads rq c2 c3 \<Longrightarrow> leads rq c1 c3"
  unfolding leads_def by (metis funpow_add comp_apply)

lemma leads_turns:
  assumes "leads rq (s 0, w) (st, w')"
  shows "\<exists>n. fold (turn [rq]) (replicate n 0) (s, w) = (s(0 := st), w')"
proof -
  obtain n where n: "((\<lambda>(st, w). worker_step rq st w) ^^ n) (s 0, w) = (st, w')" using assms by (auto simp: leads_def)
  have "fold (turn [rq]) (replicate n 0) (s, w) =
      (let (st, w') = ((\<lambda>(st, w). worker_step rq st w) ^^ n) (s 0, w) in (s(0 := st), w'))" for s w n
    by (induction n arbitrary: s w) (simp_all add: turn_def funpow_Suc_right split_def Let_def del: funpow.simps)
  from this [of n s w] show ?thesis using n by (intro exI [of _ n]) simp
qed

text \<open>An answered thread stays as it is, so it does not matter if it is given more turns.\<close>

lemma answered_stays: "s 0 = Answered r \<Longrightarrow> fold (turn [rq]) (replicate k 0) (s, w) = (s, w)"
  by (induction k) (simp_all add: turn_def answered_step fun_upd_idem)

lemma leads_answer:
  assumes l: "leads rq (Queued, v) (Answered r, v')" and st: "steady {rq} v" and good: "good_request rq"
    and N: "max_turns rq \<le> N"
  shows "run_schedule [rq] (replicate N 0) v = ((\<lambda>_. Queued)(0 := Answered r), v')"
proof -
  let ?run = "\<lambda>k. fold (turn [rq]) (replicate k 0) (\<lambda>_. Queued, v)"
  have more: "?run (k + j) = ?run k" if "fst (?run k) 0 = Answered r'" for k j r'
  proof -
    obtain s w where sw: "?run k = (s, w)" by fastforce
    have "?run (k + j) = fold (turn [rq]) (replicate j 0) (?run k)" by (simp add: replicate_add del: fold_replicate)
    then show ?thesis using answered_stays [of s r'] that by (simp add: sw del: fold_replicate)
  qed
  obtain n where n: "?run n = ((\<lambda>_. Queued)(0 := Answered r), v')"
    using leads_turns [where s = "\<lambda>_. Queued", OF l] by blast
  obtain r' where r': "fst (?run N) 0 = Answered r'"
    using schedule_answers [of "[rq]" v 0 "replicate N 0"] st good N by (auto simp: run_schedule_def simp del: fold_replicate)
  have "?run N = ?run n"
  proof (cases "n \<le> N")
    case True
    then show ?thesis using more [of n r "N - n"] n by (simp del: fold_replicate)
  next
    case False
    then show ?thesis using more [OF r', of "n - N"] by (simp del: fold_replicate)
  qed
  then show ?thesis using n by (simp add: run_schedule_def del: fold_replicate)
qed

text \<open>Releasing the descriptors.\<close>

lemma somes_release: "fold release_desc dts w = fold (\<lambda>i. release_desc (Some i)) (somes dts) w"
  by (induction dts arbitrary: w) (auto simp: release_desc_def split: option.split)

lemma leads_depart: "leads rq (depart ds r, w) (Answered r, fold (\<lambda>i. release_desc (Some i)) ds w)"
proof (induction ds arbitrary: w)
  case Nil
  show ?case by (simp add: depart_def leads_refl)
next
  case (Cons i ds)
  have "leads rq (Leaving (i # ds) r, w) (Answered r, fold (\<lambda>i. release_desc (Some i)) ds (release_desc (Some i) w))"
    by (rule leads_step [OF _ Cons]) (simp add: leaving_step leave_def)
  then show ?case by (simp add: depart_def)
qed

lemma leads_released:
  assumes "leads rq c (depart (somes dts) r, w)"
  shows "leads rq c (Answered r, fold release_desc dts w)"
  using leads_trans [OF assms leads_depart] by (simp add: somes_release)

section \<open>BITCOUNT\<close>

lemma leads_counting:
  assumes "count_loop (read_from i) remaining off bits w = (n, w')"
  shows "leads (Count_request key s e) (Counting i remaining off bits, w) (Leaving [i] (sint n), w')"
  using assms
proof (induction remaining arbitrary: off bits w rule: less_induct)
  case (less remaining)
  show ?case
  proof (cases "0 < remaining")
    case True
    let ?n = "if remaining < FILE_BUFFER_SIZE then remaining else FILE_BUFFER_SIZE"
    obtain r buf v where rd: "read_from i ?n (to_off off) w = (r, buf, v)" by (metis prod_cases3)
    have loop: "(if r = 0 then (bits, v)
        else count_loop (read_from i) (remaining - r) (off + r) (bits + redisPopcount buf r) v) = (n, w')"
      using less.prems True rd by (subst (asm) count_loop.simps) (simp add: Let_def)
    show ?thesis
    proof (cases "r = 0")
      case True
      then show ?thesis using loop rd \<open>0 < remaining\<close> by (intro leads_once) (simp add: Let_def)
    next
      case False
      then have "leads (Count_request key s e)
          (Counting i (remaining - r) (off + r) (bits + redisPopcount buf r), v) (Leaving [i] (sint n), w')"
        using loop True by (intro less.IH) simp_all
      then show ?thesis by (rule leads_step [rotated]) (use rd True False in \<open>simp add: Let_def\<close>)
    qed
  next
    case False
    then have "n = bits" "w' = w" using less.prems by (simp_all add: count_loop.simps [of _ 0])
    then show ?thesis using False by (intro leads_once) simp
  qed
qed

lemma bitcount_start_cases:
  assumes "bitcountCommand cmd i w = (r, w')"
  shows "bitcount_start cmd i w = (Leaving [i] r, w') \<or>
    (\<exists>remaining off v n. bitcount_start cmd i w = (Counting i remaining off 0, v) \<and>
      count_loop (read_from i) remaining off 0 v = (n, w') \<and> r = sint n)"
  using assms unfolding bitcount_start_def bitcountCommand_def Let_def by (auto split: if_splits prod.splits)

lemma leads_bitcount:
  assumes "d_length (descs w i) \<noteq> 0"
    and "bitcountCommand
      \<lparr>bc_key = key, bc_start = s, bc_end = (case e of None \<Rightarrow> int (d_length (descs w i)) - 1 | Some e \<Rightarrow> e)\<rparr> i w = (r, w')"
  shows "leads (Count_request key s e) (Holds i, w) (Leaving [i] r, w')"
proof -
  define cmd where
    "cmd = \<lparr>bc_key = key, bc_start = s, bc_end = (case e of None \<Rightarrow> int (d_length (descs w i)) - 1 | Some e \<Rightarrow> e)\<rparr>"
  have st: "worker_step (Count_request key s e) (Holds i) w = bitcount_start cmd i w"
    using assms(1) by (simp add: cmd_def Let_def)
  from bitcount_start_cases [OF assms(2) [folded cmd_def]] show ?thesis
  proof (elim disjE exE conjE)
    assume "bitcount_start cmd i w = (Leaving [i] r, w')"
    then show ?thesis using st by (intro leads_once) simp
  next
    fix remaining off v n
    assume "bitcount_start cmd i w = (Counting i remaining off 0, v)"
      "count_loop (read_from i) remaining off 0 v = (n, w')" "r = sint n"
    then show ?thesis using leads_counting st by (metis leads_step)
  qed
qed

section \<open>BITOP\<close>

lemma load_block_buffers: "length (fst (load_block rd offset ss w)) = length ss"
  by (induction rd offset ss w rule: load_block.induct) (auto simp: Let_def split: prod.split)

lemma leads_loading:
  assumes "load_block read_from offset ss w = (bs, ss', w')" and "length bufs = length ss0"
    and "bufs \<noteq> [] \<or> blocks_left (ss0 @ ss) m \<noteq> 0"
  shows "leads (Op_request cmd srcs) (Block d dts m (ss0 @ ss) offset bits bufs, w)
    (Block d dts m (ss0 @ ss') offset bits (bufs @ bs), w')"
  using assms
proof (induction ss arbitrary: ss0 bufs bs ss' w)
  case Nil
  then show ?case by (simp add: leads_refl)
next
  case (Cons x ss)
  let ?step = "worker_step (Op_request cmd srcs) (Block d dts m (ss0 @ x # ss) offset bits bufs) w"
  have nth: "(ss0 @ x # ss) ! length bufs = x" and lt: "length bufs < length (ss0 @ x # ss)"
    using Cons.prems(2) by simp_all
  have ne: "\<not> (bufs = [] \<and> blocks_left (ss0 @ x # ss) m = 0)" using Cons.prems(3) by blast
  have upd: "(ss0 @ x # ss)[length bufs := y] = ss0 @ y # ss" for y using Cons.prems(2) by (simp add: list_update_append)
  obtain b y v bs1 ss1 where s: "?step = (Block d dts m (ss0 @ y # ss) offset bits (bufs @ [b]), v)"
    and l: "load_block read_from offset ss v = (bs1, ss1, w')" "bs = b # bs1" "ss' = y # ss1"
  proof (cases "\<exists>i t r. x = Some (i, t, r) \<and> t \<noteq> 0")
    case True
    then obtain i t r where x: "x = Some (i, t, r)" "t \<noteq> 0" by blast
    obtain k buf v where rd: "read_from i (if t = 1 then r else FILE_BUFFER_SIZE) offset w = (k, buf, v)"
      by (metis prod_cases3)
    obtain bs1 ss1 w1 where l: "load_block read_from offset ss v = (bs1, ss1, w1)" by (metis prod_cases3)
    have "?step = (Block d dts m (ss0 @ Some (i, t - 1, r) # ss) offset bits (bufs @ [pad_block buf]), v)"
      unfolding worker_step.simps bitop_turn.simps if_not_P [OF ne] if_P [OF lt] nth upd
      using x rd by (cases "t = 1") (simp_all add: Let_def)
    moreover have "load_block read_from offset (x # ss) w = (pad_block buf # bs1, Some (i, t - 1, r) # ss1, w1)"
      using l x rd by (cases "t = 1") (simp_all add: Let_def)
    ultimately show thesis using that l Cons.prems(1) by simp
  next
    case False
    obtain bs1 ss1 w1 where l: "load_block read_from offset ss w = (bs1, ss1, w1)" by (metis prod_cases3)
    have "?step = (Block d dts m (ss0 @ x # ss) offset bits (bufs @ [pad_block []]), w)"
      unfolding worker_step.simps bitop_turn.simps if_not_P [OF ne] if_P [OF lt] nth
      using False by (auto split: option.split)
    moreover have "load_block read_from offset (x # ss) w = (pad_block [] # bs1, x # ss1, w1)"
      using False l by (cases x) auto
    ultimately show thesis using that l Cons.prems(1) by simp
  qed
  have "leads (Op_request cmd srcs) (Block d dts m ((ss0 @ [y]) @ ss) offset bits (bufs @ [b]), v)
      (Block d dts m ((ss0 @ [y]) @ ss1) offset bits ((bufs @ [b]) @ bs1), w')"
    by (rule Cons.IH [OF l(1)]) (use Cons.prems(2) in simp_all)
  then show ?case using leads_step [OF s] l(2,3) by simp
qed

definition loop_answer :: "bitop_cmd \<Rightarrow> (int \<times> u64) option \<Rightarrow> int" where
  "loop_answer cmd res = (case res of None \<Rightarrow> -1 | Some (off, bits) \<Rightarrow> if bo_hook cmd = COUNTOP then sint bits else off)"

definition writer :: "nat option \<Rightarrow> byte list \<Rightarrow> int \<Rightarrow> world \<Rightarrow> nat \<times> world" where
  "writer d = (case d of None \<Rightarrow> (\<lambda>buf off w. (0, w\<lparr>crashed := True\<rparr>)) | Some i \<Rightarrow> write_to i)"

lemma leads_loop:
  assumes "bitop_loop read_from (writer d) (bo_option cmd) (bo_hook cmd) m ss offset bits w = (res, w')"
  shows "leads (Op_request cmd srcs) (Block d dts m ss offset bits [], w)
    (depart (somes (d # dts)) (loop_answer cmd res), w')"
  using assms
proof (induction "blocks_left ss m" arbitrary: ss offset bits w rule: less_induct)
  case less
  let ?rq = "Op_request cmd srcs" and ?fin = "(depart (somes (d # dts)) (loop_answer cmd res), w')"
  show ?case
  proof (cases "blocks_left ss m = 0")
    case True
    then have "res = Some (offset, bits)" "w' = w" using less.prems by (simp_all add: bitop_loop.simps [of _ _ _ _ _ ss])
    then show ?thesis using True by (intro leads_once) (simp add: loop_answer_def)
  next
    case False
    obtain bufs ss' v where l: "load_block read_from offset ss w = (bufs, ss', v)" by (metis prod_cases3)
    define sz where "sz = (if blocks_left ss' m \<noteq> 0 then FILE_BUFFER_SIZE else last_left ss' m)"
    define p0 where "p0 = combine (bo_option cmd) bufs sz"
    define nxt where "nxt = to_int32 (offset + int sz)"
    have dec: "blocks_left ss' m < blocks_left ss m" by (rule blocks_left_decreases [OF l False])
    have "leads ?rq (Block d dts m ([] @ ss) offset bits [], w) (Block d dts m ([] @ ss') offset bits ([] @ bufs), v)"
      by (rule leads_loading [OF l]) (use False in simp_all)
    then have load: "leads ?rq (Block d dts m ss offset bits [], w) (Block d dts m ss' offset bits bufs, v)" by simp
    have "length ss' = length ss" using load_block_sources [of read_from offset ss w] l by simp
    moreover have "length bufs = length ss" using load_block_buffers [of read_from offset ss w] l by simp
    moreover have "ss \<noteq> []" using False by (auto simp: blocks_left.simps)
    ultimately have full: "bufs \<noteq> []" "\<not> length bufs < length ss'" by auto
    have ne: "\<not> (bufs = [] \<and> blocks_left ss' m = 0)" using full(1) by simp
    have comb: "worker_step ?rq (Block d dts m ss' offset bits bufs) v =
        (case bo_hook cmd of
           NONE \<Rightarrow> Storing d dts m ss' offset nxt bits (take sz p0)
         | COUNTOP \<Rightarrow> Block d dts m ss' nxt (bits + redisPopcount p0 sz) []
         | GETOP \<Rightarrow> Block d dts m ss' nxt bits [], v)"
      unfolding worker_step.simps bitop_turn.simps if_not_P [OF ne] if_not_P [OF full(2)] Let_def
        sz_def [symmetric] p0_def [symmetric] nxt_def [symmetric] by (rule refl)
    have loop: "(case bo_hook cmd of
          NONE \<Rightarrow> (let (r, w) = writer d (take sz p0) offset v
            in if r = 0 then (None, w) else bitop_loop read_from (writer d) (bo_option cmd) (bo_hook cmd) m ss' nxt bits w)
        | COUNTOP \<Rightarrow> bitop_loop read_from (writer d) (bo_option cmd) (bo_hook cmd) m ss' nxt (bits + redisPopcount p0 sz) v
        | GETOP \<Rightarrow> bitop_loop read_from (writer d) (bo_option cmd) (bo_hook cmd) m ss' nxt bits v) = (res, w')"
      using less.prems False
      unfolding bitop_loop.simps [of _ _ _ _ _ ss] l Let_def sz_def p0_def nxt_def by simp
    have "leads ?rq (Block d dts m ss' offset bits bufs, v) ?fin"
    proof (cases "bo_hook cmd")
      case NONE
      obtain r u where wr: "writer d (take sz p0) offset v = (r, u)" by fastforce
      then have wr': "(case d of None \<Rightarrow> (0, v\<lparr>crashed := True\<rparr>) | Some i \<Rightarrow> write_to i (take sz p0) offset v) = (r, u)"
        by (simp add: writer_def split: option.splits)
      have st: "worker_step ?rq (Storing d dts m ss' offset nxt bits (take sz p0)) v =
          (if r = 0 then depart (somes (d # dts)) (-1) else Block d dts m ss' nxt bits [], u)"
        unfolding worker_step.simps bitop_turn.simps wr' by simp
      have "leads ?rq (Storing d dts m ss' offset nxt bits (take sz p0), v) ?fin"
      proof (cases "r = 0")
        case True
        then have "res = None" "w' = u" using loop wr NONE by simp_all
        then show ?thesis using st True by (intro leads_once) (simp add: loop_answer_def)
      next
        case False
        have "leads ?rq (Block d dts m ss' nxt bits [], u) ?fin"
          by (rule less.hyps [OF dec]) (use loop wr NONE False in simp)
        then show ?thesis by (rule leads_step [rotated]) (use st False in simp)
      qed
      then show ?thesis by (rule leads_step [rotated]) (use comb NONE in simp)
    next
      case COUNTOP
      have "leads ?rq (Block d dts m ss' nxt (bits + redisPopcount p0 sz) [], v) ?fin"
        by (rule less.hyps [OF dec]) (use loop COUNTOP in simp)
      then show ?thesis by (rule leads_step [rotated]) (use comb COUNTOP in simp)
    next
      case GETOP
      have "leads ?rq (Block d dts m ss' nxt bits [], v) ?fin" by (rule less.hyps [OF dec]) (use loop GETOP in simp)
      then show ?thesis by (rule leads_step [rotated]) (use comb GETOP in simp)
    qed
    then show ?thesis by (rule leads_trans [OF load])
  qed
qed

text \<open>The sources are acquired from the last one to the first.\<close>

lemma leads_sources:
  assumes "prepare_files ks w = (0, dts, w')"
  shows "leads (Op_request cmd srcs) (Sources d dts0 (pre @ ks), w) (Sources d (dts @ dts0) pre, w')"
  using assms
proof (induction ks arbitrary: pre dts w')
  case Nil
  then show ?case by (simp add: leads_refl)
next
  case (Cons key ks)
  obtain r0 dts1 v where p: "prepare_files ks w = (r0, dts1, v)" by (metis prod_cases3)
  obtain r dt u where f: "prepare_file key 1 v = (r, dt, u)" by (metis prod_cases3)
  have ok: "r0 = 0" "r \<noteq> -1" "w' = u" "dts = (if r = -2 then None else dt) # dts1"
    using Cons.prems p f by (auto split: if_splits)
  have "leads (Op_request cmd srcs) (Sources d dts0 ((pre @ [key]) @ ks), w) (Sources d (dts1 @ dts0) (pre @ [key]), v)"
    by (rule Cons.IH) (simp add: p ok(1))
  moreover have "leads (Op_request cmd srcs) (Sources d (dts1 @ dts0) (pre @ [key]), v) (Sources d (dts @ dts0) pre, w')"
    by (rule leads_once) (use f ok(2) in \<open>simp add: ok(3,4)\<close>)
  ultimately show ?case by (simp add: leads_trans)
qed

lemma leads_bitop:
  assumes "bitopCommand cmd d dts w = (r, w')"
  shows "leads (Op_request cmd srcs) (Sources d dts [], w) (depart (somes (d # dts)) r, w')"
proof -
  let ?rq = "Op_request cmd srcs" and ?fl = "\<lambda>i. d_length (descs w i)"
  have st: "worker_step ?rq (Sources d dts []) w = bitop_start cmd d dts w" by simp
  obtain m ml where fm: "find_max ?fl 0 dts (0, 0) = (m, ml)" by fastforce
  obtain r0 v where a: "op_malloc (bo_count cmd) w = (r0, v)" by fastforce
  note defs = bitop_start_def bitopCommand_def Let_def fm a prod.case
  consider (empty) "ml = 0" | (oom) "ml \<noteq> 0" "r0 \<noteq> 0" | (loop) "ml \<noteq> 0" "r0 = 0" by blast
  then show ?thesis
  proof cases
    case empty
    have "bitop_start cmd d dts w = (depart (somes (d # dts)) r, w')"
      using assms empty unfolding defs by (simp del: somes.simps)
    then show ?thesis using st by (intro leads_once) simp
  next
    case oom
    have "bitop_start cmd d dts w = (depart (somes (d # dts)) r, w')"
      using assms oom unfolding defs by (simp del: somes.simps)
    then show ?thesis using st by (intro leads_once) simp
  next
    case loop
    let ?ss = "map (source_of ?fl) dts"
    obtain res u where l: "bitop_loop read_from (writer d) (bo_option cmd) (bo_hook cmd) m ?ss 0 0 v = (res, u)" by fastforce
    have "r = loop_answer cmd res" "w' = u"
      using assms loop l unfolding defs by (auto simp: writer_def loop_answer_def split: option.splits)
    then have "leads ?rq (Block d dts m ?ss 0 0 [], v) (depart (somes (d # dts)) r, w')" using leads_loop [OF l] by simp
    moreover have "bitop_start cmd d dts w = (Block d dts m ?ss 0 0 [], v)"
      using loop unfolding defs by simp
    ultimately show ?thesis using st by (metis leads_step)
  qed
qed

section \<open>Whole commands\<close>

lemma set_leads:
  assumes "prepare_file (sb_key cmd) 0 v = (0, Some i, v1)" and "setbitCommand cmd i v1 = (r, v2)"
  shows "leads (Set_request cmd) (Queued, v) (Answered r, release_desc (Some i) v2)"
proof -
  let ?rq = "Set_request cmd"
  obtain x v3 where x: "setbit_read cmd i v1 = (x, v3)" by fastforce
  have q: "worker_step ?rq Queued v = (Holds i, v1)" using assms(1) by simp
  have e: "leads ?rq (Leaving [i] r, v2) (Answered r, release_desc (Some i) v2)" by (rule leads_once) simp
  have "leads ?rq (Holds i, v1) (Leaving [i] r, v2)"
  proof (cases x)
    case (Inl r')
    then have "r' = r" "v3 = v2" using assms(2) x unfolding setbitCommand_halves by simp_all
    then show ?thesis using Inl x by (intro leads_once) simp
  next
    case (Inr bb)
    then obtain b bv where bb: "x = Inr (b, bv)" by (cases bb) simp
    then have "setbit_write cmd i (b, bv) v3 = (r, v2)" using assms(2) x unfolding setbitCommand_halves by simp
    then have "leads ?rq (Middle i b bv, v3) (Leaving [i] r, v2)" by (intro leads_once) simp
    then show ?thesis by (rule leads_step [rotated]) (use x bb in simp)
  qed
  then show ?thesis using leads_step [OF q] leads_trans e by blast
qed

lemma get_leads:
  assumes "prepare_file (gb_key cmd) 1 v = (0, Some i, v1)" and "getbitCommand cmd i v1 = (r, v2)"
  shows "leads (Get_request cmd) (Queued, v) (Answered r, release_desc (Some i) v2)"
  by (rule leads_step [where c = "(Holds i, v1)"], use assms(1) in \<open>simp del: One_nat_def\<close>,
    rule leads_step [where c = "(Leaving [i] r, v2)"], use assms(2) in simp, rule leads_once, simp)

lemma count_leads:
  assumes "prepare_file key 1 v = (0, Some i, v1)" and "d_length (descs v1 i) \<noteq> 0"
    and "bitcountCommand
      \<lparr>bc_key = key, bc_start = s, bc_end = (case e of None \<Rightarrow> int (d_length (descs v1 i)) - 1 | Some e \<Rightarrow> e)\<rparr> i v1 = (r, v2)"
  shows "leads (Count_request key s e) (Queued, v) (Answered r, release_desc (Some i) v2)"
proof -
  have "leads (Count_request key s e) (Leaving [i] r, v2) (Answered r, release_desc (Some i) v2)"
    by (rule leads_once) simp
  with leads_bitcount [OF assms(2,3)] have "leads (Count_request key s e) (Holds i, v1) (Answered r, release_desc (Some i) v2)"
    by (rule leads_trans)
  then show ?thesis by (rule leads_step [rotated]) (use assms(1) in \<open>simp del: One_nat_def\<close>)
qed

lemma count_empty_leads:
  assumes "prepare_file key 1 v = (0, Some i, v1)" and "d_length (descs v1 i) = 0"
  shows "leads (Count_request key s e) (Queued, v) (Answered 0, release_desc (Some i) v1)"
  by (rule leads_step [where c = "(Holds i, v1)"], use assms(1) in \<open>simp del: One_nat_def\<close>,
    rule leads_step [where c = "(Leaving [i] 0, v1)"], use assms(2) in simp, rule leads_once, simp)

lemma absent_leads:
  assumes "prepare_file key 1 v = (-2, None, v')"
  shows "leads (Get_request \<lparr>gb_key = key, gb_offset = off\<rparr>) (Queued, v) (Answered 0, v')"
    and "leads (Count_request key s e) (Queued, v) (Answered 0, v')"
  by (rule leads_once, use assms in \<open>simp del: One_nat_def\<close>)+

lemma op_leads:
  assumes "prepare_files srcs v0 = (0, dts, v1)" and "bitopCommand cmd d dts v1 = (r, v2)"
    and "worker_step (Op_request cmd srcs) Queued v = (Sources d [] srcs, v0)"
  shows "leads (Op_request cmd srcs) (Queued, v) (Answered r, fold release_desc (d # dts) v2)"
proof -
  let ?rq = "Op_request cmd srcs"
  have "leads ?rq (Sources d [] srcs, v0) (Sources d dts [], v1)"
    using leads_sources [OF assms(1), of cmd srcs d "[]" "[]"] by simp
  with leads_released [OF leads_bitop [OF assms(2)]]
  have "leads ?rq (Sources d [] srcs, v0) (Answered r, fold release_desc (d # dts) v2)"
    by (metis leads_trans)
  then show ?thesis by (rule leads_step [OF assms(3)])
qed

end
