(* ===== verification/PoolRun.thy ===== *)
theory PoolRun
  imports PoolInv WorkersAlone
begin

text \<open>
  The turns of a thread and the handler of its line agree, and a client that is alone on the server is
  answered as by the handler.
\<close>

lemma answer_text_number: "0 \<le> r \<Longrightarrow> answer_text r = dec_int r @ [10]"
  by (simp add: answer_text_def)

lemma answer_text_result: "r \<noteq> -2 \<Longrightarrow> answer_text r = result_line r"
  by (simp add: answer_text_def result_line_def)

lemma bitop_result_small: "steady Q v \<Longrightarrow> length (bitop_result op v srcs) \<le> 2 ^ 31"
  using steadyD(7) [of Q v]
  by (auto simp: bitop_result_def result_length_def content_or_empty_def split: option.split)

lemma to_int32_length: "n \<le> 2 ^ 31 \<Longrightarrow> to_int32 (int n) \<noteq> -2"
proof -
  assume "n \<le> 2 ^ 31"
  then consider "n < 2 ^ 31" | "n = 2 ^ 31" by linarith
  then show ?thesis
  proof cases
    case 1
    then show ?thesis using position_id [of n] by simp
  qed (simp add: to_int32_def)
qed

text \<open>What \<open>parse_and_execute\<close> replies and leaves, and what the turns of a thread alone come to.\<close>

definition as_thread :: "byte list \<Rightarrow> request \<Rightarrow> world \<Rightarrow> bool" where
  "as_thread line rq v \<longleftrightarrow>
     (\<exists>r. w_resp (fst (parse_and_execute (new_work line) v)) = answer_text r \<and>
       leads rq (Queued, v) (Answered r, snd (parse_and_execute (new_work line) v)))"

lemma set_as_thread:
  assumes "server_ok v" and "10 \<le> length line" and "take 5 line = str ''SETBI''"
    and "line_words line = [name, key, off, val]"
    and "0 \<le> atol off" and "atol off div 8 \<le> FILE_SIZE_LIMIT"
    and "atol val = 0 \<or> atol val = 1" and "length (cstr key) \<le> 64" and "can_open v (key_hash key)"
  shows "as_thread line (Set_request \<lparr>sb_key = cstr key, sb_offset = atol off, sb_value = atol val\<rparr>) v"
proof -
  let ?cmd = "\<lparr>sb_key = cstr key, sb_offset = atol off, sb_value = atol val\<rparr>"
  let ?old = "of_bool (get_bit (content_or_empty (db v (key_hash key))) (nat (atol off))) :: int"
  obtain i v1 v2 where p: "prepare_file (sb_key ?cmd) 0 v = (0, Some i, v1)" "setbitCommand ?cmd i v1 = (?old, v2)"
    and r: "w_resp (fst (parse_and_execute (new_work line) v)) = dec_int ?old @ [10]"
      "snd (parse_and_execute (new_work line) v) = release_desc (Some i) v2"
    by (rule setbit_shape [OF assms]) simp
  show ?thesis
    using set_leads [OF p] r answer_text_number [of ?old] unfolding as_thread_def by (intro exI [of _ ?old]) simp
qed

lemma get_as_thread:
  assumes "server_ok v" and "10 \<le> length line" and "take 5 line = str ''GETBI''"
    and "line_words line = [name, key, off]"
    and "0 \<le> atol off" and "atol off div 8 \<le> FILE_SIZE_LIMIT"
    and "length (cstr key) \<le> 64" and "can_open v (key_hash key)"
  shows "as_thread line (Get_request \<lparr>gb_key = cstr key, gb_offset = atol off\<rparr>) v"
proof -
  let ?cmd = "\<lparr>gb_key = cstr key, gb_offset = atol off\<rparr>"
  let ?b = "of_bool (get_bit (content_or_empty (db v (key_hash key))) (nat (atol off))) :: int"
  let ?v = "snd (parse_and_execute (new_work line) v)"
  note sh = getbit_shape [OF assms]
  then consider (absent) "prepare_file (cstr key) 1 v = (-2, None, ?v)" "?b = 0"
    | (there) i v1 v2 where "prepare_file (gb_key ?cmd) 1 v = (0, Some i, v1)" "getbitCommand ?cmd i v1 = (?b, v2)"
        "?v = release_desc (Some i) v2" by auto
  then have "leads (Get_request ?cmd) (Queued, v) (Answered ?b, ?v)"
    by cases (use absent_leads(1) get_leads in \<open>simp_all del: One_nat_def\<close>)
  then show ?thesis
    using sh answer_text_number [of ?b] unfolding as_thread_def by (intro exI [of _ ?b]) simp
qed

lemma count_as_thread:
  assumes st: "steady Q v" and line: "10 \<le> length line" "take 5 line = str ''BITCO''"
    and args: "line_words line = name # key # rest" "length rest \<le> 2" and key: "length (cstr key) \<le> 64"
    and can: "can_open v (key_hash key)"
  shows "as_thread line (Count_request (cstr key) (if rest = [] then 0 else atol (rest ! 0))
    (if length rest = 2 then Some (atol (rest ! 1)) else None)) v"
proof -
  let ?c = "content_or_empty (db v (key_hash key))"
  let ?s = "if rest = [] then 0 else atol (rest ! 0)" and ?e = "if length rest = 2 then Some (atol (rest ! 1)) else None"
  define cmd where "cmd = \<lparr>bc_key = cstr key, bc_start = fst (bitcount_args rest (length ?c)),
    bc_end = snd (bitcount_args rest (length ?c))\<rparr>"
  define r where "r = int (bitcount_spec ?c (bc_start cmd) (bc_end cmd))"
  let ?v = "snd (parse_and_execute (new_work line) v)"
  have "length ?c \<le> 2 ^ 31" using steadyD(7) [OF st] by (auto simp: content_or_empty_def split: option.split)
  then have small: "length ?c < 2 ^ 40" by simp
  note sh = bitcount_shape [OF steadyD(1) [OF st] line args key can small, folded cmd_def, folded r_def]
  from sh consider (absent) "prepare_file (cstr key) 1 v = (-2, None, ?v)" "r = 0"
    | (there) i v1 v2 where "prepare_file (cstr key) 1 v = (0, Some i, v1)" "?v = release_desc (Some i) v2"
        "d_length (descs v1 i) = length ?c"
        "if ?c = [] then v2 = v1 \<and> r = 0 else bitcountCommand cmd i v1 = (r, v2)" by blast
  then have "leads (Count_request (cstr key) ?s ?e) (Queued, v) (Answered r, ?v)"
  proof cases
    case absent
    then show ?thesis using absent_leads(2) by metis
  next
    case (there i v1 v2)
    have c: "cmd = \<lparr>bc_key = cstr key, bc_start = ?s,
        bc_end = (case ?e of None \<Rightarrow> int (d_length (descs v1 i)) - 1 | Some e \<Rightarrow> e)\<rparr>"
      by (simp add: cmd_def bitcount_args_def there(3))
    show ?thesis
    proof (cases "?c = []")
      case True
      then have "v2 = v1" "r = 0" using there(4) by simp_all
      then show ?thesis using count_empty_leads [OF there(1)] there(2,3) True by (metis list.size(3))
    next
      case False
      have "bitcountCommand \<lparr>bc_key = cstr key, bc_start = ?s,
          bc_end = (case ?e of None \<Rightarrow> int (d_length (descs v1 i)) - 1 | Some e \<Rightarrow> e)\<rparr> i v1 = (r, v2)"
        using there(4) False c by simp
      moreover have "d_length (descs v1 i) \<noteq> 0" using False there(3) by simp
      ultimately show ?thesis unfolding there(2) using count_leads [OF there(1)] by blast
    qed
  qed
  then show ?thesis
    using sh answer_text_number [of r] r_def unfolding as_thread_def by (intro exI [of _ r]) simp
qed

lemma hook_as_thread:
  assumes st: "steady Q v" and line: "10 \<le> length line" "take 5 line = str ''BITOP''"
    and args: "line_words line = name # opt # dest # srcs" "srcs \<noteq> []" "length srcs \<le> 16"
    and opt: "parse_option opt = Some op" "op = OP_NOT \<Longrightarrow> length srcs = 1"
    and hook: "parse_hook dest = Some hook" "hook \<noteq> NONE"
    and can: "can_open_set v (key_hash ` set srcs) (length srcs)"
  shows "as_thread line (Op_request \<lparr>bo_key = [], bo_count = length srcs, bo_hook = hook, bo_option = op\<rparr> srcs) v"
proof -
  let ?cmd = "\<lparr>bo_key = [], bo_count = length srcs, bo_hook = hook, bo_option = op\<rparr>"
  let ?res = "bitop_result op v srcs" and ?v = "snd (parse_and_execute (new_work line) v)"
  define n where "n = (if hook = COUNTOP then int (popcount_list ?res) else to_int32 (int (length ?res)))"
  obtain dts v1 v2 where f: "prepare_files srcs v = (0, dts, v1)" "bitopCommand ?cmd None dts v1 = (n, v2)"
    and r: "?v = fold release_desc (None # dts) v2" "w_resp (fst (parse_and_execute (new_work line) v)) = result_line n"
    using bitop_hook_shape [OF steadyD(1) [OF st] line args opt hook can bitop_result_small [OF st]]
    unfolding n_def by blast
  have "worker_step (Op_request ?cmd srcs) Queued v = (Sources None [] srcs, v)" using hook(2) by simp
  moreover have "n \<noteq> -2" by (auto simp: n_def to_int32_length [OF bitop_result_small [OF st]])
  ultimately show ?thesis
    using op_leads [OF f] r answer_text_result [of n] unfolding as_thread_def by (intro exI [of _ n]) simp
qed

lemma store_as_thread:
  assumes st: "steady Q v" and line: "10 \<le> length line" "take 5 line = str ''BITOP''"
    and args: "line_words line = name # opt # dest # srcs" "srcs \<noteq> []" "length srcs \<le> 16"
    and opt: "parse_option opt = Some op" "op = OP_NOT \<Longrightarrow> length srcs = 1"
    and hook: "parse_hook dest = Some NONE" and key: "length (cstr dest) \<le> 64"
    and can: "can_open_set v (insert (key_hash dest) (key_hash ` set srcs)) (Suc (length srcs))"
    and d: "key_hash dest \<in> dest_hashes Q"
  shows "as_thread line (Op_request \<lparr>bo_key = cstr dest, bo_count = length srcs, bo_hook = NONE, bo_option = op\<rparr> srcs) v"
proof -
  let ?cmd = "\<lparr>bo_key = cstr dest, bo_count = length srcs, bo_hook = NONE, bo_option = op\<rparr>"
  let ?res = "bitop_result op v srcs" and ?v = "snd (parse_and_execute (new_work line) v)"
  define n where "n = to_int32 (int (length ?res))"
  have fresh: "XXTABLE v (chain_id (key_hash dest)) \<noteq> None \<or> db v (key_hash dest) = None"
    using st d by (simp add: steady_def)
  obtain i v0 dts v1 v2 where p: "prepare_file (cstr dest) 2 v = (0, Some i, v0)"
    and f: "prepare_files srcs v0 = (0, dts, v1)" "bitopCommand ?cmd (Some i) dts v1 = (n, v2)"
    and r: "?v = fold release_desc (Some i # dts) v2" "w_resp (fst (parse_and_execute (new_work line) v)) = result_line n"
    using bitop_store_shape [OF steadyD(1) [OF st] line args opt hook key can fresh bitop_result_small [OF st]]
    unfolding n_def by blast
  have "worker_step (Op_request ?cmd srcs) Queued v = (Sources (Some i) [] srcs, v0)" using p by simp
  moreover have "n \<noteq> -2" by (auto simp: n_def to_int32_length [OF bitop_result_small [OF st]])
  ultimately show ?thesis
    using op_leads [OF f] r answer_text_result [of n] unfolding as_thread_def by (intro exI [of _ n]) simp
qed

text \<open>Every line that is a request.\<close>

lemma line_as_thread:
  assumes st: "steady {rq} v" and rq: "request_of line = Some rq"
    and can: "can_open_set v (request_hashes rq) (load rq)"
  shows "as_thread line rq v"
  using rq
proof (cases rule: request_lineE)
  case (set_line name key off val)
  note l = set_line
  have "can_open v (key_hash key)" using can_open_member [of v _ 0] can by (simp add: l(8))
  from set_as_thread [OF steadyD(1) [OF st] l(1-7) this] show ?thesis by (simp add: l(8))
next
  case (get_line name key off)
  note l = get_line
  have "can_open v (key_hash key)" using can_open_member [of v _ 0] can by (simp add: l(7))
  from get_as_thread [OF steadyD(1) [OF st] l(1-6) this] show ?thesis by (simp add: l(7))
next
  case (count_line name key rest)
  note l = count_line
  have "can_open v (key_hash key)" using can_open_member [of v _ 0] can by (simp add: l(6))
  from count_as_thread [OF st l(1-5) this] show ?thesis by (simp only: l(6))
next
  case (op_line name opt dest srcs op hook)
  note l = op_line
  show ?thesis
  proof (cases "hook = NONE")
    case True
    have "key_hash dest \<in> dest_hashes {rq}" by (simp add: dest_hashes_def l(10) True)
    have "can_open_set v (insert (key_hash dest) (key_hash ` set srcs)) (Suc (length srcs))" using can True by (simp add: l(10))
    from store_as_thread [OF st l(1-7) l(8) [unfolded True] l(9) [OF True] this \<open>key_hash dest \<in> _\<close>]
    show ?thesis by (simp add: l(10) True)
  next
    case False
    have "can_open_set v (key_hash ` set srcs) (length srcs)"
      by (rule can_open_subset [OF can]) (simp_all add: l(10) False)
    from hook_as_thread [OF st l(1-8) False this] show ?thesis by (simp add: l(10) False)
  qed
qed

section \<open>A client alone\<close>

lemma pool_turns:
  assumes "pooled w0 p" and "n_phase (p_nets p 0) = Working line" and "request_of line = Some rq"
    and "fold (turn [rq]) (replicate m 0) (p_jobs p, p_world p) = (s, w)"
  shows "pooled w0 (p\<lparr>p_jobs := s, p_world := w\<rparr>)"
  using assms
proof (induction m arbitrary: p)
  case 0
  then have e: "p\<lparr>p_jobs := s, p_world := w\<rparr> = p" by auto
  show ?case unfolding e by (rule 0)
next
  case (Suc m)
  obtain st v where e: "worker_step rq (p_jobs p 0) (p_world p) = (st, v)" by fastforce
  let ?p = "p\<lparr>p_jobs := (p_jobs p)(0 := st), p_world := v\<rparr>"
  have "pool_step (Turn 0) p = Some ?p" using Suc.prems(2,3) e by (simp add: pool_step_def)
  then have p: "pooled w0 ?p" by (rule pooled.happens [OF Suc.prems(1)])
  have f: "fold (turn [rq]) (replicate m 0) (p_jobs ?p, p_world ?p) = (s, w)"
    using Suc.prems(4) e by (simp add: turn_def)
  have "pooled w0 (?p\<lparr>p_jobs := s, p_world := w\<rparr>)" by (rule Suc.IH [OF p _ Suc.prems(3) f]) (simp add: Suc.prems(2))
  then show ?case by simp
qed

lemma alone_is_answered:
  assumes as: "as_thread line rq w" and rq: "request_of line = Some rq"
    and l: "10 \<notin> set line" "length line < RBUF_INIT_CAP"
  shows "\<exists>p. pooled w p \<and> p_world p = snd (parse_and_execute (new_work line) w) \<and>
    n_replies (p_nets p 0) = [(line, w_resp (fst (parse_and_execute (new_work line) w)))] \<and>
    c_queued (n_conn (p_nets p 0)) = [line] \<and> (\<forall>k>0. p_nets p k = init_net)"
proof -
  let ?v = "snd (parse_and_execute (new_work line) w)"
  obtain r where r: "w_resp (fst (parse_and_execute (new_work line) w)) = answer_text r"
    and run: "leads rq (Queued, w) (Answered r, ?v)"
    using as by (auto simp: as_thread_def)
  obtain m where turns: "fold (turn [rq]) (replicate m 0) (\<lambda>_. Queued, w) = ((\<lambda>_. Queued)(0 := Answered r), ?v)"
    using leads_turns [where s = "\<lambda>_. Queued", OF run] by blast
  let ?n = "\<lparr>n_conn = new_conn\<lparr>c_busy := True, c_queued := [line]\<rparr>, n_phase = Working line, n_input = line @ [10],
      n_replies = []\<rparr>"
  let ?p1 = "\<lparr>p_nets = (\<lambda>_. init_net)(0 := ?n), p_jobs = (\<lambda>_. Queued), p_world = w\<rparr>"
  have "pool_step (Incoming 0 (Read_data (line @ [10])) True True)
      \<lparr>p_nets = (\<lambda>_. init_net), p_jobs = (\<lambda>_. Queued), p_world = w\<rparr> = Some ?p1"
    using first_line [OF l] by (simp add: pool_step_def set_net_def)
  then have p1: "pooled w ?p1" by (rule pooled.happens [OF pooled.opened])
  let ?p2 = "?p1\<lparr>p_jobs := (\<lambda>_. Queued)(0 := Answered r), p_world := ?v\<rparr>"
  have "fold (turn [rq]) (replicate m 0) (p_jobs ?p1, p_world ?p1) = ((\<lambda>_. Queued)(0 := Answered r), ?v)"
    using turns by simp
  then have p2: "pooled w ?p2" by (rule pool_turns [OF p1 _ rq, rotated]) simp
  let ?m = "?n\<lparr>n_phase := Writing line (answer_text r)\<rparr>"
  let ?p3 = "?p2\<lparr>p_nets := (\<lambda>_. init_net)(0 := ?m), p_jobs := (\<lambda>_. Queued)\<rparr>"
  have "net_step (Work_done True False (answer_text r) True) ?n = Some ?m"
    by (simp add: net_step_def after_work_cb_def answer_text_def new_conn_def)
  then have "pool_step (Finish 0 True True) ?p2 = Some ?p3"
    using rq by (simp add: pool_step_def set_net_def fun_upd_idem)
  then have p3: "pooled w ?p3" by (rule pooled.happens [OF p2])
  obtain c where c: "net_step (Write_done True True) ?m = Some c" "n_replies c = [(line, answer_text r)]"
    "c_queued (n_conn c) = [line]"
    by (simp add: net_step_def on_write_def try_dispatch_next_def new_conn_def find_nl_def next_phase_def Let_def)
  have "pool_step (Sent 0 True True) ?p3 = Some (set_net 0 ?p3 c)" using c(1) by (simp add: pool_step_def)
  then have "pooled w (set_net 0 ?p3 c)" by (rule pooled.happens [OF p3])
  then show ?thesis using c(2,3) r by (intro exI [of _ "set_net 0 ?p3 c"]) (simp add: set_net_def)
qed

section \<open>A concrete run\<close>

definition demo_request :: request where
  "demo_request = Set_request \<lparr>sb_key = str ''a'', sb_offset = 9, sb_value = 0\<rparr>"

lemma demo_request_line: "request_of (str ''SETBIT a 9 0'') = Some demo_request"
proof -
  have "line_words (str ''SETBIT a 9 0'') = [str ''SETBIT'', str ''a'', str ''9'', str ''0'']"
    "command_error (str ''SETBI'') [str ''a'', str ''9'', str ''0''] = None" "cstr (str ''a'') = str ''a''" by code_simp+
  moreover have "take 5 (str ''SETBIT a 9 0'') = str ''SETBI''" "10 \<le> length (str ''SETBIT a 9 0'')" by (simp_all add: str_def)
  ultimately show ?thesis by (simp add: request_of_def parse_request_def demo_request_def demo_atol)
qed

lemma demo_request_steady: "length c \<le> 2 ^ 31 \<Longrightarrow> steady {demo_request} (demo_file k c)"
  by (rule demo_steady) (simp_all add: all_hashes_def dest_hashes_def demo_request_def)

lemma demo_request_open: "can_open_set (demo_file k c) (request_hashes demo_request) (load demo_request)"
  by (rule can_open_subset [OF demo_open_set]) (simp_all add: demo_request_def)

lemma demo_pool:
  assumes "length c \<le> 2 ^ 31"
  shows "\<exists>p. pooled (demo_file k c) p \<and> asked {demo_request} 1 p \<and>
    p_world p = snd (parse_and_execute (new_work (str ''SETBIT a 9 0'')) (demo_file k c)) \<and>
    n_replies (p_nets p 0) =
      [(str ''SETBIT a 9 0'', w_resp (fst (parse_and_execute (new_work (str ''SETBIT a 9 0'')) (demo_file k c))))]"
proof -
  have l: "10 \<notin> set (str ''SETBIT a 9 0'')" "length (str ''SETBIT a 9 0'') < RBUF_INIT_CAP"
    by (simp_all add: str_def RBUF_INIT_CAP_def)
  obtain p where p: "pooled (demo_file k c) p"
    "p_world p = snd (parse_and_execute (new_work (str ''SETBIT a 9 0'')) (demo_file k c))"
    "n_replies (p_nets p 0) =
      [(str ''SETBIT a 9 0'', w_resp (fst (parse_and_execute (new_work (str ''SETBIT a 9 0'')) (demo_file k c))))]"
    "c_queued (n_conn (p_nets p 0)) = [str ''SETBIT a 9 0'']" "\<forall>k>0. p_nets p k = init_net"
    using alone_is_answered [OF line_as_thread [OF demo_request_steady [OF assms] demo_request_line demo_request_open]
        demo_request_line l] by blast
  have "asked {demo_request} 1 p"
    unfolding asked_def
  proof (intro allI ballI)
    fix k l assume "l \<in> set (c_queued (n_conn (p_nets p k)))"
    then show "k < 1 \<and> (harmless l \<or> (\<exists>rq\<in>{demo_request}. request_of l = Some rq))"
      using p(4,5) demo_request_line by (cases "k = 0") (simp_all add: init_net_def new_conn_def)
  qed
  then show ?thesis using p(1-3) by blast
qed

text \<open>The same with a BITOP line that has a destination.\<close>

definition demo_bitop :: request where
  "demo_bitop = Op_request \<lparr>bo_key = str ''c'', bo_count = 2, bo_hook = NONE, bo_option = OP_OR\<rparr> [str ''a'', str ''b'']"

lemma demo_bitop_line: "request_of (str ''BITOP or c a b'') = Some demo_bitop"
proof -
  have "line_words (str ''BITOP or c a b'') = [str ''BITOP'', str ''or'', str ''c'', str ''a'', str ''b'']"
    "command_error (str ''BITOP'') [str ''or'', str ''c'', str ''a'', str ''b''] = None"
    "parse_option (str ''or'') = Some OP_OR" "parse_hook (str ''c'') = Some NONE" "cstr (str ''c'') = str ''c''" by code_simp+
  moreover have "take 5 (str ''BITOP or c a b'') = str ''BITOP''" "10 \<le> length (str ''BITOP or c a b'')" by (simp_all add: str_def)
  moreover have "str ''BITOP'' \<noteq> str ''SETBI''" "str ''BITOP'' \<noteq> str ''GETBI''" "str ''BITOP'' \<noteq> str ''BITCO''"
    by (simp_all add: str_def)
  ultimately show ?thesis by (simp add: request_of_def parse_request_def demo_bitop_def)
qed

lemma demo_bitop_steady: "length c \<le> 2 ^ 31 \<Longrightarrow> steady {demo_bitop} (demo_file (str ''a'') c)"
  by (rule demo_steady) (simp_all add: all_hashes_def dest_hashes_def demo_bitop_def key_hash_a key_hash_c)

lemma demo_bitop_open: "can_open_set (demo_file k c) (request_hashes demo_bitop) (load demo_bitop)"
  by (rule can_open_subset [OF demo_open_set]) (simp_all add: demo_bitop_def)

end
