(* ===== verification/WorkersTwins.thy ===== *)
theory WorkersTwins
  imports WorkersAlone
begin

unbundle bit_operations_syntax

text \<open>
  Two runs in which a thread takes the same turns, among different other threads: its stages and the
  contents of its files agree after every turn. Descriptors may have different numbers in the two runs,
  but belong to the same keys. This theory has the comparison of the table and of SETBIT and GETBIT.
\<close>

section \<open>What a turn leaves alone\<close>

text \<open>The keys whose files a command creates or writes.\<close>

primrec writes :: "request \<Rightarrow> u64 set" where
  "writes (Set_request cmd) = {key_hash (sb_key cmd)}"
| "writes (Get_request cmd) = {}"
| "writes (Count_request key s e) = {}"
| "writes (Op_request cmd srcs) = request_dests (Op_request cmd srcs)"

lemma set_db:
  assumes st: "steady Q w" and q: "Set_request cmd \<in> Q" and g: "good_set cmd"
    and ho: "holds_ok w (Set_request cmd) stg" and e: "setbit_turn cmd stg w = (st', w')"
    and h: "h \<noteq> key_hash (sb_key cmd)"
  shows "db w' h = db w h"
proof (cases stg)
  case Queued
  have "key_hash (sb_key cmd) \<in> all_hashes Q" by (rule all_hashes_mem [OF q]) simp
  then obtain i v where "prepare_file (sb_key cmd) 0 w = (0, Some i, v)" and t: "takes Q w (key_hash (sb_key cmd)) v i"
    using set_acquires [OF st] by blast
  then have "w' = v" using e by (simp add: Queued)
  then show ?thesis using t h by (simp add: takes_def)
next
  case (Holds i)
  have l: "live w i" "d_hash (descs w i) = key_hash (sb_key cmd)" using ho by (simp_all add: Holds holds_ok_def)
  obtain x v where r: "setbit_read cmd i w = (x, v)" "db v = db w" using set_reads [OF st l g] by blast
  then show ?thesis using e by (auto simp: Holds split: sum.splits)
next
  case (Middle i b bv)
  have l: "live w i" "d_hash (descs w i) = key_hash (sb_key cmd)" using ho by (simp_all add: Middle holds_ok_def)
  obtain r v where r: "setbit_write cmd i (b, bv) w = (r, v)"
    "db v = (db w)(key_hash (sb_key cmd) \<mapsto> write_at (view w i) (position_in cmd div 8) [new_bit cmd b])"
    using set_writes [OF st l g] by blast
  then show ?thesis using e h by (auto simp: Middle)
next
  case (Leaving ds r)
  then show ?thesis using leave_step_ok(3) [OF st, of "Set_request cmd" ds r] ho e by simp
qed (use e in auto)

lemma get_db:
  assumes st: "steady Q w" and q: "Get_request cmd \<in> Q" and g: "0 \<le> gb_offset cmd" "gb_offset cmd < 2 ^ 63"
    and ho: "holds_ok w (Get_request cmd) stg" and e: "getbit_turn cmd stg w = (st', w')"
  shows "db w' = db w"
proof (cases stg)
  case Queued
  have "key_hash (gb_key cmd) \<in> all_hashes Q" by (rule all_hashes_mem [OF q]) simp
  from get_acquires [OF st this] obtain r dt v where "prepare_file (gb_key cmd) 1 w = (r, dt, v)" "db v = db w" by blast
  then show ?thesis using e by (auto simp: Queued simp del: One_nat_def)
next
  case (Holds i)
  have l: "live w i" "d_hash (descs w i) = key_hash (gb_key cmd)" using ho by (simp_all add: Holds holds_ok_def)
  obtain r v where r: "getbitCommand cmd i w = (r, v)" "db v = db w" using get_reads [OF st l g] by blast
  then show ?thesis using e by (auto simp: Holds)
next
  case (Leaving ds r)
  then show ?thesis using leave_step_ok(3) [OF st, of "Get_request cmd" ds r] ho e by simp
qed (use e in auto)

lemma worker_step_db:
  assumes "steady Q w" and "rq \<in> Q" and "good_request rq" and "holds_ok w rq st" and "worker_step rq st w = (st', w')"
    and "h \<notin> writes rq"
  shows "db w' h = db w h"
proof (cases rq)
  case (Set_request cmd)
  then show ?thesis using set_db assms by simp
next
  case (Get_request cmd)
  then show ?thesis using get_db assms by simp
next
  case (Count_request key s e)
  then show ?thesis using count_moves assms by (simp add: moves_def)
next
  case (Op_request cmd srcs)
  then show ?thesis using op_moves assms by (simp add: moves_def)
qed

section \<open>Stages of two runs\<close>

text \<open>Descriptors of the same key in the worlds of the two runs.\<close>

definition twin :: "world \<Rightarrow> world \<Rightarrow> nat \<Rightarrow> nat \<Rightarrow> bool" where
  "twin w v i j \<longleftrightarrow> live w i \<and> live v j \<and> d_hash (descs w i) = d_hash (descs v j)"

abbreviation twin_source :: "world \<Rightarrow> world \<Rightarrow> nat source \<Rightarrow> nat source \<Rightarrow> bool" where
  "twin_source w v \<equiv> rel_option (rel_prod (twin w v) (=))"

inductive same_stage :: "world \<Rightarrow> world \<Rightarrow> stage \<Rightarrow> stage \<Rightarrow> bool" for w v where
  queued: "same_stage w v Queued Queued"
| holds: "twin w v i j \<Longrightarrow> same_stage w v (Holds i) (Holds j)"
| middle: "twin w v i j \<Longrightarrow> same_stage w v (Middle i b bv) (Middle j b bv)"
| counting: "twin w v i j \<Longrightarrow> same_stage w v (Counting i remaining off bits) (Counting j remaining off bits)"
| sources: "rel_option (twin w v) d d' \<Longrightarrow> list_all2 (rel_option (twin w v)) dts dts' \<Longrightarrow>
    same_stage w v (Sources d dts keys) (Sources d' dts' keys)"
| block: "rel_option (twin w v) d d' \<Longrightarrow> list_all2 (rel_option (twin w v)) dts dts' \<Longrightarrow>
    list_all2 (twin_source w v) ss ss' \<Longrightarrow>
    same_stage w v (Block d dts m ss offset bits bufs) (Block d' dts' m ss' offset bits bufs)"
| storing: "rel_option (twin w v) d d' \<Longrightarrow> list_all2 (rel_option (twin w v)) dts dts' \<Longrightarrow>
    list_all2 (twin_source w v) ss ss' \<Longrightarrow>
    same_stage w v (Storing d dts m ss offset nxt bits p) (Storing d' dts' m ss' offset nxt bits p)"
| leaving: "list_all2 (twin w v) ds ds' \<Longrightarrow> same_stage w v (Leaving ds r) (Leaving ds' r)"
| answered: "same_stage w v (Answered r) (Answered r)"

inductive_cases same_queuedE: "same_stage w v Queued st"
inductive_cases same_holdsE: "same_stage w v (Holds i) st"
inductive_cases same_middleE: "same_stage w v (Middle i b bv) st"
inductive_cases same_countingE: "same_stage w v (Counting i remaining off bits) st"
inductive_cases same_sourcesE: "same_stage w v (Sources d dts keys) st"
inductive_cases same_blockE: "same_stage w v (Block d dts m ss offset bits bufs) st"
inductive_cases same_storingE: "same_stage w v (Storing d dts m ss offset nxt bits p) st"
inductive_cases same_leavingE: "same_stage w v (Leaving ds r) st"
inductive_cases same_answeredE: "same_stage w v (Answered r) st"

lemma same_stage_mono:
  assumes "same_stage w v st st'" and tw: "\<And>i j. twin w v i j \<Longrightarrow> twin w' v' i j"
  shows "same_stage w' v' st st'"
proof -
  have o: "rel_option (twin w v) d d' \<Longrightarrow> rel_option (twin w' v') d d'" for d d'
    by (erule option.rel_mono_strong) (rule tw)
  have l: "list_all2 (rel_option (twin w v)) dts dts' \<Longrightarrow> list_all2 (rel_option (twin w' v')) dts dts'" for dts dts'
    by (erule list_all2_mono) (rule o)
  have s: "list_all2 (twin_source w v) ss ss' \<Longrightarrow> list_all2 (twin_source w' v') ss ss'" for ss ss'
    by (erule list_all2_mono, erule option.rel_mono_strong, erule prod.rel_mono_strong) (simp_all add: tw)
  have d: "list_all2 (twin w v) ds ds' \<Longrightarrow> list_all2 (twin w' v') ds ds'" for ds ds'
    by (erule list_all2_mono) (rule tw)
  show ?thesis using assms(1) by cases (simp_all add: same_stage.intros tw o l s d)
qed

lemma same_depart: "list_all2 (twin w v) ds ds' \<Longrightarrow> same_stage w v (depart ds r) (depart ds' r)"
  by (cases ds; cases ds') (auto simp: depart_def intro: same_stage.intros)

lemma twin_somes:
  "list_all2 (rel_option (twin w v)) dts dts' \<Longrightarrow> list_all2 (twin w v) (somes dts) (somes dts')"
  by (induction rule: list_all2_induct) (auto elim: option.rel_cases)

section \<open>The same turn in two runs\<close>

definition agree :: "u64 set \<Rightarrow> world \<Rightarrow> world \<Rightarrow> bool" where
  "agree H w v \<longleftrightarrow> (\<forall>h\<in>H. db w h = db v h)"

lemma twin_view:
  assumes "steady Q w" and "steady P v" and "agree H w v" and "twin w v i j" and "d_hash (descs w i) \<in> H"
  shows "view w i = view v j" and "d_length (descs w i) = d_length (descs v j)"
proof -
  have l: "live w i" "live v j" "d_hash (descs w i) = d_hash (descs v j)" using assms(4) by (simp_all add: twin_def)
  have "Some (view w i) = Some (view v j)"
    using db_live [OF l(1)] db_live [OF l(2)] assms(3,5) l(3) by (simp add: agree_def)
  then show "view w i = view v j" by simp
  then show "d_length (descs w i) = d_length (descs v j)"
    using steadyD(4) [OF assms(1) l(1)] steadyD(4) [OF assms(2) l(2)] by (simp add: lengths_def)
qed

text \<open>Both runs make a step that hands its references on as it should.\<close>

lemma twin_kept:
  assumes "rehold Q w w' out inn" and "rehold P v v' out' inn'" and "twin w v i j"
  shows "twin w' v' i j"
  using reholdD(3) [OF assms(1), of i] reholdD(3) [OF assms(2), of j] assms(3) by (simp add: twin_def)

lemma same_kept:
  assumes "rehold Q w w' out inn" and "rehold P v v' out' inn'" and "same_stage w v st st'"
  shows "same_stage w' v' st st'"
  using assms(3) twin_kept [OF assms(1,2)] by (rule same_stage_mono)

lemma twin_taken:
  assumes "takes Q w h w' i" and "takes P v h v' j" and "agree H w v" and "h \<in> H"
  shows "twin w' v' i j" and "agree H w' v'"
  using assms by (auto simp: takes_def twin_def agree_def)

lemma twin_acquires:
  assumes st: "steady Q w" "steady P v" and key: "key_hash key \<in> all_hashes Q" "key_hash key \<in> all_hashes P"
    and ag: "agree H w v" "key_hash key \<in> H"
  shows "(\<exists>i w' j v'. prepare_file key 1 w = (0, Some i, w') \<and> prepare_file key 1 v = (0, Some j, v') \<and>
      rehold Q w w' [] [i] \<and> rehold P v v' [] [j] \<and> twin w' v' i j \<and> agree H w' v') \<or>
    (\<exists>w' v'. prepare_file key 1 w = (-2, None, w') \<and> prepare_file key 1 v = (-2, None, v') \<and>
      rehold Q w w' [] [] \<and> rehold P v v' [] [] \<and> agree H w' v')"
proof (cases "db w (key_hash key)")
  case None
  then have nv: "db v (key_hash key) = None" using ag by (simp add: agree_def)
  have no: "\<not> takes R u (key_hash key) u' i" if "db u' = db u" "db u (key_hash key) = None" for R u u' i
    using that by (auto simp: takes_def fun_eq_iff)
  obtain w' where w': "prepare_file key 1 w = (-2, None, w')" "rehold Q w w' [] []" "db w' = db w"
    using get_acquires [OF st(1) key(1)] no None by blast
  obtain v' where v': "prepare_file key 1 v = (-2, None, v')" "rehold P v v' [] []" "db v' = db v"
    using get_acquires [OF st(2) key(2)] no nv by blast
  have "agree H w' v'" using w'(3) v'(3) ag by (simp add: agree_def)
  then show ?thesis using w'(1,2) v'(1,2) by blast
next
  case (Some c)
  then have sw: "db w (key_hash key) \<noteq> None" by simp
  then have sv: "db v (key_hash key) \<noteq> None" using ag by (simp add: agree_def)
  obtain i w' where w': "prepare_file key 1 w = (0, Some i, w')" "takes Q w (key_hash key) w' i"
    using get_acquires [OF st(1) key(1)] sw by blast
  obtain j v' where v': "prepare_file key 1 v = (0, Some j, v')" "takes P v (key_hash key) v' j"
    using get_acquires [OF st(2) key(2)] sv by blast
  have "rehold Q w w' [] [i]" "rehold P v v' [] [j]" using w'(2) v'(2) by (simp_all add: takes_def)
  then show ?thesis using w'(1) v'(1) twin_taken [OF w'(2) v'(2) ag] by blast
qed

lemma twin_reads:
  assumes st: "steady Q w" "steady P v" and ag: "agree H w v" and tw: "twin w v i j" "d_hash (descs w i) \<in> H"
  shows "\<exists>r bs w' v'. read_from i n (int off) w = (r, bs, w') \<and> read_from j n (int off) v = (r, bs, v') \<and>
    r = length bs \<and> (\<forall>xs ys. rehold Q w w' xs xs \<and> rehold P v v' ys ys) \<and> agree H w' v'"
proof -
  have l: "live w i" "live v j" using tw(1) by (simp_all add: twin_def)
  note view = twin_view(1) [OF st ag tw]
  let ?bs = "take n (drop off (view w i))"
  obtain w' where w': "read_from i n (int off) w = (length ?bs, ?bs, w')"
    using read_keeps [OF st(1) l(1)] by blast
  have kw: "rehold Q w w' xs xs" "db w' = db w" for xs
    using read_keeps [OF st(1) l(1), where n = n and off = off and xs = xs] w' by auto
  obtain v' where v': "read_from j n (int off) v = (length ?bs, ?bs, v')"
    using read_keeps [OF st(2) l(2), where n = n and off = off] view by auto
  have kv: "rehold P v v' ys ys" "db v' = db v" for ys
    using read_keeps [OF st(2) l(2), where n = n and off = off and xs = ys] v' view by auto
  have "agree H w' v'" using kw(2) kv(2) ag by (simp add: agree_def)
  then show ?thesis using w' v' kw(1) kv(1) by blast
qed

lemma twin_writes:
  assumes st: "steady Q w" "steady P v" and ag: "agree H w v" and tw: "twin w v i j" "d_hash (descs w i) \<in> H"
    and bs: "bs \<noteq> []" "off + length bs \<le> 2 ^ 31"
  shows "\<exists>w' v'. write_to i bs (int off) w = (length bs, w') \<and> write_to j bs (int off) v = (length bs, v') \<and>
    (\<forall>xs ys. rehold Q w w' xs xs \<and> rehold P v v' ys ys) \<and> agree H w' v'"
proof -
  have l: "live w i" "live v j" "d_hash (descs v j) = d_hash (descs w i)" using tw(1) by (simp_all add: twin_def)
  note view = twin_view(1) [OF st ag tw]
  let ?c = "write_at (view w i) off bs" and ?h = "d_hash (descs w i)"
  obtain w' where w': "write_to i bs (int off) w = (length bs, w')" using write_keeps [OF st(1) l(1) bs] by blast
  have kw: "rehold Q w w' xs xs" "db w' = (db w)(?h \<mapsto> ?c)" for xs
    using write_keeps [OF st(1) l(1) bs, of xs] w' by auto
  obtain v' where v': "write_to j bs (int off) v = (length bs, v')" using write_keeps [OF st(2) l(2) bs] by blast
  have kv: "rehold P v v' ys ys" "db v' = (db v)(?h \<mapsto> ?c)" for ys
    using write_keeps [OF st(2) l(2) bs, of ys] v' view l(3) by auto
  have "agree H w' v'" using kw(2) kv(2) ag by (simp add: agree_def)
  then show ?thesis using w' v' kw(1) kv(1) by blast
qed

lemma twin_leaves:
  assumes st: "steady Q w" "steady P v" and ag: "agree H w v" and l: "list_all2 (twin w v) ds ds'"
    and ho: "holds_ok w rq (Leaving ds r)" "holds_ok v rq (Leaving ds' r)"
    and e: "leave ds r w = (st1, w')" "leave ds' r v = (st2, v')"
  shows "same_stage w' v' st1 st2 \<and> agree H w' v'"
proof -
  have "st1 = depart (tl ds) r" "st2 = depart (tl ds') r" using e by (simp_all add: leave_def)
  then have k: "rehold Q w w' ds (tl ds)" "rehold P v v' ds' (tl ds')"
    using leave_step_ok(1) [OF st(1) ho(1) e(1)] leave_step_ok(1) [OF st(2) ho(2) e(2)]
    by (simp_all add: step_ok_def)
  have "list_all2 (twin w v) (tl ds) (tl ds')" using l by (cases rule: list.rel_cases) simp_all
  then have "same_stage w v st1 st2" using e by (auto simp: leave_def same_depart)
  then show ?thesis
    using same_kept [OF k] leave_step_ok(3) [OF st(1) ho(1) e(1)] leave_step_ok(3) [OF st(2) ho(2) e(2)] ag
    by (simp add: agree_def)
qed

text \<open>What is known when a thread takes its turn in both runs.\<close>

definition pair_ok :: "request set \<Rightarrow> request set \<Rightarrow> request \<Rightarrow> world \<Rightarrow> world \<Rightarrow> stage \<Rightarrow> stage \<Rightarrow> bool" where
  "pair_ok Q P rq w v st st' \<longleftrightarrow>
     steady Q w \<and> steady P v \<and> rq \<in> Q \<and> rq \<in> P \<and> good_request rq \<and> holds_ok w rq st \<and> holds_ok v rq st' \<and>
     same_stage w v st st' \<and> agree (request_hashes rq) w v \<and> fits rq st"

lemma pairD:
  assumes "pair_ok Q P rq w v st st'"
  shows "steady Q w" "steady P v" "good_request rq" "holds_ok w rq st" "holds_ok v rq st'" "same_stage w v st st'"
    "agree (request_hashes rq) w v" "h \<in> request_hashes rq \<Longrightarrow> h \<in> all_hashes Q" "h \<in> request_hashes rq \<Longrightarrow> h \<in> all_hashes P"
    "h \<in> request_dests rq \<Longrightarrow> h \<in> dest_hashes Q" "h \<in> request_dests rq \<Longrightarrow> h \<in> dest_hashes P" "fits rq st"
  using assms all_hashes_mem dest_hashes_mem unfolding pair_ok_def by auto

definition step_same :: "request \<Rightarrow> world \<Rightarrow> world \<Rightarrow> stage \<Rightarrow> stage \<Rightarrow> bool" where
  "step_same rq w v st st' \<longleftrightarrow>
     (let (s1, w1) = worker_step rq st w; (s2, v1) = worker_step rq st' v
      in same_stage w1 v1 s1 s2 \<and> agree (request_hashes rq) w1 v1)"

lemma step_sameI:
  assumes "worker_step rq st w = (a, w')" and "worker_step rq st' v = (b, v')"
    and "same_stage w' v' a b" and "agree (request_hashes rq) w' v'"
  shows "step_same rq w v st st'"
  using assms by (simp add: step_same_def)

lemma held_hash: "holds_ok w rq st \<Longrightarrow> i \<in> set (held st) \<Longrightarrow> d_hash (descs w i) \<in> request_hashes rq"
  by (simp add: holds_ok_def)

lemma leaving_same:
  assumes p: "pair_ok Q P rq w v (Leaving ds r) (Leaving ds' r)"
  shows "step_same rq w v (Leaving ds r) (Leaving ds' r)"
proof -
  note d = pairD [OF p]
  obtain s1 w1 where e1: "leave ds r w = (s1, w1)" by fastforce
  obtain s2 v1 where e2: "leave ds' r v = (s2, v1)" by fastforce
  have "list_all2 (twin w v) ds ds'" using d(6) by (auto elim: same_leavingE)
  from twin_leaves [OF d(1,2,7) this d(4,5) e1 e2] show ?thesis
    using e1 e2 by (intro step_sameI [where a = s1 and b = s2 and w' = w1 and v' = v1]) (simp_all add: leaving_step)
qed

lemma answered_same:
  "pair_ok Q P rq w v (Answered r) st' \<Longrightarrow> step_same rq w v (Answered r) st'"
  by (rule step_sameI [where a = "Answered r" and b = "Answered r" and w' = w and v' = v])
    (auto simp: answered_step pair_ok_def elim: same_answeredE intro: same_stage.answered)

section \<open>SETBIT and GETBIT in two runs\<close>

lemma set_read_same:
  assumes st: "steady Q w" "steady P v" and ag: "agree H w v" and tw: "twin w v i j" "d_hash (descs w i) \<in> H"
    and g: "good_set cmd"
  shows "\<exists>x w' v'. setbit_read cmd i w = (x, w') \<and> setbit_read cmd j v = (x, v') \<and>
    (\<forall>xs ys. rehold Q w w' xs xs \<and> rehold P v v' ys ys) \<and> agree H w' v'"
proof -
  let ?k = "position_in cmd div 8"
  note pos = position [OF good_set_range(1,2) [OF g], folded position_in_def]
  have len: "d_length (descs w i) = d_length (descs v j)" by (rule twin_view(2) [OF st ag tw])
  show ?thesis
  proof (cases "?k < d_length (descs w i)")
    case True
    obtain r bs w' v' where r: "read_from i 1 (int ?k) w = (r, bs, w')" "read_from j 1 (int ?k) v = (r, bs, v')"
      "\<forall>xs ys. rehold Q w w' xs xs \<and> rehold P v v' ys ys" "agree H w' v'"
      using twin_reads [OF st ag tw] by blast
    let ?x = "if r = 0 then Inl (-1) else Inr (hd bs, hd bs AND push_bit (7 - position_in cmd mod 8) 1)"
    have "setbit_read cmd i w = (?x, w')" "setbit_read cmd j v = (?x, v')"
      using True len r(1,2) by (simp_all add: setbit_read_def pos Let_def)
    then show ?thesis using r(3,4) by blast
  next
    case False
    let ?x = "if sb_value cmd = 0 then Inl 0 else Inr (0, 0)"
    have "setbit_read cmd i w = (?x, w)" "setbit_read cmd j v = (?x, v)"
      using False len by (simp_all add: setbit_read_def pos Let_def)
    then show ?thesis using rehold_refl [OF st(1)] rehold_refl [OF st(2)] ag by blast
  qed
qed

lemma set_same:
  assumes p: "pair_ok Q P (Set_request cmd) w v st st'"
  shows "step_same (Set_request cmd) w v st st'"
proof -
  let ?rq = "Set_request cmd"
  note d = pairD [OF p]
  have g: "good_set cmd" using d(3) by simp
  show ?thesis
  proof (cases st)
    case Queued
    then have st': "st' = Queued" using d(6) by (auto elim: same_queuedE)
    obtain i w' where w': "prepare_file (sb_key cmd) 0 w = (0, Some i, w')" "takes Q w (key_hash (sb_key cmd)) w' i"
      using set_acquires [OF d(1), of "sb_key cmd"] d(8) by auto
    obtain j v' where v': "prepare_file (sb_key cmd) 0 v = (0, Some j, v')" "takes P v (key_hash (sb_key cmd)) v' j"
      using set_acquires [OF d(2), of "sb_key cmd"] d(9) by auto
    show ?thesis unfolding Queued st'
      by (rule step_sameI [where a = "Holds i" and b = "Holds j" and w' = w' and v' = v'])
        (use w' v' twin_taken [OF w'(2) v'(2) d(7)] in \<open>simp_all add: same_stage.holds\<close>)
  next
    case (Holds i)
    then obtain j where j: "st' = Holds j" "twin w v i j" using d(6) by (auto elim: same_holdsE)
    have h: "d_hash (descs w i) \<in> request_hashes ?rq" using held_hash [OF d(4)] by (simp add: Holds)
    obtain x w' v' where x: "setbit_read cmd i w = (x, w')" "setbit_read cmd j v = (x, v')"
      "\<forall>xs ys. rehold Q w w' xs xs \<and> rehold P v v' ys ys" "agree (request_hashes ?rq) w' v'"
      using set_read_same [OF d(1,2,7) j(2) h g] by blast
    have tw: "twin w' v' i j" using x(3) twin_kept j(2) by blast
    show ?thesis unfolding Holds j(1)
    proof (cases x)
      case (Inl r)
      show "step_same ?rq w v (Holds i) (Holds j)"
        by (rule step_sameI [where a = "Leaving [i] r" and b = "Leaving [j] r" and w' = w' and v' = v'])
          (use x Inl tw in \<open>simp_all add: same_stage.leaving\<close>)
    next
      case (Inr bb)
      then obtain b bv where "x = Inr (b, bv)" by (cases bb) simp
      then show "step_same ?rq w v (Holds i) (Holds j)"
        by (intro step_sameI [where a = "Middle i b bv" and b = "Middle j b bv" and w' = w' and v' = v'])
          (use x tw in \<open>simp_all add: same_stage.middle\<close>)
    qed
  next
    case (Middle i b bv)
    then obtain j where j: "st' = Middle j b bv" "twin w v i j" using d(6) by (auto elim: same_middleE)
    let ?k = "position_in cmd div 8"
    have h: "d_hash (descs w i) \<in> request_hashes ?rq" using held_hash [OF d(4)] by (simp add: Middle)
    note pos = position [OF good_set_range(1,2) [OF g], folded position_in_def]
    note nb = new_byte [OF good_set_range(4) [OF g], folded new_bit_def]
    have "?k + length [new_bit cmd b] \<le> 2 ^ 31" using good_set_range(3) [OF g] by simp
    then obtain w' v' where x: "write_to i [new_bit cmd b] (int ?k) w = (1, w')" "write_to j [new_bit cmd b] (int ?k) v = (1, v')"
      "\<forall>xs ys. rehold Q w w' xs xs \<and> rehold P v v' ys ys" "agree (request_hashes ?rq) w' v'"
      using twin_writes [OF d(1,2,7) j(2) h, of "[new_bit cmd b]" ?k] by auto
    have tw: "twin w' v' i j" using x(3) twin_kept j(2) by blast
    have "setbit_write cmd i (b, bv) w = (if bv \<noteq> 0 then 1 else 0, w')"
      "setbit_write cmd j (b, bv) v = (if bv \<noteq> 0 then 1 else 0, v')"
      using x(1,2) by (simp_all add: setbit_write_def pos new_byte [OF good_set_range(4) [OF g]] new_bit_def Let_def)
    then show ?thesis unfolding Middle j(1) using x(4) tw
      by (intro step_sameI [where a = "Leaving [i] (if bv \<noteq> 0 then 1 else 0)" and b = "Leaving [j] (if bv \<noteq> 0 then 1 else 0)"
            and w' = w' and v' = v'])
        (simp_all add: same_stage.leaving)
  next
    case (Leaving ds r)
    then obtain ds' where "st' = Leaving ds' r" using d(6) by (auto elim: same_leavingE)
    then show ?thesis using leaving_same p Leaving by simp
  next
    case (Answered r)
    then show ?thesis using answered_same p by simp
  qed (use d(12) in simp_all)
qed

lemma get_same:
  assumes p: "pair_ok Q P (Get_request cmd) w v st st'"
  shows "step_same (Get_request cmd) w v st st'"
proof -
  let ?rq = "Get_request cmd"
  note d = pairD [OF p]
  have g: "0 \<le> gb_offset cmd" "gb_offset cmd < 2 ^ 63" using d(3) by simp_all
  show ?thesis
  proof (cases st)
    case Queued
    then have st': "st' = Queued" using d(6) by (auto elim: same_queuedE)
    have key: "key_hash (gb_key cmd) \<in> request_hashes ?rq" by simp
    from twin_acquires [OF d(1,2) d(8,9) [OF key] d(7) key] show ?thesis unfolding Queued st'
    proof (elim disjE exE conjE)
      fix i w' j v'
      assume "prepare_file (gb_key cmd) 1 w = (0, Some i, w')" "prepare_file (gb_key cmd) 1 v = (0, Some j, v')"
        "twin w' v' i j" "agree (request_hashes ?rq) w' v'"
      then show "step_same ?rq w v Queued Queued"
        by (intro step_sameI [where a = "Holds i" and b = "Holds j" and w' = w' and v' = v'])
          (simp_all add: same_stage.holds del: One_nat_def)
    next
      fix w' v'
      assume "prepare_file (gb_key cmd) 1 w = (-2, None, w')" "prepare_file (gb_key cmd) 1 v = (-2, None, v')"
        "agree (request_hashes ?rq) w' v'"
      then show "step_same ?rq w v Queued Queued"
        by (intro step_sameI [where a = "Answered 0" and b = "Answered 0" and w' = w' and v' = v'])
          (simp_all add: same_stage.answered del: One_nat_def)
    qed
  next
    case (Holds i)
    then obtain j where j: "st' = Holds j" "twin w v i j" using d(6) by (auto elim: same_holdsE)
    have l: "live w i" "live v j" "d_hash (descs w i) = key_hash (gb_key cmd)" "d_hash (descs v j) = key_hash (gb_key cmd)"
      using j(2) held_hash [OF d(4)] by (auto simp: twin_def Holds)
    let ?r = "of_bool (cell_bit w (key_hash (gb_key cmd)) (nat (gb_offset cmd))) :: int"
    have eq: "cell_bit v (key_hash (gb_key cmd)) p = cell_bit w (key_hash (gb_key cmd)) p" for p
      using d(7) by (simp add: agree_def cell_bit_def)
    obtain w' where w': "getbitCommand cmd i w = (?r, w')" using get_reads [OF d(1) l(1,3) g] by blast
    have kw: "rehold Q w w' xs xs" "db w' = db w" for xs using get_reads [OF d(1) l(1,3) g, of xs] w' by auto
    obtain v' where v': "getbitCommand cmd j v = (?r, v')" using get_reads [OF d(2) l(2,4) g] eq by auto
    have kv: "rehold P v v' xs xs" "db v' = db v" for xs using get_reads [OF d(2) l(2,4) g, of xs] v' by auto
    have "twin w' v' i j" by (rule twin_kept [OF kw(1) kv(1) j(2)])
    then show ?thesis unfolding Holds j(1) using w' v' kw(2) kv(2) d(7)
      by (intro step_sameI [where a = "Leaving [i] ?r" and b = "Leaving [j] ?r" and w' = w' and v' = v'])
        (simp_all add: same_stage.leaving agree_def)
  next
    case (Leaving ds r)
    then obtain ds' where "st' = Leaving ds' r" using d(6) by (auto elim: same_leavingE)
    then show ?thesis using leaving_same p Leaving by simp
  next
    case (Answered r)
    then show ?thesis using answered_same p by simp
  qed (use d(12) in simp_all)
qed

end
