(* ===== verification/WorkersIsolated.thy ===== *)
theory WorkersIsolated
  imports WorkersTwins
begin

text \<open>
  BITCOUNT and BITOP take the same turn in two runs, too. So a thread whose files no other thread
  writes is answered as if it were alone.
\<close>

section \<open>BITCOUNT in two runs\<close>

definition start_stage :: "bitcount_cmd \<Rightarrow> nat \<Rightarrow> nat \<Rightarrow> stage" where
  "start_stage cmd len i =
     (let s = clamp_start len (bc_start cmd); e = clamp_end len (bc_end cmd)
      in if bc_start cmd < 0 \<and> bc_end cmd < 0 \<and> bc_end cmd < bc_start cmd \<or> e < s then Leaving [i] 0
         else Counting i (nat (e - s + 1)) (nat s) 0)"

lemma bitcount_start_stage:
  assumes "steady Q w"
  shows "bitcount_start cmd i w = (start_stage cmd (d_length (descs w i)) i, w)"
proof -
  have "faults w = []" using steadyD(3) [OF assms] by (simp add: table_wf_def)
  then show ?thesis by (simp add: bitcount_start_def start_stage_def alloc_ok_def take_fault_def Let_def)
qed

lemma same_start: "twin w v i j \<Longrightarrow> same_stage w v (start_stage cmd len i) (start_stage cmd len j)"
  by (simp add: start_stage_def Let_def same_stage.intros)

lemma count_same:
  assumes p: "pair_ok Q P (Count_request key s e) w v st st'"
  shows "step_same (Count_request key s e) w v st st'"
proof -
  let ?rq = "Count_request key s e"
  note d = pairD [OF p]
  show ?thesis
  proof (cases st)
    case Queued
    then have st': "st' = Queued" using d(6) by (auto elim: same_queuedE)
    have key: "key_hash key \<in> request_hashes ?rq" by simp
    from twin_acquires [OF d(1,2) d(8,9) [OF key] d(7) key] show ?thesis unfolding Queued st'
    proof (elim disjE exE conjE)
      fix i w' j v'
      assume "prepare_file key 1 w = (0, Some i, w')" "prepare_file key 1 v = (0, Some j, v')"
        "twin w' v' i j" "agree (request_hashes ?rq) w' v'"
      then show "step_same ?rq w v Queued Queued"
        by (intro step_sameI [where a = "Holds i" and b = "Holds j" and w' = w' and v' = v'])
          (simp_all add: same_stage.holds del: One_nat_def)
    next
      fix w' v'
      assume "prepare_file key 1 w = (-2, None, w')" "prepare_file key 1 v = (-2, None, v')"
        "agree (request_hashes ?rq) w' v'"
      then show "step_same ?rq w v Queued Queued"
        by (intro step_sameI [where a = "Answered 0" and b = "Answered 0" and w' = w' and v' = v'])
          (simp_all add: same_stage.answered del: One_nat_def)
    qed
  next
    case (Holds i)
    then obtain j where j: "st' = Holds j" "twin w v i j" using d(6) by (auto elim: same_holdsE)
    have h: "d_hash (descs w i) \<in> request_hashes ?rq" using held_hash [OF d(4)] by (simp add: Holds)
    define len where "len = d_length (descs w i)"
    have len: "d_length (descs w i) = len" "d_length (descs v j) = len"
      using twin_view(2) [OF d(1,2,7) j(2) h] by (simp_all add: len_def)
    let ?cmd = "\<lparr>bc_key = key, bc_start = s, bc_end = (case e of None \<Rightarrow> int len - 1 | Some e \<Rightarrow> e)\<rparr>"
    let ?st = "\<lambda>i. if len = 0 then Leaving [i] 0 else start_stage ?cmd len i"
    have "worker_step ?rq (Holds i) w = (?st i, w)" "worker_step ?rq (Holds j) v = (?st j, v)"
      using bitcount_start_stage [OF d(1), of ?cmd i] bitcount_start_stage [OF d(2), of ?cmd j] by (simp_all add: len)
    moreover have "same_stage w v (?st i) (?st j)" using j(2) by (simp add: same_start same_stage.leaving)
    ultimately show ?thesis unfolding Holds j(1) using d(7) by (rule step_sameI)
  next
    case (Counting i remaining off bits)
    then obtain j where j: "st' = Counting j remaining off bits" "twin w v i j" using d(6) by (auto elim: same_countingE)
    have h: "d_hash (descs w i) \<in> request_hashes ?rq" using held_hash [OF d(4)] by (simp add: Counting)
    have wf: "off + remaining \<le> 2 ^ 31" using d(4) by (simp add: Counting holds_ok_def)
    show ?thesis
    proof (cases "0 < remaining")
      case True
      let ?n = "if remaining < FILE_BUFFER_SIZE then remaining else FILE_BUFFER_SIZE"
      have o: "to_off off = int off" using wf by (intro to_off_id) simp
      obtain r bs w' v' where rd: "read_from i ?n (int off) w = (r, bs, w')" "read_from j ?n (int off) v = (r, bs, v')"
        "\<forall>xs ys. rehold Q w w' xs xs \<and> rehold P v v' ys ys" "agree (request_hashes ?rq) w' v'"
        using twin_reads [OF d(1,2,7) j(2) h] by blast
      have tw: "twin w' v' i j" using rd(3) twin_kept j(2) by blast
      let ?st = "\<lambda>i. if r = 0 then Leaving [i] (sint bits)
        else Counting i (remaining - r) (off + r) (bits + redisPopcount bs r)"
      have "worker_step ?rq (Counting i remaining off bits) w = (?st i, w')"
        "worker_step ?rq (Counting j remaining off bits) v = (?st j, v')"
        using rd(1,2) True by (simp_all add: o Let_def)
      moreover have "same_stage w' v' (?st i) (?st j)" using tw by (simp add: same_stage.leaving same_stage.counting)
      ultimately show ?thesis unfolding Counting j(1) using rd(4) by (rule step_sameI)
    next
      case False
      then show ?thesis unfolding Counting j(1) using j(2) d(7)
        by (intro step_sameI [where a = "Leaving [i] (sint bits)" and b = "Leaving [j] (sint bits)" and w' = w and v' = v])
          (simp_all add: same_stage.leaving)
    qed
  next
    case (Leaving ds r)
    then obtain ds' where "st' = Leaving ds' r" using d(6) by (auto elim: same_leavingE)
    then show ?thesis using leaving_same p Leaving by simp
  next
    case (Answered r)
    then show ?thesis using answered_same p by simp
  qed (use d(12) in simp_all)
qed

section \<open>BITOP in two runs\<close>

lemma find_max_same:
  "list_all2 (rel_option (\<lambda>i j. f i = g j)) dts dts' \<Longrightarrow> find_max f k dts m = find_max g k dts' m"
proof (induction dts dts' arbitrary: k m rule: list_all2_induct)
  case (Cons x xs y ys)
  obtain a b where m: "m = (a, b)" by (cases m)
  show ?case using Cons by (cases x; cases y) (auto simp: m)
qed simp

lemma twin_lengths:
  assumes st: "steady Q w" "steady P v" and ag: "agree H w v"
    and l: "list_all2 (rel_option (twin w v)) dts dts'" and h: "\<And>i. Some i \<in> set dts \<Longrightarrow> d_hash (descs w i) \<in> H"
  shows "list_all2 (rel_option (\<lambda>i j. d_length (descs w i) = d_length (descs v j))) dts dts'"
    and "list_all2 (twin_source w v) (map (source_of (\<lambda>i. d_length (descs w i))) dts)
      (map (source_of (\<lambda>i. d_length (descs v i))) dts')"
proof -
  have n: "rel_option (\<lambda>i j. twin w v i j \<and> d_length (descs w i) = d_length (descs v j)) x y"
    if "x \<in> set dts" "rel_option (twin w v) x y" for x y
    using that(2)
  proof (cases rule: option.rel_cases)
    case (Some i j)
    then show ?thesis using twin_view(2) [OF st ag] h that(1) by simp
  qed simp
  have all: "list_all2 (rel_option (\<lambda>i j. twin w v i j \<and> d_length (descs w i) = d_length (descs v j))) dts dts'"
    using l n by (auto simp: list_all2_conv_all_nth)
  show "list_all2 (rel_option (\<lambda>i j. d_length (descs w i) = d_length (descs v j))) dts dts'"
    using all by (rule list_all2_mono) (auto elim: option.rel_mono_strong)
  show "list_all2 (twin_source w v) (map (source_of (\<lambda>i. d_length (descs w i))) dts)
      (map (source_of (\<lambda>i. d_length (descs v i))) dts')"
    unfolding list_all2_map1 list_all2_map2 using all
    by (rule list_all2_mono) (auto simp: source_of_def elim!: option.rel_cases)
qed

lemma twin_blocks:
  assumes "list_all2 (twin_source w v) ss ss'" and "m < length ss"
  shows "blocks_left ss m = blocks_left ss' m" and "last_left ss m = last_left ss' m" and "length ss = length ss'"
proof -
  have r: "twin_source w v (ss ! m) (ss' ! m)" and l: "length ss = length ss'"
    using assms by (auto simp: list_all2_conv_all_nth)
  show "length ss = length ss'" by (rule l)
  from r show "blocks_left ss m = blocks_left ss' m" "last_left ss m = last_left ss' m"
    using assms(2) l by (cases rule: option.rel_cases; auto simp: blocks_left.simps)+
qed

lemma op_queued_same:
  assumes p: "pair_ok Q P (Op_request cmd srcs) w v Queued Queued"
  shows "step_same (Op_request cmd srcs) w v Queued Queued"
proof -
  note d = pairD [OF p]
  show ?thesis
  proof (cases "bo_hook cmd = NONE")
    case True
    obtain i w' where w': "prepare_file (bo_key cmd) 2 w = (0, Some i, w')" "takes Q w (key_hash (bo_key cmd)) w' i"
      using dest_acquires [OF d(1), of "bo_key cmd"] d(10) True by auto
    obtain j v' where v': "prepare_file (bo_key cmd) 2 v = (0, Some j, v')" "takes P v (key_hash (bo_key cmd)) v' j"
      using dest_acquires [OF d(2), of "bo_key cmd"] d(11) True by auto
    have "key_hash (bo_key cmd) \<in> request_hashes (Op_request cmd srcs)" using True by simp
    note tw = twin_taken [OF w'(2) v'(2) d(7) this]
    then show ?thesis using w'(1) v'(1) True
      by (intro step_sameI [where a = "Sources (Some i) [] srcs" and b = "Sources (Some j) [] srcs" and w' = w' and v' = v'])
        (simp_all add: same_stage.sources)
  next
    case False
    then show ?thesis using d(7)
      by (intro step_sameI [where a = "Sources None [] srcs" and b = "Sources None [] srcs" and w' = w and v' = v])
        (simp_all add: same_stage.sources)
  qed
qed

lemma op_source_same:
  assumes p: "pair_ok Q P (Op_request cmd srcs) w v (Sources d dts keys) (Sources d' dts' keys)" and keys: "keys \<noteq> []"
  shows "step_same (Op_request cmd srcs) w v (Sources d dts keys) (Sources d' dts' keys)"
proof -
  let ?rq = "Op_request cmd srcs"
  note f = pairD [OF p]
  have "last keys \<in> set srcs" using f(4) keys by (auto simp: holds_ok_def)
  then have key: "key_hash (last keys) \<in> request_hashes ?rq" by simp
  have rel: "rel_option (twin w' v') d d'" "list_all2 (rel_option (twin w' v')) dts dts'"
    if "rehold Q w w' out inn" "rehold P v v' out' inn'" for w' v' out inn out' inn'
    using same_kept [OF that f(6)] by (auto elim: same_sourcesE)
  from twin_acquires [OF f(1,2) f(8,9) [OF key] f(7) key] show ?thesis
  proof (elim disjE exE conjE)
    fix i w' j v'
    assume "prepare_file (last keys) 1 w = (0, Some i, w')" "prepare_file (last keys) 1 v = (0, Some j, v')"
      "twin w' v' i j" "agree (request_hashes ?rq) w' v'" and k: "rehold Q w w' [] [i]" "rehold P v v' [] [j]"
    then show ?thesis using rel [OF k] keys
      by (intro step_sameI [where a = "Sources d (Some i # dts) (butlast keys)" and w' = w' and v' = v'
            and b = "Sources d' (Some j # dts') (butlast keys)"])
        (simp_all add: same_stage.sources del: One_nat_def)
  next
    fix w' v'
    assume "prepare_file (last keys) 1 w = (-2, None, w')" "prepare_file (last keys) 1 v = (-2, None, v')"
      "agree (request_hashes ?rq) w' v'" and k: "rehold Q w w' [] []" "rehold P v v' [] []"
    then show ?thesis using rel [OF k] keys
      by (intro step_sameI [where a = "Sources d (None # dts) (butlast keys)" and w' = w' and v' = v'
            and b = "Sources d' (None # dts') (butlast keys)"])
        (simp_all add: same_stage.sources del: One_nat_def)
  qed
qed

lemma op_starts_same:
  assumes p: "pair_ok Q P (Op_request cmd srcs) w v (Sources d dts []) (Sources d' dts' [])"
  shows "step_same (Op_request cmd srcs) w v (Sources d dts []) (Sources d' dts' [])"
proof -
  let ?rq = "Op_request cmd srcs"
  let ?fw = "\<lambda>i. d_length (descs w i)" and ?fv = "\<lambda>i. d_length (descs v i)"
  note f = pairD [OF p]
  have rel: "rel_option (twin w v) d d'" "list_all2 (rel_option (twin w v)) dts dts'"
    using f(6) by (auto elim: same_sourcesE)
  have h: "d_hash (descs w i) \<in> request_hashes ?rq" if "Some i \<in> set dts" for i
    by (rule held_hash [OF f(4)]) (use that in \<open>auto simp: set_somes split: option.split\<close>)
  note tl = twin_lengths [OF f(1,2,7) rel(2) h]
  obtain m ml where fm: "find_max ?fw 0 dts (0, 0) = (m, ml)" by fastforce
  then have fm': "find_max ?fv 0 dts' (0, 0) = (m, ml)" using find_max_same [OF tl(1)] by simp
  let ?a = "if ml = 0 then depart (somes (d # dts)) 0 else Block d dts m (map (source_of ?fw) dts) 0 0 []"
  let ?b = "if ml = 0 then depart (somes (d' # dts')) 0 else Block d' dts' m (map (source_of ?fv) dts') 0 0 []"
  have "worker_step ?rq (Sources d dts []) w = (?a, w)" "worker_step ?rq (Sources d' dts' []) v = (?b, v)"
    using fm fm' op_malloc_done [OF f(1)] op_malloc_done [OF f(2)] by (simp_all add: bitop_start_def)
  moreover have "list_all2 (twin w v) (somes (d # dts)) (somes (d' # dts'))" by (rule twin_somes) (simp add: rel)
  then have "same_stage w v ?a ?b" using same_depart same_stage.block [OF rel tl(2)] by auto
  ultimately show ?thesis using f(7) by (rule step_sameI)
qed

lemma op_reads_same:
  assumes p: "pair_ok Q P (Op_request cmd srcs) w v (Block d dts m ss offset bits bufs) (Block d' dts' m ss' offset bits bufs)"
    and more: "\<not> (bufs = [] \<and> blocks_left ss m = 0)" and k: "length bufs < length ss"
  shows "step_same (Op_request cmd srcs) w v (Block d dts m ss offset bits bufs) (Block d' dts' m ss' offset bits bufs)"
proof -
  let ?rq = "Op_request cmd srcs" and ?k = "length bufs"
  note f = pairD [OF p]
  have rel: "rel_option (twin w v) d d'" "list_all2 (rel_option (twin w v)) dts dts'" "list_all2 (twin_source w v) ss ss'"
    using f(6) by (auto elim: same_blockE)
  have wf: "m < length ss" "reads_held dts ss" "at_block ss m (blocks_left ss m + of_bool (m < ?k)) offset"
    "bufs \<noteq> [] \<longrightarrow> m < ?k \<or> blocks_left ss m \<noteq> 0"
    using f(4) by (simp_all add: holds_ok_def)
  note tb = twin_blocks [OF rel(3) wf(1)]
  have more': "\<not> (bufs = [] \<and> blocks_left ss' m = 0)" and k': "?k < length ss'" using more k tb(1,3) by auto
  note step = worker_step.simps(4) bitop_turn.simps(3)
  let ?empty = "\<lambda>d dts ss. Block d dts m ss offset bits (bufs @ [pad_block []])"
  have empty: "step_same ?rq w v (Block d dts m ss offset bits bufs) (Block d' dts' m ss' offset bits bufs)"
    if "bitop_turn cmd srcs (Block d dts m ss offset bits bufs) w = (?empty d dts ss, w)"
      "bitop_turn cmd srcs (Block d' dts' m ss' offset bits bufs) v = (?empty d' dts' ss', v)"
    using that f(7) same_stage.block [OF rel]
    by (intro step_sameI [where a = "?empty d dts ss" and b = "?empty d' dts' ss'" and w' = w and v' = v]) simp_all
  have "twin_source w v (ss ! ?k) (ss' ! ?k)" using rel(3) k by (auto simp: list_all2_conv_all_nth)
  then show ?thesis
  proof (cases rule: option.rel_cases)
    case None
    then show ?thesis
      by (intro empty; unfold bitop_turn.simps if_not_P [OF more] if_not_P [OF more'] if_P [OF k] if_P [OF k']) simp_all
  next
    case (Some x y)
    obtain i t r where x: "x = (i, t, r)" by (cases x) auto
    obtain j where y: "y = (j, t, r)" "twin w v i j" using Some(3) x by (cases y) auto
    show ?thesis
    proof (cases "t = 0")
      case True
      then show ?thesis using Some(1,2) x y(1)
        by (intro empty; unfold bitop_turn.simps if_not_P [OF more] if_not_P [OF more'] if_P [OF k] if_P [OF k']) simp_all
    next
      case False
      let ?n = "if t = 1 then r else FILE_BUFFER_SIZE"
      have "Some (i, t, r) \<in> set ss" using Some(1) x k by (metis nth_mem)
      then have "Some i \<in> set dts" using wf(2) by (auto simp: reads_held_def)
      then have h: "d_hash (descs w i) \<in> request_hashes ?rq"
        by (intro held_hash [OF f(4)]) (auto simp: set_somes split: option.split)
      have "0 < blocks_left ss m + of_bool (m < ?k)" using wf(4) more by auto
      then obtain off where off: "offset = int off" using wf(3) by (auto simp: at_block_def)
      obtain n bs w' v' where rd: "read_from i ?n offset w = (n, bs, w')" "read_from j ?n offset v = (n, bs, v')"
        "\<forall>xs ys. rehold Q w w' xs xs \<and> rehold P v v' ys ys" "agree (request_hashes ?rq) w' v'"
        using twin_reads [OF f(1,2,7) y(2) h] unfolding off by blast
      let ?a = "Block d dts m (ss[?k := Some (i, t - 1, r)]) offset bits (bufs @ [pad_block bs])"
      let ?b = "Block d' dts' m (ss'[?k := Some (j, t - 1, r)]) offset bits (bufs @ [pad_block bs])"
      have "worker_step ?rq (Block d dts m ss offset bits bufs) w = (?a, w')"
        unfolding step if_not_P [OF more] if_P [OF k] using Some(1) x False rd(1) by simp
      moreover have "worker_step ?rq (Block d' dts' m ss' offset bits bufs) v = (?b, v')"
        unfolding step if_not_P [OF more'] if_P [OF k'] using Some(2) y(1) False rd(2) by simp
      moreover have "same_stage w' v' ?a ?b"
      proof -
        have "list_all2 (twin_source w v) (ss[?k := Some (i, t - 1, r)]) (ss'[?k := Some (j, t - 1, r)])"
          using rel(3) y(2) by (simp add: list_all2_update_cong)
        then have "same_stage w v ?a ?b" by (rule same_stage.block [OF rel(1,2)])
        then show ?thesis using rd(3) same_kept by blast
      qed
      ultimately show ?thesis using rd(4) by (rule step_sameI)
    qed
  qed
qed

lemma op_block_same:
  assumes p: "pair_ok Q P (Op_request cmd srcs) w v (Block d dts m ss offset bits bufs) (Block d' dts' m ss' offset bits bufs)"
  shows "step_same (Op_request cmd srcs) w v (Block d dts m ss offset bits bufs) (Block d' dts' m ss' offset bits bufs)"
proof -
  let ?rq = "Op_request cmd srcs"
  note f = pairD [OF p]
  have rel: "rel_option (twin w v) d d'" "list_all2 (rel_option (twin w v)) dts dts'" "list_all2 (twin_source w v) ss ss'"
    using f(6) by (auto elim: same_blockE)
  have m: "m < length ss" using f(4) by (simp add: holds_ok_def)
  note tb = twin_blocks [OF rel(3) m]
  consider (stop) "bufs = []" "blocks_left ss m = 0" | (read) "\<not> (bufs = [] \<and> blocks_left ss m = 0)" "length bufs < length ss"
    | (combine) "\<not> (bufs = [] \<and> blocks_left ss m = 0)" "\<not> length bufs < length ss"
    by (cases "bufs = [] \<and> blocks_left ss m = 0"; cases "length bufs < length ss") auto
  then show ?thesis
  proof cases
    case stop
    let ?r = "if bo_hook cmd = COUNTOP then sint bits else offset"
    have "list_all2 (twin w v) (somes (d # dts)) (somes (d' # dts'))" by (rule twin_somes) (simp add: rel)
    then show ?thesis using stop tb(1) f(7)
      by (intro step_sameI [where a = "depart (somes (d # dts)) ?r" and b = "depart (somes (d' # dts')) ?r" and w' = w and v' = v])
        (simp_all add: same_depart del: somes.simps)
  next
    case read
    then show ?thesis by (rule op_reads_same [OF p])
  next
    case combine
    define sz where "sz = (if blocks_left ss m \<noteq> 0 then FILE_BUFFER_SIZE else last_left ss m)"
    let ?p0 = "combine (bo_option cmd) bufs sz" and ?next = "to_int32 (offset + int sz)"
    let ?st = "\<lambda>d dts ss. case bo_hook cmd of
        NONE \<Rightarrow> Storing d dts m ss offset ?next bits (take sz ?p0)
      | COUNTOP \<Rightarrow> Block d dts m ss ?next (bits + redisPopcount ?p0 sz) []
      | GETOP \<Rightarrow> Block d dts m ss ?next bits []"
    have combine': "\<not> (bufs = [] \<and> blocks_left ss' m = 0)" "\<not> length bufs < length ss'" using combine tb(1,3) by auto
    have sz': "sz = (if blocks_left ss' m \<noteq> 0 then FILE_BUFFER_SIZE else last_left ss' m)"
      unfolding sz_def tb(1,2) by (rule refl)
    note step = worker_step.simps(4) bitop_turn.simps(3)
    have "worker_step ?rq (Block d dts m ss offset bits bufs) w = (?st d dts ss, w)"
      unfolding step if_not_P [OF combine(1)] if_not_P [OF combine(2)] Let_def sz_def [symmetric] by (rule refl)
    moreover have "worker_step ?rq (Block d' dts' m ss' offset bits bufs) v = (?st d' dts' ss', v)"
      unfolding step if_not_P [OF combine'(1)] if_not_P [OF combine'(2)] Let_def sz' [symmetric] by (rule refl)
    moreover have "same_stage w v (?st d dts ss) (?st d' dts' ss')"
      using rel by (simp add: same_stage.storing same_stage.block split: OP_HOOKS.split)
    ultimately show ?thesis using f(7) by (rule step_sameI)
  qed
qed

lemma op_stores_same:
  assumes p: "pair_ok Q P (Op_request cmd srcs) w v (Storing d dts m ss offset nxt bits b) (Storing d' dts' m ss' offset nxt bits b)"
  shows "step_same (Op_request cmd srcs) w v (Storing d dts m ss offset nxt bits b) (Storing d' dts' m ss' offset nxt bits b)"
proof -
  let ?rq = "Op_request cmd srcs"
  note f = pairD [OF p]
  have rel: "rel_option (twin w v) d d'" "list_all2 (rel_option (twin w v)) dts dts'" "list_all2 (twin_source w v) ss ss'"
    using f(6) by (auto elim: same_storingE)
  obtain i where i: "d = Some i" using f(4) by (auto simp: holds_ok_def dest_ok_def)
  then obtain j where j: "d' = Some j" "twin w v i j" using rel(1) by (auto elim: option.rel_cases)
  obtain k where k: "offset = int k" "k + length b \<le> 2 ^ 31" "b \<noteq> []" using f(4) by (auto simp: holds_ok_def)
  have h: "d_hash (descs w i) \<in> request_hashes ?rq" by (rule held_hash [OF f(4)]) (simp add: i)
  obtain w' v' where wr: "write_to i b offset w = (length b, w')" "write_to j b offset v = (length b, v')"
    "\<forall>xs ys. rehold Q w w' xs xs \<and> rehold P v v' ys ys" "agree (request_hashes ?rq) w' v'"
    using twin_writes [OF f(1,2,7) j(2) h k(3,2)] unfolding k(1) by blast
  let ?a = "Block d dts m ss nxt bits []" and ?b = "Block d' dts' m ss' nxt bits []"
  have "worker_step ?rq (Storing d dts m ss offset nxt bits b) w = (?a, w')"
    "worker_step ?rq (Storing d' dts' m ss' offset nxt bits b) v = (?b, v')"
    using wr(1,2) k(3) by (simp_all add: i j(1))
  moreover have "same_stage w' v' ?a ?b" using same_stage.block [OF rel] wr(3) same_kept by blast
  ultimately show ?thesis using wr(4) by (rule step_sameI)
qed

lemma op_same:
  assumes p: "pair_ok Q P (Op_request cmd srcs) w v st st'"
  shows "step_same (Op_request cmd srcs) w v st st'"
proof -
  note f = pairD [OF p]
  show ?thesis
  proof (cases st)
    case Queued
    then have "st' = Queued" using f(6) by (auto elim: same_queuedE)
    then show ?thesis using op_queued_same p Queued by simp
  next
    case (Sources d dts keys)
    then obtain d' dts' where "st' = Sources d' dts' keys" using f(6) by (auto elim: same_sourcesE)
    then show ?thesis using op_source_same op_starts_same p Sources by (cases "keys = []") auto
  next
    case (Block d dts m ss offset bits bufs)
    then obtain d' dts' ss' where "st' = Block d' dts' m ss' offset bits bufs" using f(6) by (auto elim: same_blockE)
    then show ?thesis using op_block_same p Block by simp
  next
    case (Storing d dts m ss offset nxt bits b)
    then obtain d' dts' ss' where "st' = Storing d' dts' m ss' offset nxt bits b" using f(6) by (auto elim: same_storingE)
    then show ?thesis using op_stores_same p Storing by simp
  next
    case (Leaving ds r)
    then obtain ds' where "st' = Leaving ds' r" using f(6) by (auto elim: same_leavingE)
    then show ?thesis using leaving_same p Leaving by simp
  next
    case (Answered r)
    then show ?thesis using answered_same p by simp
  qed (use f(12) in simp_all)
qed

lemma worker_same: "pair_ok Q P rq w v st st' \<Longrightarrow> step_same rq w v st st'"
  by (cases rq) (simp_all add: set_same get_same count_same op_same)

section \<open>A thread among others and the same thread alone\<close>

text \<open>No other thread writes to a file of thread \<open>t\<close>.\<close>

definition undisturbed :: "request list \<Rightarrow> nat \<Rightarrow> bool" where
  "undisturbed rs t \<longleftrightarrow> (\<forall>u<length rs. u \<noteq> t \<longrightarrow> writes (rs ! u) \<inter> request_hashes (rs ! t) = {})"

lemma steady_subset: "steady Q w \<Longrightarrow> P \<subseteq> Q \<Longrightarrow> steady P w"
proof -
  assume st: "steady Q w" and P: "P \<subseteq> Q"
  have sub: "all_hashes P \<subseteq> all_hashes Q" "dest_hashes P \<subseteq> dest_hashes Q"
    using P unfolding all_hashes_def dest_hashes_def by blast+
  have "\<forall>h\<in>dest_hashes P. XXTABLE w (chain_id h) \<noteq> None \<or> db w h = None"
    by (rule ballI, drule subsetD [OF sub(2)]) (use st in \<open>simp add: steady_def\<close>)
  then show "steady P w"
    using steadyD(1,7) [OF st] room_subset [OF steadyD(2) [OF st] sub(1)] unfolding steady_def by metis
qed

lemma going_start: "steady (set rs) w \<Longrightarrow> going rs w (\<lambda>_. Queued, w)"
  by (simp add: going_def refs_ok_start)

lemma going_run:
  assumes "steady (set rs) w" and "\<forall>rq\<in>set rs. good_request rq" and "t < length rs"
  shows "going rs w (run_schedule rs sched w)"
  using schedule_progress [OF going_start [OF assms(1)] assms(2,3)] by (simp add: run_schedule_def)

lemma pair_okI:
  assumes "going rs w0 (s, w)" and "going [rq] v0 (s', v)" and "t < length rs" and "rs ! t = rq" and "good_request rq"
    and "same_stage w v (s t) (s' 0)" and "agree (request_hashes rq) w v"
  shows "pair_ok (set rs) {rq} rq w v (s t) (s' 0)"
  using assms nth_mem [OF assms(3)] unfolding going_def refs_ok_def pair_ok_def by auto

lemma isolated_pair:
  assumes st: "steady (set rs) w" "steady {rs ! t} w" and good: "\<forall>rq\<in>set rs. good_request rq" and t: "t < length rs"
    and un: "undisturbed rs t"
  defines "rq \<equiv> rs ! t"
  shows "case run_schedule rs sched w of (s, v) \<Rightarrow>
    case run_schedule [rq] (replicate (count_list sched t) 0) w of (s', v') \<Rightarrow>
      same_stage v v' (s t) (s' 0) \<and> agree (request_hashes rq) v v'"
proof (induction sched rule: rev_induct)
  case Nil
  show ?case by (simp add: run_schedule_def same_stage.queued agree_def)
next
  case (snoc u sched)
  let ?n = "count_list sched t"
  have g: "good_request rq" using good t by (simp add: rq_def)
  obtain s v where c: "run_schedule rs sched w = (s, v)" by fastforce
  obtain s' v' where c': "run_schedule [rq] (replicate ?n 0) w = (s', v')" by fastforce
  have go: "going rs w (s, v)" using going_run [OF st(1) good t, of sched] c by simp
  have go': "going [rq] w (s', v')" using going_run [of "[rq]" w 0 "replicate ?n 0"] st(2) g c' by (simp add: rq_def)
  have same: "same_stage v v' (s t) (s' 0)" and ag: "agree (request_hashes rq) v v'" using snoc c c' by simp_all
  have run: "run_schedule rs (sched @ [u]) w = turn rs u (s, v)" using c by (simp add: run_schedule_def)
  show ?case
  proof (cases "u = t")
    case True
    have n: "count_list (sched @ [u]) t = Suc ?n" by (simp add: True)
    have "replicate (Suc ?n) (0::nat) = replicate ?n 0 @ [0]" by (simp add: replicate_append_same)
    then have run': "run_schedule [rq] (replicate (Suc ?n) 0) w = turn [rq] 0 (s', v')"
      using c' by (simp add: run_schedule_def del: replicate.simps fold_replicate)
    have "step_same rq v v' (s t) (s' 0)"
      by (rule worker_same [OF pair_okI [OF go go' t _ g same ag]]) (simp add: rq_def)
    then show ?thesis
      unfolding run n run' by (auto simp: turn_def True t rq_def step_same_def split: prod.splits)
  next
    case False
    have n: "count_list (sched @ [u]) t = ?n" using False by simp
    show ?thesis
    proof (cases "u < length rs")
      case True
      obtain st1 w1 where e: "worker_step (rs ! u) (s u) v = (st1, w1)" by fastforce
      have q: "rs ! u \<in> set rs" using True by simp
      have gu: "good_request (rs ! u)" using good q by blast
      have sv: "steady (set rs) v" "holds_ok v (rs ! u) (s u)" "steady {rq} v'"
        using go go' True by (simp_all add: going_def refs_ok_def)
      have "step_ok (set rs) (rs ! u) (s u) v st1 w1" by (rule worker_step_ok [OF sv(1) q gu sv(2) e])
      then have re: "rehold (set rs) v w1 (held (s u)) (held st1)" by (simp add: step_ok_def)
      have "same_stage w1 v' (s t) (s' 0)" by (rule same_kept [OF re rehold_refl [OF sv(3), of "[]"] same])
      moreover have "db w1 h = db v h" if "h \<in> request_hashes rq" for h
        by (rule worker_step_db [OF sv(1) q gu sv(2) e]) (use un True False that in \<open>auto simp: undisturbed_def rq_def\<close>)
      then have "agree (request_hashes rq) w1 v'" using ag by (simp add: agree_def)
      ultimately show ?thesis unfolding run n c' using True False e by (simp add: turn_def)
    qed (unfold run n c', use same ag in \<open>simp add: turn_def\<close>)
  qed
qed

lemma isolated_answer:
  assumes st: "steady (set rs) w" "steady {rs ! t} w" and good: "\<forall>rq\<in>set rs. good_request rq" and t: "t < length rs"
    and un: "undisturbed rs t" and turns: "max_turns (rs ! t) \<le> count_list sched t"
    and lead: "leads (rs ! t) (Queued, w) (Answered r, v')"
  shows "fst (run_schedule rs sched w) t = Answered r"
    and "agree (request_hashes (rs ! t)) (snd (run_schedule rs sched w)) v'"
proof -
  let ?rq = "rs ! t" and ?n = "count_list sched t"
  have g: "good_request ?rq" using good t by simp
  have "run_schedule [?rq] (replicate ?n 0) w = ((\<lambda>_. Queued)(0 := Answered r), v')"
    by (rule leads_answer [OF lead st(2) g turns])
  then have p: "same_stage (snd (run_schedule rs sched w)) v' (fst (run_schedule rs sched w) t) (Answered r)"
    "agree (request_hashes ?rq) (snd (run_schedule rs sched w)) v'"
    using isolated_pair [OF st good t un, of sched] by (simp_all add: split_def)
  from p(1) show "fst (run_schedule rs sched w) t = Answered r" by cases
  show "agree (request_hashes ?rq) (snd (run_schedule rs sched w)) v'" by (rule p(2))
qed

end
