(* ===== verification/Daemon.thy ===== *)
theory Daemon
  imports Startup
begin

text \<open>
  From the settings to the running server: \<open>daemonize\<close> and \<open>write_pid\<close> of \<open>helper.c\<close>, \<open>run_server\<close> of
  \<open>net.c\<close>, and \<open>main\<close> as a whole. The results of \<open>fork\<close>, \<open>open\<close>, \<open>uv_tcp_bind\<close> and \<open>uv_listen\<close> are
  parameters. The lemmas show what is true of a server that reaches its event loop. \<open>time2string\<close>,
  which formats times for the log, is here too.
\<close>

section \<open>Becoming a daemon\<close>

text \<open>The process as \<open>daemonize\<close> changes it: what its descriptors refer to, and its mask.\<close>

record process =
  p_fds :: "int \<Rightarrow> byte list option"
  p_umask :: nat

datatype 'a outcome = Exited int | Undefined | Goes_on 'a

text \<open>\<open>fopen(path, "w")\<close>.\<close>

definition create_file :: "byte list \<Rightarrow> 'a io_scheme \<Rightarrow> FILE option \<times> 'a io_scheme" where
  "create_file p s =
     (let (f, s) = take_fault s
      in if f \<noteq> None then (None, s)
         else case fs s p of
                Some (Reg acc c) \<Rightarrow>
                  if acc then (Some (new_stream p), s\<lparr>fs := (fs s)(p := Some (Reg True []))\<rparr>) else (None, s)
              | Some (Dir acc) \<Rightarrow> (None, s)
              | None \<Rightarrow>
                  if fs s (dirname p) = Some (Dir True)
                  then (Some (new_stream p), s\<lparr>fs := (fs s)(p := Some (Reg True []))\<rparr>)
                  else (None, s))"

text \<open>Without the option \<open>-p\<close> the path is a null pointer, on which \<open>fopen\<close> is undefined.\<close>

definition write_pid :: "server_t \<Rightarrow> int \<Rightarrow> 'a io_scheme \<Rightarrow> 'a io_scheme outcome" where
  "write_pid sv pid s =
     (case sv_pid sv of
        None \<Rightarrow> Undefined
      | Some path \<Rightarrow>
          (let (fd, s) = create_file path s
           in case fd of
                None \<Rightarrow> Goes_on s
              | Some f \<Rightarrow> (let (r, f, s) = fwrite f (dec_int pid @ [10]) s in Goes_on (fclose f s))))"

text \<open>\<open>dup2(fd, k)\<close> and \<open>close(fd)\<close>.\<close>

definition dup2 :: "int \<Rightarrow> int \<Rightarrow> process \<Rightarrow> process" where
  "dup2 fd k pr = pr\<lparr>p_fds := (p_fds pr)(k := p_fds pr fd)\<rparr>"

definition close_fd :: "int \<Rightarrow> process \<Rightarrow> process" where
  "close_fd fd pr = pr\<lparr>p_fds := (p_fds pr)(fd := None)\<rparr>"

text \<open>\<open>forked\<close> is the result of \<open>fork\<close>, \<open>fd\<close> that of \<open>open("/dev/null", O_RDWR, 0)\<close>.\<close>

definition daemonize ::
    "int \<Rightarrow> int \<Rightarrow> int \<Rightarrow> server_t \<Rightarrow> process \<Rightarrow> 'a io_scheme \<Rightarrow> (process \<times> 'a io_scheme) outcome" where
  "daemonize forked fd pid sv pr s =
     (if forked \<noteq> 0 then Exited 0
      else let pr = pr\<lparr>p_umask := 0\<rparr>;
               pr = (if fd \<noteq> -1
                     then let pr = pr\<lparr>p_fds := (p_fds pr)(fd := Some (str ''/dev/null''))\<rparr>;
                              pr = dup2 fd 0 pr; pr = dup2 fd 1 pr; pr = dup2 fd 2 pr
                          in if 2 < fd then close_fd fd pr else pr
                     else pr)
           in case write_pid sv pid s of
                Exited r \<Rightarrow> Exited r
              | Undefined \<Rightarrow> Undefined
              | Goes_on s \<Rightarrow> Goes_on (pr, s))"

section \<open>The whole of \<open>main\<close>\<close>

definition run_server :: "int \<Rightarrow> int \<Rightarrow> int" where
  "run_server bind_result listen_result =
     (if bind_result \<noteq> 0 then bind_result
      else if listen_result \<noteq> 0 then listen_result
      else 0)"

text \<open>What the system answers while the server starts.\<close>

record system =
  sys_inet_addr :: "byte list \<Rightarrow> u32"
  sys_nprocs :: nat
  sys_fork :: int
  sys_null :: int
  sys_pid :: int
  sys_bind :: int
  sys_listen :: int

text \<open>\<open>main\<close> up to the event loop: the settings, the process and the file module it runs with.\<close>

definition start_main ::
    "system \<Rightarrow> (byte \<times> byte list) list \<Rightarrow> process \<Rightarrow> world \<Rightarrow> (server_t \<times> process \<times> world) outcome" where
  "start_main sys opts pr w =
     (case configure (sys_inet_addr sys) (sys_nprocs sys) w opts of
        None \<Rightarrow> Exited (-1)
      | Some sv \<Rightarrow>
          (case daemonize (sys_fork sys) (sys_null sys) (sys_pid sys) sv pr (w\<lparr>srv_dir := the (sv_dir sv)\<rparr>) of
             Exited r \<Rightarrow> Exited r
           | Undefined \<Rightarrow> Undefined
           | Goes_on (pr, w) \<Rightarrow>
               (let w = start_files w
                in if run_server (sys_bind sys) (sys_listen sys) \<noteq> 0 then Exited (-1) else Goes_on (sv, pr, w))))"

section \<open>Times in the log\<close>

record tm =
  tm_year :: nat
  tm_mon :: nat
  tm_mday :: nat
  tm_hour :: nat
  tm_min :: nat
  tm_sec :: nat

text \<open>Two digits, and \<open>strftime\<close> with the format \<open>%Y-%m-%d %H:%M:%S\<close>; years count from 1900.\<close>

definition two_digits :: "nat \<Rightarrow> byte list" where
  "two_digits n = (if n < 10 then 48 # dec_nat n else dec_nat n)"

definition format_time :: "tm \<Rightarrow> byte list" where
  "format_time t =
     dec_nat (tm_year t + 1900) @ [45] @ two_digits (tm_mon t + 1) @ [45] @ two_digits (tm_mday t) @ [32] @
     two_digits (tm_hour t) @ [58] @ two_digits (tm_min t) @ [58] @ two_digits (tm_sec t)"

text \<open>\<open>None\<close> when the text does not fit, which leaves the buffer unspecified. \<open>localtime\<close> is a parameter.\<close>

definition time2string :: "(nat \<Rightarrow> tm) \<Rightarrow> byte list \<Rightarrow> u64 \<Rightarrow> byte list option" where
  "time2string localtime buf us =
     (let sec = unat us div 1000000; text = format_time (localtime sec)
      in if length text + 1 \<le> 20 then Some (write_at buf 0 (text @ [0])) else None)"

section \<open>What daemonising leaves\<close>

lemma write_pid_file:
  assumes "faults s = []" and "sv_pid sv = Some p" and "write_pid sv pid s = Goes_on s'"
  shows "s' = s \<or> s' = s\<lparr>fs := (fs s)(p \<mapsto> Reg True (dec_int pid @ [10]))\<rparr>"
proof -
  let ?t = "dec_int pid @ [10]"
  have w: "fclose (fst (snd (fwrite (new_stream p) ?t v))) (snd (snd (fwrite (new_stream p) ?t v))) =
      v\<lparr>fs := (fs v)(p \<mapsto> Reg True ?t)\<rparr>"
    if v: "fs v p = Some (Reg True [])" "faults v = []" for v :: "'a io_scheme"
    using v by (simp add: fwrite_def fclose_def fflush_def new_stream_def stream_view_def put_content_def
        file_content_def write_at_def)
  let ?v = "s\<lparr>fs := (fs s)(p \<mapsto> Reg True [])\<rparr>"
  have e: "fclose (fst (snd (fwrite (new_stream p) ?t ?v))) (snd (snd (fwrite (new_stream p) ?t ?v))) =
      s\<lparr>fs := (fs s)(p \<mapsto> Reg True ?t)\<rparr>"
    using w [of ?v] assms(1) by simp
  show ?thesis
    using assms e
    by (auto simp: write_pid_def create_file_def Let_def split_def split: option.splits fnode.splits if_splits)
qed

text \<open>The first three descriptors refer to \<open>/dev/null\<close> and nothing else is open in their place.\<close>

lemma daemonize_fds:
  assumes "daemonize forked fd pid sv pr s = Goes_on (pr', s')" and "fd \<noteq> -1" and "0 \<le> fd"
  shows "k \<in> {0, 1, 2} \<Longrightarrow> p_fds pr' k = Some (str ''/dev/null'')"
    and "k \<notin> {0, 1, 2, fd} \<Longrightarrow> p_fds pr' k = p_fds pr k"
    and "2 < fd \<Longrightarrow> p_fds pr' fd = None" and "p_umask pr' = 0" and "forked = 0"
  using assms by (auto simp: daemonize_def dup2_def close_fd_def Let_def split: outcome.splits if_splits)

lemma daemonize_pid:
  assumes "daemonize forked fd pid sv pr s = Goes_on (pr', s')"
  shows "write_pid sv pid s = Goes_on s'"
  using assms by (auto simp: daemonize_def Let_def split: outcome.splits if_splits)

section \<open>A server that runs\<close>

text \<open>The file of the process id is not in the data directory.\<close>

definition outside :: "byte list \<Rightarrow> byte list \<Rightarrow> bool" where
  "outside d p \<longleftrightarrow> p \<noteq> d \<and> take (length d + 1) p \<noteq> d @ [47]"

lemma outside_paths:
  assumes "outside d p"
  shows "p \<noteq> d" and "p \<noteq> level1 d h" and "p \<noteq> level2 d h" and "p \<noteq> path_of d h"
  using assms by (auto simp: outside_def path_of_def level2_def level1_def)

lemma outside_file:
  assumes "fs_ready w" and "outside (srv_dir w) p"
  shows "fs_ready (w\<lparr>fs := (fs w)(p \<mapsto> Reg True c)\<rparr>)"
    and "disk (w\<lparr>fs := (fs w)(p \<mapsto> Reg True c)\<rparr>) = disk w"
proof -
  note o = outside_paths [OF assms(2)]
  let ?w = "w\<lparr>fs := (fs w)(p \<mapsto> Reg True c)\<rparr>"
  have "dirs_ready ?w" using assms(1) o(1-3) by (auto simp: fs_ready_def dirs_ready_def)
  moreover have "fs ?w (path_of (srv_dir w) h) = None \<or> is_file ?w (path_of (srv_dir w) h)" for h
    using assms(1) o(4) [of h] by (auto simp: fs_ready_def is_file_def)
  ultimately show "fs_ready ?w" by (simp add: fs_ready_def)
  show "disk ?w = disk w" using o(4) by (auto simp: disk_def fun_eq_iff)
qed

lemma write_pid_world:
  assumes "fs_ready w" and "faults w = []" and "sv_pid sv = Some p" and "outside (srv_dir w) p"
    and "write_pid sv pid w = Goes_on w'"
  shows "fs_ready w' \<and> disk w' = disk w \<and> faults w' = [] \<and> idx w' = idx w \<and> crashed w' = crashed w \<and>
    srv_dir w' = srv_dir w"
  using write_pid_file [OF assms(2,3,5)] outside_file [OF assms(1,4)] assms(1,2) by auto

lemma start_main_runs:
  assumes run: "start_main sys opts pr w = Goes_on (sv, pr', v)"
    and w: "faults w = []" "idx w = 0" "\<not> crashed w"
    and ready: "\<And>d. sv_dir sv = Some d \<Longrightarrow> fs_ready (w\<lparr>srv_dir := d\<rparr>)"
    and out: "\<And>d p. sv_dir sv = Some d \<Longrightarrow> sv_pid sv = Some p \<Longrightarrow> outside d p"
  shows "\<exists>d. sv_dir sv = Some d \<and> server_ok v \<and> db v = disk (w\<lparr>srv_dir := d\<rparr>) \<and> srv_dir v = d"
    and "\<exists>p. sv_pid sv = Some p"
    and "configure (sys_inet_addr sys) (sys_nprocs sys) w opts = Some sv"
    and "sys_fork sys = 0" and "sys_bind sys = 0" and "sys_listen sys = 0"
proof -
  show c: "configure (sys_inet_addr sys) (sys_nprocs sys) w opts = Some sv"
    using run by (auto simp: start_main_def Let_def split: option.splits outcome.splits if_splits prod.splits)
  obtain d where d: "sv_dir sv = Some d" using configure_ok(2) [OF c] by blast
  let ?w = "w\<lparr>srv_dir := d\<rparr>"
  obtain w1 where dm: "daemonize (sys_fork sys) (sys_null sys) (sys_pid sys) sv pr ?w = Goes_on (pr', w1)"
    and v: "v = start_files w1" and srv: "run_server (sys_bind sys) (sys_listen sys) = 0"
    using run c d by (auto simp: start_main_def Let_def split: outcome.splits if_splits prod.splits)
  show "sys_fork sys = 0" using dm by (auto simp: daemonize_def split: if_splits)
  show "sys_bind sys = 0" "sys_listen sys = 0" using srv by (auto simp: run_server_def split: if_splits)
  note wp = daemonize_pid [OF dm]
  show pid: "\<exists>p. sv_pid sv = Some p" using wp by (auto simp: write_pid_def split: option.splits)
  then obtain p where p: "sv_pid sv = Some p" by blast
  have "fs_ready w1 \<and> disk w1 = disk ?w \<and> faults w1 = [] \<and> idx w1 = 0 \<and> \<not> crashed w1 \<and> srv_dir w1 = d"
    using write_pid_world [OF ready [OF d] _ p _ wp] out [OF d p] w by simp
  then show "\<exists>d. sv_dir sv = Some d \<and> server_ok v \<and> db v = disk (w\<lparr>srv_dir := d\<rparr>) \<and> srv_dir v = d"
    using start_files_ok [of w1] d by (auto simp: v fun_eq_iff start_files_def init_file_def)
qed

section \<open>Without a file for the process id\<close>

lemma apply_options_no_pid:
  assumes "\<forall>x\<in>set opts. [fst x] \<noteq> str ''p''" and "apply_options inet io opts sv = Some sv'"
  shows "sv_pid sv' = sv_pid sv"
proof -
  have one: "sv_pid sv' = sv_pid sv" if "apply_option inet io x sv = Some sv'" "[fst x] \<noteq> str ''p''" for x sv sv'
    using that by (cases x) (auto simp: apply_option_def Let_def split_def split: if_splits)
  show ?thesis using assms
  proof (induction opts arbitrary: sv)
    case (Cons x opts)
    then obtain sv1 where "apply_option inet io x sv = Some sv1" "apply_options inet io opts sv1 = Some sv'"
      by (auto split: option.splits)
    then show ?case using Cons one [of x sv sv1] by simp
  qed simp
qed

lemma start_without_pid:
  assumes "configure (sys_inet_addr sys) (sys_nprocs sys) w opts = Some sv"
    and "\<forall>x\<in>set opts. [fst x] \<noteq> str ''p''" and "sys_fork sys = 0"
  shows "start_main sys opts pr w = Undefined"
proof -
  let ?d = "default_server (sys_inet_addr sys) (sys_nprocs sys)"
  have "apply_options (sys_inet_addr sys) w opts ?d = Some sv"
    using assms(1) by (auto simp: configure_def split: option.splits if_splits)
  from apply_options_no_pid [OF assms(2) this] have "sv_pid sv = None" by (simp add: default_server_def)
  then show ?thesis using assms(1,3) by (simp add: start_main_def daemonize_def write_pid_def)
qed

text \<open>The file of the process id can be read back.\<close>

lemma atol_line:
  assumes "0 \<le> v" and "v \<le> LONG_MAX"
  shows "atol (dec_int v @ [10]) = v"
proof -
  obtain b t where bt: "dec_nat (nat v) = b # t" by (cases "dec_nat (nat v)") auto
  then have d: "isdigit b" using dec_nat_digits [of b "nat v"] by simp
  have c: "cstr (dec_int v @ [10]) = dec_int v @ [10]"
    using dec_int_no_nul by (intro cstr_id) fastforce
  have "takeWhile isdigit (dec_nat (nat v) @ [10]) = dec_nat (nat v)"
    using dec_nat_digits by (subst takeWhile_append2) (auto simp: isdigit_def)
  then have "takeWhile isdigit (b # t @ [10]) = b # t" by (simp only: bt append_Cons)
  then show ?thesis using assms c bt digit_plain [OF d] digits_value_dec_nat [of "nat v"]
    by (simp add: atol_def strtol10_def dec_int_def clamp_long_id LONG_MIN_def)
qed

lemma daemonize_pid_file:
  assumes "faults s = []" and "sv_pid sv = Some p" and "0 \<le> pid" and "pid < 2 ^ 31"
    and "(\<exists>c. fs s p = Some (Reg True c)) \<or> fs s p = None \<and> fs s (dirname p) = Some (Dir True)"
  shows "\<exists>pr' s' c. daemonize 0 fd pid sv pr s = Goes_on (pr', s') \<and> fs s' p = Some (Reg True c) \<and> atoi c = pid"
proof -
  let ?t = "dec_int pid @ [10]"
  have "write_pid sv pid s = Goes_on (s\<lparr>fs := (fs s)(p \<mapsto> Reg True ?t)\<rparr>)"
    using assms(1,2,5)
    by (auto simp: write_pid_def create_file_def fwrite_def fclose_def fflush_def new_stream_def stream_view_def
        put_content_def file_content_def write_at_def Let_def split: prod.splits)
  moreover have "atoi ?t = pid" using atol_line [of pid] assms(3,4) by (simp add: atoi_atol to_int32_id LONG_MAX_def)
  ultimately show ?thesis by (auto simp: daemonize_def Let_def)
qed

section \<open>Times fit\<close>

lemma length_two_digits: "n < 100 \<Longrightarrow> length (two_digits n) \<le> 2"
  using length_dec_nat [of n 2] by (auto simp: two_digits_def dec_nat.simps)

lemma time_fits:
  assumes "tm_year t + 1900 < 10000" and "tm_mon t < 12" and "tm_mday t \<le> 31" and "tm_hour t < 24"
    and "tm_min t < 60" and "tm_sec t \<le> 60"
  shows "length (format_time t) \<le> 19"
proof -
  have "length (dec_nat (tm_year t + 1900)) \<le> 4" by (rule length_dec_nat) (use assms in simp_all)
  moreover have "length (two_digits (tm_mon t + 1)) \<le> 2" "length (two_digits (tm_mday t)) \<le> 2"
    "length (two_digits (tm_hour t)) \<le> 2" "length (two_digits (tm_min t)) \<le> 2" "length (two_digits (tm_sec t)) \<le> 2"
    by (rule length_two_digits; use assms in simp)+
  ultimately show ?thesis by (simp add: format_time_def)
qed

lemma time2string_fits:
  assumes "length (format_time (localtime (unat us div 1000000))) \<le> 19" and "length buf = 20"
  shows "\<exists>b. time2string localtime buf us = Some b \<and> length b = 20 \<and>
    cstr b = format_time (localtime (unat us div 1000000))"
proof -
  let ?t = "format_time (localtime (unat us div 1000000))"
  have d: "0 \<notin> set (dec_nat n)" for n using dec_nat_digits [of 0 n] by (auto simp: isdigit_def)
  have "0 \<notin> set ?t" using d by (simp add: format_time_def two_digits_def)
  then have "cstr (?t @ 0 # r) = ?t" for r unfolding cstr_def by (subst takeWhile_append2) auto
  then have "cstr (write_at buf 0 (?t @ [0])) = ?t" by (simp add: write_at_def)
  then show ?thesis using assms by (simp add: time2string_def Let_def)
qed

end
