(* ===== verification/Spec2Isabelle.thy ===== *)
theory Spec2Isabelle
  imports XXHAgree XXHCanonical PoolRun WorkersIsolated Daemon
begin

text \<open>
  Solidbits is a server for bit strings: it keeps one file per key under a data directory and
  executes the commands SETBIT, GETBIT, BITCOUNT and BITOP, one per line, for clients that connect
  over TCP. This development models the server and proves what its commands do.

  \<^bold>\<open>The program and its model.\<close> \<open>main.c\<close> reads the options, initialises the table of open files and
  starts the event loop of libuv. For each connection \<open>net.c\<close> collects the input, cuts it into lines
  and queues one line at a time to a pool of threads. A thread runs \<open>parse_and_execute\<close> of \<open>parser.c\<close>,
  which splits the line, recognises the command by the XXH64 hash of its first five bytes
  (\<open>xxhash.c\<close>), acquires the descriptors of its keys (\<open>file.c\<close>), runs the command on them
  (\<open>bitops.c\<close>), appends its reply to the request and releases the descriptors. The reply is written
  when the thread is done, and then the next line is dispatched.

  \<^item> \<open>Prelude\<close>: bytes, strings and words in memory. \<open>CLib\<close>: \<open>atol\<close>, \<open>atoi\<close>, decimal output,
    \<open>strcasecmp\<close>. \<open>Stdio\<close>: files, directories, buffered streams, the clock, and a list of faults that
    makes any fallible call fail.
  \<^item> \<open>Helper\<close> (\<open>helper.c\<close>): \<open>check_dir\<close>, \<open>check_file\<close>, \<open>gen_path\<close>, \<open>get_us\<close>, \<open>set_addr_port\<close>, \<open>strupr\<close>.
  \<^item> \<open>FileTable\<close> (\<open>file.c\<close>): the descriptors \<open>descs\<close>, the heads of the chains \<open>XXTABLE\<close>, and all
    operations. \<open>TableLinks\<close>: what they keep under any failures. \<open>TableInv\<close>, \<open>TableOpen\<close>: the
    well-formed table and opening on it. \<open>TableLimits\<close>: full table, colliding keys, truncation.
    \<open>Shutdown\<close>: \<open>close_files\<close>.
  \<^item> \<open>ByteStore\<close>: the locale \<open>byte_store\<close>, what the commands need of positioned reads and writes,
    with its interpretation on \<open>read_from\<close> and \<open>write_to\<close>.
  \<^item> \<open>BitOps\<close>, \<open>Popcount\<close>, \<open>BlockOps\<close>, \<open>BitOp\<close>, \<open>BitOpLoop\<close>, \<open>BitOpCommand\<close> (\<open>bitops.c\<close>): the four
    commands on open files. The block loop of BITOP and the loop of BITCOUNT are verified on any
    \<open>byte_store\<close>; the word-at-a-time part of BITOP on any \<open>bytewise\<close> operator, of which AND, OR, XOR
    and NOT are interpretations. \<open>Interleave\<close>: SETBIT in its two locked halves, run by many threads on
    one open file.
  \<^item> \<open>Reply\<close>, \<open>Net\<close> (\<open>net.c\<close>): the response buffer, the callbacks of a connection, and the step
    function of the events that libuv can deliver. \<open>Service\<close>: a connection with its commands executed.
  \<^item> \<open>Parser\<close>, \<open>ParserSplit\<close>, \<open>Rejects\<close> (\<open>parser.c\<close>): the handlers, the tokeniser, the error replies.
  \<^item> \<open>Session\<close>, \<open>Server\<close>, \<open>BitopLine\<close>, \<open>BitopServe\<close>, \<open>BitopLimits\<close>, \<open>Sequences\<close>, \<open>Progress\<close>: a command
    from its line to its reply, several commands in a row, and that all of them end.
  \<^item> \<open>Workers\<close>: the thread pool. Each thread has a command and takes turns from one lock operation to
    the next; a schedule is the list of whose turn it is, and the table of open files is shared.
    \<open>WorkersTable\<close>, \<open>WorkersSteps\<close>, \<open>WorkersOps\<close>, \<open>WorkersRefs\<close>: what a turn does to the table and to the
    reference counts. \<open>WorkersBits\<close>, \<open>WorkersInv\<close>: what it does to bits. \<open>WorkersTurns\<close>: how many turns a
    thread needs. \<open>WorkersRun\<close>: whole schedules. \<open>WorkersAlone\<close>: the turns of a thread alone are the
    function of \<open>bitops.c\<close>. \<open>WorkersTwins\<close>, \<open>WorkersIsolated\<close>: a thread whose files no other thread
    writes takes the same turns as alone.
  \<^item> \<open>Pool\<close>, \<open>PoolInv\<close>, \<open>PoolRun\<close>: the whole server: all connections of \<open>Net\<close>, the thread of each, and
    the shared table, with the events of the network and the turns of the threads in any order.
  \<^item> \<open>XXHMem\<close>, \<open>XXHash64\<close>, \<open>StripeStream\<close>, \<open>XXHStream64\<close> (\<open>xxhash.c\<close>): reads in both byte orders, the
    64-bit hash, its streaming form as an interpretation of the locale \<open>stripe_stream\<close>. \<open>XXHash32\<close>,
    \<open>XXHStream32\<close>, \<open>XXHCanonical\<close>: the same for the 32-bit hash, and the canonical forms of both.
    \<open>XXHSpec\<close>: both functions as their published specification has them, independent of the code, with
    published values. \<open>XXHAgree\<close>: the code computes them.
  \<^item> \<open>Startup\<close> (\<open>main.c\<close>): options, initialisation, SIGTERM. \<open>Daemon\<close>: \<open>daemonize\<close>, \<open>write_pid\<close> and
    \<open>time2string\<close> of \<open>helper.c\<close>, \<open>run_server\<close> of \<open>net.c\<close>, and \<open>main\<close> up to its event loop.
    \<open>Examples\<close>: concrete states.

  \<^bold>\<open>State.\<close> \<open>world\<close> is the file system and the globals of \<open>file.c\<close>; a descriptor pointer is an index
  into \<open>descs\<close>. A stream keeps written data to itself until it is used again, flushed or closed.
  \<open>conn_t\<close> and \<open>work_req\<close> are the structs of \<open>net.h\<close>. The abstract state is the data base \<open>db\<close>: for
  each key hash the content a client sees, in the open stream or in the file on disk.

  \<^bold>\<open>What is shown.\<close> C1 to C6 refine the commands to operations on \<open>db\<close>: replies, new contents, and
  that the invariant \<open>server_ok\<close> and the reference counts are kept. C7 to C11 are about a connection in
  all its reachable states. C12 to C17 are about the parser and the replies, C18 to C22 about hashing
  and counting, C23 to C30 about the table of open files and the disk, C31 to C36 about threads and
  the whole server, C37 and C38 about paths, C39 and C40 about starting. C11, C14, C24, C26, C27, C28,
  C30, C36 and C40 describe what the code does where it does not do what a client would expect. The last
  section has further facts: the bits of a BITOP result, number output, ports, settings, the size of
  contents, buffered writes, the combination of a block, unknown commands, opening beside open files,
  and threads with a fixed list of commands.

  \<^bold>\<open>Bounds and hypotheses.\<close> C1 to C6 hold without failing calls and when the keys can be opened
  (\<open>can_open\<close>): the hash of the key is not 0, its chain is empty or headed by that key, and a slot is
  free. C12 holds whatever fails. Contents are bounded where the C types need it: 2^40 bytes for
  BITCOUNT, 2^31 for the \<open>int\<close> offset of BITOP (C14 is about the one larger size that can occur).
  This overflow of a signed type is undefined in C; the model wraps as two's complement does.
  \<open>find_desc\<close> follows a chain for at most \<open>DESC_TABLE_SIZE + 1\<close> steps and records \<open>hung\<close> otherwise;
  C12 shows that it never is, and that every line is answered unless its command is silent, memory for
  the reply is missing, or the process has crashed (\<open>crashed\<close>: a null pointer from an allocation that is
  not checked, or a stream that is not there). The doubling of a buffer, \<open>grow_cap\<close>, is a partial function, and C17 shows that it ends. All other loops are total.

  C31 to C35 start from a \<open>steady\<close> table: room for all keys, on different chains, so that no file is
  evicted, a destination of BITOP that is open or does not exist, and files of at most 2^31 bytes.
  C31 needs less than 2^32 references in all, 17 for each connection. That all commands are answered and
  all references given back (C33) holds whatever the threads write; the values in C33 need that no two
  threads write the same byte. C36 shows that they do, and C32 what is left without it. The
  number of turns in C33 is that of the longest file, 2^31 bytes: BITCOUNT advances at least one byte a
  turn, BITOP has 1873 blocks and reads each source once and writes once for each of them. A turn of
  BITCOUNT or BITOP reads all lengths that it needs at once; the code reads them without a lock.

  \<^bold>\<open>Parameters.\<close> What \<open>getopt\<close> returns, \<open>inet_addr\<close>, \<open>localtime\<close>, the number of processors, the results
  of \<open>fork\<close>, \<open>open\<close>, \<open>uv_tcp_bind\<close> and \<open>uv_listen\<close>, the byte order of the host (for the hash), the list
  of faults and the clock.

  \<^bold>\<open>Not modelled.\<close> \<open>free_args\<close>, \<open>op_free\<close>, \<open>on_close\<close> and the constructors and destructors of the hash
  states: they allocate and free memory. Logging, the signals that are ignored, the environment
  variable with the size of the thread pool, and the event loop itself: calls of libc and libuv
  alone. Between two lock operations a thread is not interrupted.
\<close>

section \<open>Commands\<close>

text \<open>C1: SETBIT: a well-formed line replies with the old bit of the key's content and sets the new one, growing the content as needed; every other key, the reference counts and the server invariant are as before.\<close>

theorem setbit_command:
  assumes "server_ok v" and "10 \<le> length line" and "take 5 line = str ''SETBI''"
    and "line_words line = [name, key, off, val]"
    and "0 \<le> atol off" and "atol off div 8 \<le> FILE_SIZE_LIMIT"
    and "atol val = 0 \<or> atol val = 1" and "length (cstr key) \<le> 64" and "can_open v (key_hash key)"
  shows "let (w, v') = parse_and_execute (new_work line) v; c = content_or_empty (db v (key_hash key))
    in w_resp w = dec_int (of_bool (get_bit c (nat (atol off)))) @ [10] \<and>
       db v' = (db v)(key_hash key \<mapsto> setbit_content c (nat (atol off)) (atol val = 1)) \<and>
       server_ok v' \<and> same_refs v v'"
  using setbit_line [OF assms] by (simp add: split_def Let_def)

theorem setbit_command_witness:
  "let (w, v') = parse_and_execute (new_work (str ''SETBIT a 9 1'')) demo_world;
       c = content_or_empty (db demo_world (key_hash (str ''a'')))
    in w_resp w = dec_int (of_bool (get_bit c (nat (atol (str ''9''))))) @ [10] \<and>
       db v' = (db demo_world)(key_hash (str ''a'') \<mapsto> setbit_content c (nat (atol (str ''9''))) (atol (str ''1'') = 1)) \<and>
       server_ok v' \<and> same_refs demo_world v'"
  by (rule setbit_command) (simp_all add: demo_states FILE_SIZE_LIMIT_def, simp_all add: str_def)

text \<open>C2: GETBIT: a well-formed line replies with the bit of the key's content (0 for a missing key or past the end) and changes no content.\<close>

theorem getbit_command:
  assumes "server_ok v" and "10 \<le> length line" and "take 5 line = str ''GETBI''"
    and "line_words line = [name, key, off]"
    and "0 \<le> atol off" and "atol off div 8 \<le> FILE_SIZE_LIMIT"
    and "length (cstr key) \<le> 64" and "can_open v (key_hash key)"
  shows "let (w, v') = parse_and_execute (new_work line) v; c = content_or_empty (db v (key_hash key))
    in w_resp w = dec_int (of_bool (get_bit c (nat (atol off)))) @ [10] \<and>
       db v' = db v \<and> server_ok v' \<and> same_refs v v'"
  using getbit_line [OF assms] by (simp add: split_def Let_def)

theorem getbit_command_witness:
  "let (w, v') = parse_and_execute (new_work (str ''GETBIT a 9'')) (demo_file (str ''a'') [0, 64]);
       c = content_or_empty (db (demo_file (str ''a'') [0, 64]) (key_hash (str ''a'')))
    in w_resp w = dec_int (of_bool (get_bit c (nat (atol (str ''9''))))) @ [10] \<and>
       db v' = db (demo_file (str ''a'') [0, 64]) \<and> server_ok v' \<and> same_refs (demo_file (str ''a'') [0, 64]) v'"
  by (rule getbit_command) (simp_all add: demo_states FILE_SIZE_LIMIT_def, simp_all add: str_def)

text \<open>C3: BITCOUNT: a well-formed line replies with the number of set bits of the content in the byte range its arguments denote, negative positions counting from the end, and changes no content.\<close>

theorem bitcount_command:
  assumes "server_ok v" and "10 \<le> length line" and "take 5 line = str ''BITCO''"
    and "line_words line = name # key # rest" and "length rest \<le> 2" and "length (cstr key) \<le> 64"
    and "can_open v (key_hash key)" and "length (content_or_empty (db v (key_hash key))) < 2 ^ 40"
  shows "let (w, v') = parse_and_execute (new_work line) v; c = content_or_empty (db v (key_hash key));
      (s, e) = bitcount_args rest (length c)
    in w_resp w = dec_int (int (bitcount_spec c s e)) @ [10] \<and>
       db v' = db v \<and> server_ok v' \<and> same_refs v v'"
  using bitcount_line [OF assms] by (simp add: split_def Let_def)

theorem bitcount_command_witness:
  "let (w, v') = parse_and_execute (new_work (str ''BITCOUNT a 0'')) (demo_file (str ''a'') [5, 64]);
       c = content_or_empty (db (demo_file (str ''a'') [5, 64]) (key_hash (str ''a'')));
       (s, e) = bitcount_args [str ''0''] (length c)
    in w_resp w = dec_int (int (bitcount_spec c s e)) @ [10] \<and>
       db v' = db (demo_file (str ''a'') [5, 64]) \<and> server_ok v' \<and> same_refs (demo_file (str ''a'') [5, 64]) v'"
  by (rule bitcount_command) (simp_all add: demo_states content_or_empty_def, simp_all add: str_def)

text \<open>C4: BITOP with a destination: a well-formed line replies with the length of the result, which is written over the content of the destination (open, or a file that does not exist); nothing else changes.\<close>

theorem bitop_store_command:
  assumes "server_ok v" and "10 \<le> length line" and "take 5 line = str ''BITOP''"
    and "line_words line = name # opt # dest # srcs" and "srcs \<noteq> []" and "length srcs \<le> 16"
    and "parse_option opt = Some op" and "op = OP_NOT \<Longrightarrow> length srcs = 1"
    and "parse_hook dest = Some NONE" and "length (cstr dest) \<le> 64"
    and "can_open_set v (insert (key_hash dest) (key_hash ` set srcs)) (Suc (length srcs))"
    and "XXTABLE v (chain_id (key_hash dest)) \<noteq> None \<or> db v (key_hash dest) = None"
    and "length (bitop_result op v srcs) < 2 ^ 31"
  shows "let (w, v') = parse_and_execute (new_work line) v; res = bitop_result op v srcs
    in w_resp w = dec_int (int (length res)) @ [10] \<and>
       db v' = (db v)(key_hash dest \<mapsto> write_at (content_or_empty (db v (key_hash dest))) 0 res) \<and>
       server_ok v' \<and> same_refs v v'"
  using bitop_store_line [OF assms(1-12)] assms(13) by (simp add: split_def Let_def)

theorem bitop_store_command_witness:
  "let (w, v') = parse_and_execute (new_work (str ''BITOP or c a b'')) (demo_file (str ''a'') [1, 64]);
       res = bitop_result OP_OR (demo_file (str ''a'') [1, 64]) [str ''a'', str ''b'']
    in w_resp w = dec_int (int (length res)) @ [10] \<and>
       db v' = (db (demo_file (str ''a'') [1, 64]))(key_hash (str ''c'') \<mapsto>
         write_at (content_or_empty (db (demo_file (str ''a'') [1, 64]) (key_hash (str ''c'')))) 0 res) \<and>
       server_ok v' \<and> same_refs (demo_file (str ''a'') [1, 64]) v'"
proof (rule bitop_store_command)
  show "line_words (str ''BITOP or c a b'') = [str ''BITOP'', str ''or'', str ''c'', str ''a'', str ''b'']"
    "parse_option (str ''or'') = Some OP_OR" "parse_hook (str ''c'') = Some NONE"
    "length (cstr (str ''c'')) \<le> 64" by code_simp+
  show "can_open_set (demo_file (str ''a'') [1, 64])
      (insert (key_hash (str ''c'')) (key_hash ` set [str ''a'', str ''b''])) (Suc (length [str ''a'', str ''b'']))"
    by (rule can_open_subset [OF demo_open_set]) auto
  show "length (bitop_result OP_OR (demo_file (str ''a'') [1, 64]) [str ''a'', str ''b'']) < 2 ^ 31"
    by (simp add: bitop_result_def result_length_def demo_states content_or_empty_def)
qed (simp_all add: demo_states key_hash_a key_hash_c, simp_all add: str_def)

text \<open>C5: BITOP with a hook: the reply is the number of set bits of the result (COUNTOP) or its length (GETOP), and no content changes.\<close>

theorem bitop_hook_command:
  assumes "server_ok v" and "10 \<le> length line" and "take 5 line = str ''BITOP''"
    and "line_words line = name # opt # dest # srcs" and "srcs \<noteq> []" and "length srcs \<le> 16"
    and "parse_option opt = Some op" and "op = OP_NOT \<Longrightarrow> length srcs = 1"
    and "parse_hook dest = Some hook" and "hook \<noteq> NONE"
    and "can_open_set v (key_hash ` set srcs) (length srcs)" and "length (bitop_result op v srcs) < 2 ^ 31"
  shows "let (w, v') = parse_and_execute (new_work line) v; res = bitop_result op v srcs
    in w_resp w = dec_int (int (if hook = COUNTOP then card (set_bits res) else length res)) @ [10] \<and>
       db v' = db v \<and> server_ok v' \<and> same_refs v v'"
  using bitop_hook_line [OF assms(1-11)] assms(12)
  by (cases "hook = COUNTOP") (simp_all add: split_def Let_def popcount_list_card)

theorem bitop_hook_command_witness:
  "let (w, v') = parse_and_execute (new_work (str ''BITOP xor '' @ 5 # str ''COUNTOP a b'')) (demo_file (str ''a'') [1, 64]);
       res = bitop_result OP_XOR (demo_file (str ''a'') [1, 64]) [str ''a'', str ''b'']
    in w_resp w = dec_int (int (if COUNTOP = COUNTOP then card (set_bits res) else length res)) @ [10] \<and>
       db v' = db (demo_file (str ''a'') [1, 64]) \<and> server_ok v' \<and> same_refs (demo_file (str ''a'') [1, 64]) v'"
proof (rule bitop_hook_command)
  show "line_words (str ''BITOP xor '' @ 5 # str ''COUNTOP a b'') =
      [str ''BITOP'', str ''xor'', 5 # str ''COUNTOP'', str ''a'', str ''b'']"
    "parse_option (str ''xor'') = Some OP_XOR" "parse_hook (5 # str ''COUNTOP'') = Some COUNTOP" by code_simp+
  show "can_open_set (demo_file (str ''a'') [1, 64]) (key_hash ` set [str ''a'', str ''b''])
      (length [str ''a'', str ''b''])"
    by (rule can_open_subset [OF demo_open_set]) auto
  show "length (bitop_result OP_XOR (demo_file (str ''a'') [1, 64]) [str ''a'', str ''b'']) < 2 ^ 31"
    by (simp add: bitop_result_def result_length_def demo_states content_or_empty_def)
qed (simp_all add: demo_states, simp_all add: str_def)

section \<open>Sessions\<close>

text \<open>C6: A client that sends SETBIT and then GETBIT on the same key gets the old bit and then the bit it set, or, at another offset, the bit that was there.\<close>

theorem get_after_set_session:
  assumes "server_ok v" and "can_open v (key_hash key)" and "length (cstr key) \<le> 64"
    and "10 \<le> length l1" and "take 5 l1 = str ''SETBI''" and "line_words l1 = [name1, key, off1, val]"
    and "10 \<le> length l2" and "take 5 l2 = str ''GETBI''" and "line_words l2 = [name2, key, off2]"
    and "0 \<le> atol off1" and "atol off1 div 8 \<le> FILE_SIZE_LIMIT"
    and "0 \<le> atol off2" and "atol off2 div 8 \<le> FILE_SIZE_LIMIT"
    and "atol val = 0 \<or> atol val = 1"
  shows "fst (run_lines [l1, l2] v) =
    [dec_int (of_bool (get_bit (content_or_empty (db v (key_hash key))) (nat (atol off1)))) @ [10],
     dec_int (of_bool (if atol off2 = atol off1 then atol val = 1
       else get_bit (content_or_empty (db v (key_hash key))) (nat (atol off2)))) @ [10]]"
  by (rule get_after_set [OF assms])

theorem get_after_set_session_witness:
  "fst (run_lines [str ''SETBIT a 9 1'', str ''GETBIT a 9''] demo_world) =
    [dec_int (of_bool (get_bit (content_or_empty (db demo_world (key_hash (str ''a'')))) (nat (atol (str ''9''))))) @ [10],
     dec_int (of_bool (if atol (str ''9'') = atol (str ''9'') then atol (str ''1'') = 1
       else get_bit (content_or_empty (db demo_world (key_hash (str ''a'')))) (nat (atol (str ''9''))))) @ [10]]"
  by (rule get_after_set_session) (simp_all add: demo_states FILE_SIZE_LIMIT_def, simp_all add: str_def)

text \<open>C7: Whatever the network does, the lines of a connection are executed one after the other in the order they arrived, each once, and the replies that were written are theirs, in that order.\<close>

theorem replies_in_order:
  assumes "serves v s"
  shows "\<exists>ls. c_queued (n_conn (sv_net s)) = ls @ waiting (n_phase (sv_net s)) \<and>
    sv_world s = snd (run_lines ls v) \<and>
    subseq (n_replies (sv_net s) @ underway (n_phase (sv_net s))) (zip ls (fst (run_lines ls v)))"
  using serves_in_order [OF assms] by (simp add: executed_in_order_def)

theorem replies_in_order_witness:
  "\<exists>s. serves demo_world s \<and> c_queued (n_conn (sv_net s)) = [str ''GETBIT a 9''] \<and>
    (\<exists>ls. c_queued (n_conn (sv_net s)) = ls @ waiting (n_phase (sv_net s)) \<and>
      sv_world s = snd (run_lines ls demo_world) \<and>
      subseq (n_replies (sv_net s) @ underway (n_phase (sv_net s))) (zip ls (fst (run_lines ls demo_world))))"
proof -
  let ?l = "str ''GETBIT a 9''"
  have "10 \<notin> set ?l" "length ?l < RBUF_INIT_CAP" by (simp_all add: str_def RBUF_INIT_CAP_def)
  note r = first_line [OF this]
  let ?n = "\<lparr>n_conn = new_conn\<lparr>c_busy := True, c_queued := [?l]\<rparr>, n_phase = Working ?l, n_input = ?l @ [10], n_replies = []\<rparr>"
  have "service_step (Arrives (Read_data (?l @ [10])) True True) \<lparr>sv_net = init_net, sv_world = demo_world\<rparr> =
      Some \<lparr>sv_net = ?n, sv_world = demo_world\<rparr>"
    using r by (simp add: service_step_def)
  then have "serves demo_world \<lparr>sv_net = ?n, sv_world = demo_world\<rparr>" by (rule serves.happens [OF serves.connect])
  with replies_in_order [OF this] show ?thesis
    by (intro exI [of _ "\<lparr>sv_net = ?n, sv_world = demo_world\<rparr>"]) simp
qed

text \<open>C8: In every reachable state of a connection the buffer is within its capacity and that within 64 KiB, at most one close was made and only with nothing in flight, \<open>busy\<close> says whether a command is in flight, and while the connection is open the input is exactly the dispatched lines and the buffer.\<close>

theorem connection_invariant:
  assumes "reaches P s"
  shows "length (c_rbuf (n_conn s)) \<le> c_rcap (n_conn s) \<and> c_rcap (n_conn s) \<le> RBUF_MAX_CAP \<and>
    c_closes (n_conn s) \<le> 1 \<and> (c_closes (n_conn s) = 1 \<longrightarrow> c_closing (n_conn s) \<and> n_phase s = Idle) \<and>
    (c_busy (n_conn s) \<longleftrightarrow> n_phase s \<noteq> Idle) \<and>
    (\<not> c_closing (n_conn s) \<longrightarrow> n_input s = framed (c_queued (n_conn s)) @ c_rbuf (n_conn s)) \<and>
    (\<forall>l\<in>set (c_queued (n_conn s)). 10 \<notin> set l)"
  using reaches_inv [OF assms] by (auto simp: net_inv_def cap_ok_def close_ok_def frame_ok_def)

theorem connection_invariant_witness:
  "\<exists>s. reaches (\<lambda>_. True) s \<and> n_phase s = Working (str ''GETBIT a 9'') \<and>
    length (c_rbuf (n_conn s)) \<le> c_rcap (n_conn s) \<and> c_rcap (n_conn s) \<le> RBUF_MAX_CAP \<and>
    c_closes (n_conn s) \<le> 1 \<and> (c_closes (n_conn s) = 1 \<longrightarrow> c_closing (n_conn s) \<and> n_phase s = Idle) \<and>
    (c_busy (n_conn s) \<longleftrightarrow> n_phase s \<noteq> Idle) \<and>
    (\<not> c_closing (n_conn s) \<longrightarrow> n_input s = framed (c_queued (n_conn s)) @ c_rbuf (n_conn s)) \<and>
    (\<forall>l\<in>set (c_queued (n_conn s)). 10 \<notin> set l)"
proof -
  let ?l = "str ''GETBIT a 9''"
  have "10 \<notin> set ?l" "length ?l < RBUF_INIT_CAP" by (simp_all add: str_def RBUF_INIT_CAP_def)
  note r = reaches.event [OF reaches.start TrueI first_line [OF this]]
  let ?s = "\<lparr>n_conn = new_conn\<lparr>c_busy := True, c_queued := [?l]\<rparr>, n_phase = Working ?l, n_input = ?l @ [10], n_replies = []\<rparr>"
  have "n_phase ?s = Working ?l" by simp
  with r connection_invariant [OF r] show ?thesis by (intro exI [of _ ?s] conjI) (blast+)
qed

text \<open>C9: After a close no event can happen to a connection, so freeing it leaves no callback behind.\<close>

theorem closed_connection_is_final:
  assumes "reaches P s" and "c_closes (n_conn s) \<noteq> 0"
  shows "net_step e s = None"
  by (rule closed_final [OF assms])

theorem closed_connection_is_final_witness:
  "\<exists>s. reaches (\<lambda>_. True) s \<and> c_closes (n_conn s) = 1 \<and> net_step (Write_done True True) s = None"
proof -
  let ?s = "init_net\<lparr>n_conn := new_conn\<lparr>c_closing := True, c_closes := 1\<rparr>\<rparr>"
  have "net_step (Recv Read_error True True) init_net = Some ?s"
    by (simp add: net_step_def on_read_def maybe_close_def init_net_def new_conn_def next_phase_def)
  then have r: "reaches (\<lambda>_. True) ?s" by (rule reaches.event [OF reaches.start TrueI])
  then show ?thesis using closed_connection_is_final [OF r, of "Write_done True True"] by (intro exI conjI) (rule r, simp_all)
qed

text \<open>C10: When every command is answered, no complete line waits in the buffer of an idle open connection.\<close>

theorem no_line_waits:
  assumes "reaches answering s"
  shows "n_phase s = Idle \<and> \<not> c_closing (n_conn s) \<longrightarrow> 10 \<notin> set (c_rbuf (n_conn s))"
  using reaches_drained [OF assms] by (simp add: drained_def)

theorem no_line_waits_witness:
  "\<exists>s. reaches answering s \<and> c_rbuf (n_conn s) = str ''GETBIT'' \<and>
    (n_phase s = Idle \<and> \<not> c_closing (n_conn s) \<longrightarrow> 10 \<notin> set (c_rbuf (n_conn s)))"
proof -
  let ?l = "str ''GETBIT''"
  have l: "10 \<notin> set ?l" "length ?l \<le> RBUF_INIT_CAP" by (simp_all add: str_def RBUF_INIT_CAP_def)
  have a: "answering (Recv (Read_data ?l) True True)" by (simp add: answering_def)
  note r = reaches.event [where P = answering, OF reaches.start a partial_line [OF l]]
  then show ?thesis using no_line_waits [OF r] by (intro exI conjI) (rule r, simp, blast)
qed

text \<open>C11: When the thread of a connection has executed BITPOS, or BITFIELD with at least four arguments, in whatever state of the server, there is no reply, and nothing dispatches the lines that are already in the buffer: the connection is idle with its buffer and its list of dispatched lines unchanged, and the only thing that can happen to it is that the client sends more.\<close>

theorem silent_command_blocks_next:
  assumes "take 5 l = str ''BITPO'' \<or> take 5 l = str ''BITFI'' \<and> 4 \<le> length args" and "line_words l = name # args"
    and "10 \<le> length l" and "n_phase (sv_net s) = Working l" and "\<not> c_closing (n_conn (sv_net s))"
  shows "\<exists>s'. service_step (Executed status_ok write_ok) s = Some s' \<and>
    n_replies (sv_net s') = n_replies (sv_net s) \<and>
    c_rbuf (n_conn (sv_net s')) = c_rbuf (n_conn (sv_net s)) \<and>
    c_queued (n_conn (sv_net s')) = c_queued (n_conn (sv_net s)) \<and>
    n_phase (sv_net s') = Idle \<and> \<not> c_closing (n_conn (sv_net s')) \<and>
    (\<forall>e. service_step e s' \<noteq> None \<longrightarrow> (\<exists>res a b. e = Arrives res a b))"
  using silent_step [OF assms(4,5)] silent_reply [OF assms(3,2,1)] by (simp add: work_cb_def stalled_def) blast

theorem silent_command_blocks_next_witness:
  "\<exists>s s'. serves demo_world s \<and> service_step (Executed True True) s = Some s' \<and>
    c_queued (n_conn (sv_net s')) = [str ''BITPOS a 1''] \<and> n_replies (sv_net s') = [] \<and>
    c_rbuf (n_conn (sv_net s')) = str ''GETBIT a 9'' @ [10] \<and> n_phase (sv_net s') = Idle \<and>
    \<not> c_closing (n_conn (sv_net s'))"
proof -
  obtain s where s: "serves demo_world s" "n_phase (sv_net s) = Working (str ''BITPOS a 1'')"
    "\<not> c_closing (n_conn (sv_net s))" "c_rbuf (n_conn (sv_net s)) = str ''GETBIT a 9'' @ [10]"
    "c_queued (n_conn (sv_net s)) = [str ''BITPOS a 1'']" "n_replies (sv_net s) = []"
    using two_lines_arrive [of "str ''BITPOS a 1''" "str ''GETBIT a 9'' @ [10]" demo_world]
    by (auto simp: str_def RBUF_INIT_CAP_def)
  have l: "take 5 (str ''BITPOS a 1'') = str ''BITPO''" "10 \<le> length (str ''BITPOS a 1'')" by (simp_all add: str_def)
  have w: "line_words (str ''BITPOS a 1'') = str ''BITPOS'' # [str ''a'', str ''1'']" by code_simp
  from silent_command_blocks_next [OF disjI1 [OF l(1)] w l(2) s(2,3), of True True] s show ?thesis by auto
qed

section \<open>The parser\<close>

text \<open>C12: Whatever calls of the operating system fail, in this line and in all lines before it, a line comes to one of four ends: the process has died at an allocation that the code does not check or at a stream that is not there (\<open>crashed\<close>), there was no memory for the reply, the command is one of the two that have none, or the line has its reply. No walk along a hash chain and no growing of a buffer runs forever.\<close>

theorem commands_end:
  assumes "no_links v" and "\<not> hung v"
  shows "let (w, v') = work_cb (new_work l) (snd (run_lines ls v))
    in \<not> hung v' \<and> no_links v' \<and> (crashed v' \<or> w_oom w \<or> silent_line l \<or> w_resp w \<noteq> [])"
proof -
  have "links_kept v (snd (run_lines (ls @ [l]) v))" by (rule links_run_lines)
  then show ?thesis
    using assms replied_line [of l "snd (run_lines ls v)"]
    by (auto simp: run_lines_snoc links_kept_def replied_def work_cb_def split_def Let_def)
qed

theorem commands_end_witness:
  "let v = demo_world\<lparr>faults := [None, None, None, None, Some 0]\<rparr>;
       (w, v') = work_cb (new_work (str ''SETBIT a 9 1'')) (snd (run_lines [str ''GETBIT a 9''] v))
    in \<not> hung v' \<and> no_links v' \<and> (crashed v' \<or> w_oom w \<or> w_resp w \<noteq> [])"
proof -
  have "dispatch_hash (str ''SETBIT a 9 1'') = 13964470052823109277"
    by (subst dispatch_hash_ref; simp add: str_def xxh64_eval)
  then have "\<not> silent_line (str ''SETBIT a 9 1'')" by (simp add: silent_line_def silent_hashes)
  then show ?thesis
    using commands_end [of "demo_world\<lparr>faults := [None, None, None, None, Some 0]\<rparr>" "str ''SETBIT a 9 1''" "[str ''GETBIT a 9'']"]
    by (simp add: Let_def split_def no_links_def demo_fields zero_desc_def)
qed

text \<open>C13: A line with a wrong number of arguments, a bad offset, value, option or key gets exactly the error message for it, and no file is touched.\<close>

theorem rejected_line:
  assumes "faults v = []" and "10 \<le> length line" and "line_words line = name # args"
    and "command_error (take 5 line) args = Some msg"
  shows "w_resp (fst (parse_and_execute (new_work line) v)) = str msg @ [10] \<and>
    snd (parse_and_execute (new_work line) v) = v"
  using command_rejects [OF assms] by (simp add: rejects_def)

theorem rejected_line_witness:
  "w_resp (fst (parse_and_execute (new_work (str ''SETBIT a 9 2'')) demo_world)) =
      str ''ERR:SETBIT(3) MUST BE 1 OR 0'' @ [10] \<and>
    snd (parse_and_execute (new_work (str ''SETBIT a 9 2'')) demo_world) = demo_world"
proof (rule rejected_line)
  show "line_words (str ''SETBIT a 9 2'') = str ''SETBIT'' # [str ''a'', str ''9'', str ''2'']" by code_simp
  show "command_error (take 5 (str ''SETBIT a 9 2'')) [str ''a'', str ''9'', str ''2''] =
      Some ''ERR:SETBIT(3) MUST BE 1 OR 0''" by code_simp
qed (simp_all add: demo_fields)

text \<open>C14: BITOP at the size limit: a result of 2 GiB, the largest that SETBIT lets a file grow to, wraps the \<open>int\<close> that counts its bytes, so the command is answered with an error although the whole result has been written.\<close>

theorem bitop_at_size_limit:
  assumes "server_ok v" and "10 \<le> length line" and "take 5 line = str ''BITOP''"
    and "line_words line = name # opt # dest # srcs" and "srcs \<noteq> []" and "length srcs \<le> 16"
    and "parse_option opt = Some op" and "op = OP_NOT \<Longrightarrow> length srcs = 1"
    and "parse_hook dest = Some NONE" and "length (cstr dest) \<le> 64"
    and "can_open_set v (insert (key_hash dest) (key_hash ` set srcs)) (Suc (length srcs))"
    and "XXTABLE v (chain_id (key_hash dest)) \<noteq> None \<or> db v (key_hash dest) = None"
    and "int (length (bitop_result op v srcs)) = FILE_SIZE_LIMIT + 1"
  shows "let (w, v') = parse_and_execute (new_work line) v
    in w_resp w = str ''ERR:FILE ACCESS FAILED'' @ [10] \<and>
       db v' = (db v)(key_hash dest \<mapsto>
         write_at (content_or_empty (db v (key_hash dest))) 0 (bitop_result op v srcs)) \<and>
       server_ok v' \<and> same_refs v v'"
proof -
  have n: "length (bitop_result op v srcs) = 2 ^ 31" using assms(13) by (simp add: FILE_SIZE_LIMIT_def)
  show ?thesis
    using bitop_store_line [OF assms(1-12)] result_line_full by (simp add: n split_def Let_def)
qed

theorem bitop_at_size_limit_witness:
  "let v = demo_file (str ''a'') (replicate (2 ^ 31) 0); (w, v') = parse_and_execute (new_work (str ''BITOP or c a b'')) v
    in w_resp w = str ''ERR:FILE ACCESS FAILED'' @ [10] \<and>
       db v' = (db v)(key_hash (str ''c'') \<mapsto>
         write_at (content_or_empty (db v (key_hash (str ''c'')))) 0 (bitop_result OP_OR v [str ''a'', str ''b''])) \<and>
       server_ok v' \<and> same_refs v v'"
  unfolding Let_def [of "demo_file _ _"]
proof (rule bitop_at_size_limit)
  let ?v = "demo_file (str ''a'') (replicate (2 ^ 31) 0)"
  show "line_words (str ''BITOP or c a b'') = [str ''BITOP'', str ''or'', str ''c'', str ''a'', str ''b'']"
    "parse_option (str ''or'') = Some OP_OR" "parse_hook (str ''c'') = Some NONE"
    "length (cstr (str ''c'')) \<le> 64" by code_simp+
  show "can_open_set ?v (insert (key_hash (str ''c'')) (key_hash ` set [str ''a'', str ''b''])) (Suc (length [str ''a'', str ''b'']))"
    by (rule can_open_subset [OF demo_open_set]) auto
  show "int (length (bitop_result OP_OR ?v [str ''a'', str ''b''])) = FILE_SIZE_LIMIT + 1"
    by (simp add: bitop_result_def result_length_def demo_file_ok content_or_empty_def key_hash_a FILE_SIZE_LIMIT_def)
qed (simp_all add: demo_file_ok key_hash_a key_hash_c, simp_all add: str_def)

text \<open>C15: The constants of the dispatch are the XXH64 values of the six five-byte prefixes: a line that begins with one of them reaches its handler, with the number of its words.\<close>

theorem dispatch_by_prefix:
  assumes "10 \<le> length line" and "(take 5 line, exec) \<in>
    {(str ''SETBI'', exec_setbit), (str ''GETBI'', exec_getbit), (str ''BITOP'', exec_bitop),
     (str ''BITCO'', exec_bitcount), (str ''BITPO'', exec_bitpos), (str ''BITFI'', exec_bitfield)}"
  shows "parse_and_execute (new_work line) v = exec (length (line_words line)) (new_work line) v"
  using assms dispatch_known [OF assms(1)] handler_names by auto

theorem dispatch_by_prefix_witness:
  "parse_and_execute (new_work (str ''GETBIX a 10'')) demo_world =
    exec_getbit (length (line_words (str ''GETBIX a 10''))) (new_work (str ''GETBIX a 10'')) demo_world"
  by (rule dispatch_by_prefix) (simp_all add: str_def)

text \<open>C16: The tokeniser: the count is the number of words of the line and the arguments are the words after the first, for any number of spaces anywhere.\<close>

theorem tokenise_line:
  assumes "faults v = []"
  shows "get_arg_count line (length line) = length (line_words line) \<and>
    split_fill line (length line) (get_arg_count line (length line)) v = (tl (line_words line), v)"
  using split_words [OF assms] by (simp add: get_arg_count_eq)

theorem tokenise_line_witness:
  "get_arg_count (str ''  SETBIT  a '') (length (str ''  SETBIT  a '')) = length (line_words (str ''  SETBIT  a '')) \<and>
    split_fill (str ''  SETBIT  a '') (length (str ''  SETBIT  a ''))
      (get_arg_count (str ''  SETBIT  a '') (length (str ''  SETBIT  a ''))) demo_world =
      (tl (line_words (str ''  SETBIT  a '')), demo_world)"
  by (rule tokenise_line) (simp add: demo_fields)

text \<open>C17: Appending a reply keeps the response within its buffer: the doubling ends, and the capacity it ends with holds the response and is less than twice what was needed.\<close>

theorem reply_within_buffer:
  assumes "faults v = []" and "0 < w_cap w" and "0 < len" and "length (w_resp w) \<le> w_cap w" and "len \<le> length s"
  shows "let (w', v') = reply s len (w, v) in w_resp w' = w_resp w @ take len s \<and> v' = v \<and>
    length (w_resp w') \<le> w_cap w' \<and> (w_cap w' = w_cap w \<or> w_cap w' < 2 * length (w_resp w'))"
proof (cases "w_cap w < length (w_resp w) + len")
  case True
  obtain k where "grow_cap (length (w_resp w) + len) (w_cap w) = Some (w_cap w * 2 ^ k)"
    "length (w_resp w) + len \<le> w_cap w * 2 ^ k" "k = 0 \<or> w_cap w * 2 ^ k < 2 * (length (w_resp w) + len)"
    using grow_cap_ends [OF assms(2)] by blast
  then show ?thesis using True assms by (auto simp: reply_def append_resp_def min_def)
qed (use assms in \<open>simp add: reply_def append_resp_def min_def\<close>)

theorem reply_within_buffer_witness:
  "let (w', v') = reply (replicate 100 65) 100 (new_work [], demo_world)
    in w_resp w' = w_resp (new_work []) @ take 100 (replicate 100 65) \<and> v' = demo_world \<and>
    length (w_resp w') \<le> w_cap w' \<and> (w_cap w' = w_cap (new_work []) \<or> w_cap w' < 2 * length (w_resp w'))"
  by (rule reply_within_buffer) (simp_all add: demo_fields)

section \<open>Hashing and counting\<close>

text \<open>C18: The hash of a byte run is the XXH64 function of exactly its first \<open>len\<close> bytes, whatever the byte order of the host. The function is that of \<open>XXHSpec\<close>, which is written from the published specification and not from the code.\<close>

theorem XXH64_specified:
  assumes "len \<le> length input"
  shows "XXH64 host input len seed = xxh64_spec seed (take len input)"
  using XXH64_eq_bytes [OF assms] by (simp add: xxh64_bytes_spec)

theorem XXH64_specified_witness:
  "XXH64 XXH_bigEndian (str ''Nobody inspects the spammish repetition, abc'') 39 0 = 0xFBCEA83C8A378BF1"
  using XXH64_specified [of 39 "str ''Nobody inspects the spammish repetition, abc''" XXH_bigEndian 0] xxh64_published(3)
  by (simp add: str_def)

text \<open>C19: The streaming interface agrees with the one-shot hash for every way of cutting the input into pieces.\<close>

theorem XXH64_streaming:
  assumes "length (concat ds) < 2 ^ 64"
  shows "XXH64_digest host (XXH64_updates host (snd (XXH64_reset st seed)) ds) =
    XXH64 host (concat ds) (length (concat ds)) seed"
  by (rule digest_updates_eq_XXH64 [OF assms])

theorem XXH64_streaming_witness:
  "XXH64_digest XXH_littleEndian (XXH64_updates XXH_littleEndian
      (snd (XXH64_reset \<lparr>total_len = 5, lanes = (0, 0, 0, 0), mem64 = [], memsize = 3\<rparr> 9)) [str ''ab'', [], str ''c'']) =
    XXH64 XXH_littleEndian (concat [str ''ab'', [], str ''c'']) (length (concat [str ''ab'', [], str ''c''])) 9"
  by (rule XXH64_streaming) (simp add: str_def)

text \<open>C20: The 32-bit hash is the XXH32 function of \<open>XXHSpec\<close>, applied to the first \<open>len\<close> bytes, in both byte orders, and the streaming interface computes the same for every way of cutting these bytes into pieces.\<close>

theorem XXH32_specified:
  assumes "len \<le> length input" and "concat ds = take len input"
  shows "XXH32 host input len seed = xxh32_spec seed (take len input) \<and>
    XXH32_digest host (XXH32_updates host (snd (XXH32_reset st seed)) ds) = xxh32_spec seed (take len input)"
proof -
  have "XXH32 host (concat ds) (length (concat ds)) seed = xxh32_bytes seed (concat ds)"
    by (subst XXH32_eq_bytes) simp_all
  then show ?thesis
    unfolding digest_updates_eq_XXH32 XXH32_eq_bytes [OF assms(1)] assms(2) by (simp add: xxh32_bytes_spec)
qed

theorem XXH32_specified_witness:
  "XXH32 XXH_bigEndian (str ''Nobody inspects the spammish repetition, abc'') 39 0 = 0xE2293B2F \<and>
    XXH32_digest XXH_bigEndian (XXH32_updates XXH_bigEndian (snd (XXH32_reset
      \<lparr>total_len_32 = 5, large_len = 1, v32 = (0, 0, 0, 0), mem32 = [], memsize32 = 3\<rparr> 0))
      [str ''Nobody inspects'', [], str '' the spammish repetition'']) = 0xE2293B2F"
  using XXH32_specified [of 39 "str ''Nobody inspects the spammish repetition, abc''"
      "[str ''Nobody inspects'', [], str '' the spammish repetition'']" XXH_bigEndian 0] xxh32_published(3)
  by (simp add: str_def)

text \<open>C21: A hash written in its canonical form on one host is read back on any other, of either byte order; the form is its bytes with the most significant first.\<close>

theorem canonical_round_trip:
  "XXH32_hashFromCanonical host' (XXH32_canonicalFromHash host h) = h \<and>
   XXH64_hashFromCanonical host' (XXH64_canonicalFromHash host g) = g \<and>
   XXH32_canonicalFromHash host h = big_digits 4 h \<and> XXH64_canonicalFromHash host g = big_digits 8 g"
  by (intro conjI canonical32_round_trip canonical64_round_trip canonical32_digits canonical64_digits)


text \<open>C22: The word-at-a-time population count is the number of set bits of the first \<open>count\<close> bytes.\<close>

theorem popcount_counts_bits:
  assumes "count \<le> length s"
  shows "redisPopcount s count = of_nat (card (set_bits (take count s)))"
  using redisPopcount_correct [OF assms] by (simp add: popcount_list_card)

theorem popcount_counts_bits_witness:
  "redisPopcount (replicate 40 7) 33 = of_nat (card (set_bits (take 33 (replicate 40 7))))"
  by (rule popcount_counts_bits) simp

section \<open>The table of open files\<close>

text \<open>C23: What was written to an open file is read back, whatever the state of its stream.\<close>

theorem read_back_written:
  assumes "live w i" and "bs \<noteq> []" and "write_to i bs (int off) w = (r, w')"
  shows "r = length bs \<and> (\<exists>w''. read_from i (length bs) (int off) w' = (length bs, bs, w''))"
  using files.read_after_write [OF assms] files.wr_law [OF assms(1,2), of off] assms(3) by auto

theorem read_back_written_witness:
  "\<exists>r w'. write_to (demo_slot [1, 64]) [7, 8] (int 5) (demo_opened [1, 64]) = (r, w') \<and>
    r = length [7 :: byte, 8] \<and>
    (\<exists>w''. read_from (demo_slot [1, 64]) (length [7 :: byte, 8]) (int 5) w' = (length [7 :: byte, 8], [7, 8], w''))"
proof -
  obtain r w' where w: "write_to (demo_slot [1, 64]) [7, 8] (int 5) (demo_opened [1, 64]) = (r, w')" by fastforce
  show ?thesis using read_back_written [OF demo_opened_ok(1) _ w] w by blast
qed

text \<open>C24: A BITOP line, with any operator and with a destination or a hook, one of whose sources cannot be opened, is answered with an error. The sources are opened from the last to the first, and those that were opened before the one that fails are not given back: each descriptor in use keeps the count it had when that source failed, except that the reference of the destination, when there is one, is released. No assumption is made on which calls fail.\<close>

theorem failed_source_keeps_references:
  assumes "no_links v" and "10 \<le> length line" and "take 5 line = str ''BITOP''"
    and "line_words line = name # opt # dest # earlier @ bad # later" and "length (earlier @ bad # later) \<le> 16"
    and "parse_option opt = Some op" and "op = OP_NOT \<Longrightarrow> earlier @ later = []" and "parse_hook dest = Some hook"
    and "bitop_prepared line (length (line_words line)) dest hook v d v1"
    and "prepare_files later v1 = (0, dts, v2)" and "prepare_file bad 1 v2 = (-1, dt, v3)"
    and "d_refs (descs v2 i) \<noteq> 0"
  shows "let (w, v') = parse_and_execute (new_work line) v
    in w_resp w = str ''ERR:FILESYSTEM FAILED'' @ [10] \<and>
       d_refs (descs v' i) = d_refs (descs v2 i) - of_bool (d = Some i)"
  using source_fails [OF assms(2-11)] failed_source_refs [OF assms(1,4,9-12)] by (simp add: split_def Let_def)

theorem failed_source_keeps_references_witness:
  "d_refs (descs demo_busy 0) = 1 \<and>
    (let (w, v') = parse_and_execute (new_work (str ''BITOP or a c b a'')) demo_busy
     in w_resp w = str ''ERR:FILESYSTEM FAILED'' @ [10] \<and> d_refs (descs v' 0) = 2)"
proof -
  let ?line = "str ''BITOP or a c b a''"
  let ?v1 = "touch_desc 0 demo_busy"
  let ?v2 = "touch_desc 0 ?v1"
  obtain dt v3 where p: "prepare_file (str ''b'') 1 ?v2 = (-1, dt, v3)" using demo_busy_ok(6) by blast
  have l: "line_words ?line = str ''BITOP'' # str ''or'' # str ''a'' # [str ''c''] @ str ''b'' # [str ''a'']"
    and o: "parse_option (str ''or'') = Some OP_OR" and h: "parse_hook (str ''a'') = Some NONE"
    and c: "cstr (str ''a'') = str ''a''" by code_simp+
  have "split_fill ?line (length ?line) (length (line_words ?line)) demo_busy =
      (tl (line_words ?line), demo_busy)"
    using handler_args [OF demo_busy_ok(2), of ?line] by simp
  then have d: "bitop_prepared ?line (length (line_words ?line)) (str ''a'') NONE demo_busy (Some 0) ?v1"
    using demo_busy_ok(7) c by (simp add: bitop_prepared_def)
  have r: "d_refs (descs ?v2 0) = 3" by (rule demo_busy_ok(5))
  from failed_source_keeps_references [OF demo_busy_ok(1) _ _ l _ o _ h d demo_busy_ok(4) p, of 0] show ?thesis
    by (simp add: demo_busy_ok(3) r) (simp add: str_def)
qed

text \<open>C25: Making room for a file never closes or clears a descriptor that is in use.\<close>

theorem eviction_spares_descriptors_in_use:
  assumes "no_links w" and "d_refs (descs w i) \<noteq> 0"
  shows "descs (snd (get_avalible_slot w)) i = descs w i"
  by (rule slot_spares_holders [OF assms])

theorem eviction_spares_descriptors_in_use_witness:
  "descs (snd (get_avalible_slot demo_full)) 0 = descs demo_full 0"
  by (rule eviction_spares_descriptors_in_use) (simp_all add: demo_full_ok)

text \<open>C26: When the table is full and the scan stands on the last slot, a new key takes over slot 0 although it may be in use: the slot that was cleared is not the one that is filled, and the stream that was in slot 0 is lost.\<close>

theorem full_table_overwrites_slot_0:
  assumes "full_at_end w" and "no_links w" and "faults w = []" and "dirs_ready w"
    and "d_fd (descs w (DESC_TABLE_SIZE - 1)) = Some g" and "f_pend g = None"
    and "d_fd (descs w 0) = Some f0" and "XXTABLE w (chain_id (key_hash key)) = None"
    and "fs w (path_of (srv_dir w) (key_hash key)) = None"
  shows "\<exists>w'. prepare_file key 0 w = (0, Some 0, w') \<and> d_hash (descs w' 0) = key_hash key \<and>
    d_fd (descs w' 0) = Some (new_stream (path_of (srv_dir w) (key_hash key))) \<and> lost w' = f0 # lost w \<and>
    d_hash (descs w' (DESC_TABLE_SIZE - 1)) = 0"
  by (rule prepare_full [OF assms])

theorem full_table_overwrites_slot_0_witness:
  "d_refs (descs demo_full 0) = 1 \<and>
    (\<exists>w'. prepare_file (str ''a'') 0 demo_full = (0, Some 0, w') \<and> d_hash (descs w' 0) = key_hash (str ''a'') \<and>
    d_fd (descs w' 0) = Some (new_stream (path_of (srv_dir demo_full) (key_hash (str ''a'')))) \<and>
    lost w' = new_stream (str ''f'') # lost demo_full \<and> d_hash (descs w' (DESC_TABLE_SIZE - 1)) = 0)"
proof (rule conjI [OF demo_full_ok(9) full_table_overwrites_slot_0])
  show "f_pend (new_stream (str ''f'')) = None" by (simp add: new_stream_def)
qed (simp_all add: demo_full_ok demo_fields)

text \<open>C27: Opening a key whose chain is headed by another key makes the other key's slot unreachable: it stays open, but its content is from then on what is on disk, without the writes its stream still holds.\<close>

theorem colliding_key_hides_open_file:
  assumes "table_wf w" and "XXTABLE w (chain_id (key_hash key)) = Some i"
    and "d_hash (descs w i) \<noteq> key_hash key" and "slots_used w n" and "n < DESC_TABLE_SIZE"
  shows "\<exists>w'. prepare_file key 0 w = (0, Some n, w') \<and>
    XXTABLE w' (chain_id (key_hash key)) = Some n \<and> descs w' i = descs w i \<and>
    (\<forall>c. XXTABLE w' c \<noteq> Some i) \<and> db w' (d_hash (descs w i)) = disk w (d_hash (descs w i))"
  by (rule prepare_collision [OF assms])

theorem colliding_key_hides_open_file_witness:
  "\<exists>i w w'. table_wf w \<and> d_hash (descs w i) \<noteq> 0 \<and> prepare_file (str ''sf'') 0 w = (0, Some 1, w') \<and>
    XXTABLE w' (chain_id (key_hash (str ''sf''))) = Some 1 \<and> descs w' i = descs w i \<and>
    (\<forall>c. XXTABLE w' c \<noteq> Some i) \<and> db w' (d_hash (descs w i)) = disk w (d_hash (descs w i))"
proof -
  obtain i v where v: "table_wf v" "XXTABLE v (chain_id (key_hash (str ''sf''))) = Some i"
    "d_hash (descs v i) \<noteq> key_hash (str ''sf'')" "slots_used v 1" using demo_chain by blast
  have "d_hash (descs v i) \<noteq> 0" using v(1,2) by (auto simp: table_wf_def chains_ok_def)
  moreover have "1 < DESC_TABLE_SIZE" by (simp add: DESC_TABLE_SIZE_def)
  ultimately show ?thesis using colliding_key_hides_open_file [OF v] v(1) by blast
qed

text \<open>C28: A BITOP destination that exists and is not open is emptied but keeps its old length on record, so that reading any of its old bits before new data covers it fails.\<close>

theorem truncated_destination_keeps_length:
  assumes "server_ok w" and "can_open w (key_hash key)" and "XXTABLE w (chain_id (key_hash key)) = None"
    and "db w (key_hash key) = Some c" and "length c < 2 ^ 60"
  shows "\<exists>i w'. prepare_file key 2 w = (0, Some i, w') \<and> view w' i = [] \<and> d_length (descs w' i) = length c \<and>
    (\<forall>cmd. 0 \<le> gb_offset cmd \<and> gb_offset cmd < 8 * int (length c) \<longrightarrow> fst (getbitCommand cmd i w') = -1)"
proof -
  obtain i w' where p: "prepare_file key 2 w = (0, Some i, w')" "acquired w (key_hash key) [] (length c) w' i"
    using prepare_truncate [OF assms(1-4)] by blast
  have a: "live w' i" "view w' i = []" "lengths w' i = length c" using p(2) by (simp_all add: acquired_def)
  have "fst (getbitCommand cmd i w') = -1" if "0 \<le> gb_offset cmd" "gb_offset cmd < 8 * int (length c)" for cmd
  proof (rule getbit_stale [OF a(1)])
    show "nat (gb_offset cmd) div 8 < lengths w' i" using that a(3) by linarith
  qed (use that a(2) assms(5) in simp_all)
  then show ?thesis using p(1) a by (auto simp: lengths_def)
qed

theorem truncated_destination_keeps_length_witness:
  "\<exists>i w'. prepare_file (str ''a'') 2 (demo_file (str ''a'') [1, 64]) = (0, Some i, w') \<and> view w' i = [] \<and>
    d_length (descs w' i) = length [1 :: byte, 64] \<and>
    (\<forall>cmd. 0 \<le> gb_offset cmd \<and> gb_offset cmd < 8 * int (length [1 :: byte, 64]) \<longrightarrow>
      fst (getbitCommand cmd i w') = -1)"
  by (rule truncated_destination_keeps_length) (simp_all add: demo_states demo_file_fields)

text \<open>C29: SIGTERM writes every open file out: afterwards the disk holds the whole data base, every stream is closed, and nothing crashed.\<close>

theorem shutdown_saves_everything:
  assumes "table_wf w"
  shows "disk (on_sigterm w) = db w \<and> (\<forall>i. d_fd (descs (on_sigterm w) i) = None) \<and> \<not> crashed (on_sigterm w)"
  using close_files_disk [OF assms] by (auto simp: on_sigterm_def fun_eq_iff)

theorem shutdown_saves_everything_witness:
  "disk (on_sigterm (demo_opened [1, 64])) = db (demo_opened [1, 64]) \<and>
    (\<forall>i. d_fd (descs (on_sigterm (demo_opened [1, 64])) i) = None) \<and> \<not> crashed (on_sigterm (demo_opened [1, 64]))"
  by (rule shutdown_saves_everything) (use demo_opened_ok(4) in \<open>simp add: server_ok_def\<close>)

text \<open>C30: A command that a worker runs after the handler of SIGTERM has closed the files, on a key that was open, still finds the descriptor and uses its closed stream.\<close>

theorem command_after_shutdown_uses_closed_stream:
  assumes "live w i" and "d_hash (descs w i) = key_hash key"
  shows "fst (snd (prepare_file key mode (on_sigterm w))) = Some i \<and>
    crashed (snd (snd (read_from i n off (snd (snd (prepare_file key mode (on_sigterm w)))))))"
  using use_after_shutdown [OF assms] by (simp add: on_sigterm_def)

theorem command_after_shutdown_uses_closed_stream_witness:
  "fst (snd (prepare_file (str ''a'') 1 (on_sigterm (demo_opened [1, 64])))) = Some (demo_slot [1, 64]) \<and>
    crashed (snd (snd (read_from (demo_slot [1, 64]) 1 0
      (snd (snd (prepare_file (str ''a'') 1 (on_sigterm (demo_opened [1, 64]))))))))"
  by (rule command_after_shutdown_uses_closed_stream [OF demo_opened_ok(1,5)])

section \<open>Commands of several connections\<close>

text \<open>C31: The whole server, when commands and lines that are refused arrive on any number of connections, in any interleaving of network events and turns of the threads: the table of files stays in order, each reference count is its old value plus the number of references that the threads have taken, and what a thread holds is open, has the hash of one of its keys and cannot be evicted.\<close>

theorem whole_server_keeps_files:
  assumes "pooled w p" and "steady Q w" and "asked Q n p" and "17 * n < 2 ^ 32"
  shows "server_ok (p_world p) \<and> hung (p_world p) = hung w \<and>
    (\<forall>i. d_refs (descs (p_world p) i) = d_refs (descs w i) + of_nat (holders n (p_jobs p) i)) \<and>
    (\<forall>k. \<forall>i\<in>set (held (p_jobs p k)).
      (\<exists>line rq. n_phase (p_nets p k) = Working line \<and> request_of line = Some rq \<and>
        live (p_world p) i \<and> d_hash (descs (p_world p) i) \<in> request_hashes rq) \<and>
      (d_refs (descs w i) = 0 \<longrightarrow> d_refs (descs (p_world p) i) \<noteq> 0))"
  by (rule pool_ok_files [OF pooled_ok [OF assms(1-3)] pooled_inv [OF assms(1)] assms(3,4)])

theorem whole_server_keeps_files_witness:
  "\<exists>p. pooled (demo_file (str ''a'') [1, 64]) p \<and>
    n_replies (p_nets p 0) = [(str ''SETBIT a 9 0'', w_resp (fst (parse_and_execute (new_work (str ''SETBIT a 9 0'')) (demo_file (str ''a'') [1, 64]))))] \<and>
    server_ok (p_world p) \<and> d_refs (descs (p_world p) 0) = of_nat (holders 1 (p_jobs p) 0)"
proof -
  have c: "length [1, 64 :: byte] \<le> 2 ^ 31" by simp
  obtain p where p: "pooled (demo_file (str ''a'') [1, 64]) p" "asked {demo_request} 1 p"
    "n_replies (p_nets p 0) = [(str ''SETBIT a 9 0'', w_resp (fst (parse_and_execute (new_work (str ''SETBIT a 9 0'')) (demo_file (str ''a'') [1, 64]))))]"
    using demo_pool [OF c] by blast
  have "d_refs (descs (demo_file (str ''a'') [1, 64]) 0) = 0" by (simp add: demo_file_fields zero_desc_def)
  then show ?thesis
    using whole_server_keeps_files [OF p(1) demo_request_steady [OF c] p(2)] p(1,3) by auto
qed

text \<open>C32: However the threads race, no value is made up: a client is sent the error for a line that is refused, or the answer of its command, which for SETBIT and GETBIT is a value that the bit had at the start or that some SETBIT line writes to this very bit, as long as the key is not the destination of a BITOP; so is every bit of the data base at every moment, and a bit that no line writes never changes.\<close>

theorem no_invented_values:
  assumes "pooled w p" and "steady Q w" and "asked Q n p"
  shows "(\<forall>k line resp. (line, resp) \<in> set (n_replies (p_nets p k)) \<longrightarrow>
      harmless line \<and> refused line = Some resp \<or>
      (\<exists>rq\<in>Q. \<exists>r. request_of line = Some rq \<and> resp = answer_text r \<and>
        (on_bit rq \<longrightarrow> r \<in> told Q w (request_hash rq) (request_bit rq)))) \<and>
    (\<forall>h b. of_bool (cell_bit (p_world p) h b) \<in> told Q w h b) \<and>
    (\<forall>h b. h \<notin> dest_hashes Q \<and>
      (\<forall>cmd. Set_request cmd \<in> Q \<and> key_hash (sb_key cmd) = h \<longrightarrow> position_in cmd \<noteq> b) \<longrightarrow>
      cell_bit (p_world p) h b = cell_bit w h b)"
  by (rule pool_ok_values [OF pooled_ok [OF assms]])

theorem no_invented_values_witness:
  "\<exists>p. pooled (demo_file (str ''a'') [1, 64]) p \<and>
    (\<exists>r\<in>told {demo_request} (demo_file (str ''a'') [1, 64]) (request_hash demo_request) (request_bit demo_request).
      n_replies (p_nets p 0) = [(str ''SETBIT a 9 0'', answer_text r)]) \<and>
    cell_bit (p_world p) (key_hash (str ''a'')) 7"
proof -
  let ?w = "demo_file (str ''a'') [1, 64]"
  have c: "length [1, 64 :: byte] \<le> 2 ^ 31" by simp
  obtain p resp where p: "pooled ?w p" "asked {demo_request} 1 p" "n_replies (p_nets p 0) = [(str ''SETBIT a 9 0'', resp)]"
    using demo_pool [OF c] by blast
  note v = no_invented_values [OF p(1) demo_request_steady [OF c] p(2)]
  have "on_bit demo_request" by (simp add: demo_request_def)
  then have "\<exists>r\<in>told {demo_request} ?w (request_hash demo_request) (request_bit demo_request). resp = answer_text r"
    using conjunct1 [OF v, rule_format, of "str ''SETBIT a 9 0''" resp 0] p(3) demo_request_line
    by (auto simp: harmless_def)
  moreover have "cell_bit ?w (key_hash (str ''a'')) 7"
    by (simp add: cell_bit_def demo_file_ok(3) content_or_empty_def get_bit_def)
  then have "cell_bit (p_world p) (key_hash (str ''a'')) 7"
    using conjunct2 [OF conjunct2 [OF v]] by (simp add: demo_request_def position_in_def dest_hashes_def)
  ultimately show ?thesis using p(1,3) by blast
qed

text \<open>C33: Every command is answered in every interleaving: it is enough that each thread gets as many turns as \<open>max_turns\<close> says (four for SETBIT, three for GETBIT, a number that depends on the longest possible file for BITCOUNT and BITOP), and then all references are given back, whatever bytes the threads write. When moreover no two threads write the same byte (\<open>apart\<close>), SETBIT is told the old bit and its bit has the new value at the end, GETBIT is told the old bit or one that is being written, and every other bit outside the destinations of BITOP is unchanged.\<close>

theorem every_schedule_answers:
  assumes "steady (set rs) w" and "\<forall>rq\<in>set rs. good_request rq"
    and "\<forall>t<length rs. max_turns (rs ! t) \<le> count_list sched t"
  shows "let (s, v) = run_schedule rs sched w in same_refs w v \<and> (\<forall>t<length rs. \<exists>r. s t = Answered r) \<and>
    (apart rs \<longrightarrow>
      (\<forall>t<length rs. case rs ! t of
         Set_request cmd \<Rightarrow>
           s t = Answered (of_bool (cell_bit w (key_hash (sb_key cmd)) (position_in cmd))) \<and>
           cell_bit v (key_hash (sb_key cmd)) (position_in cmd) = (sb_value cmd = 1)
       | Get_request cmd \<Rightarrow>
           (\<exists>r\<in>told (set rs) w (key_hash (gb_key cmd)) (nat (gb_offset cmd)). s t = Answered r)
       | Count_request key a e \<Rightarrow> (\<exists>r. s t = Answered r)
       | Op_request cmd srcs \<Rightarrow> (\<exists>r. s t = Answered r)) \<and>
      (\<forall>h p. h \<notin> dest_hashes (set rs) \<and>
         (\<forall>cmd. Set_request cmd \<in> set rs \<and> key_hash (sb_key cmd) = h \<longrightarrow> position_in cmd \<noteq> p) \<longrightarrow>
         cell_bit v h p = cell_bit w h p))"
proof -
  obtain s v where r: "run_schedule rs sched w = (s, v)" by fastforce
  have ans: "\<forall>t<length rs. \<exists>r. s t = Answered r"
    using schedule_answers [OF assms(1,2), of _ sched] assms(3) by (simp add: r)
  have refs: "same_refs w v" using schedule_keeps_refs [OF assms(1,2), of sched] ans by (intro answered_refs) (simp_all add: r)
  have says: "case rs ! t of
         Set_request cmd \<Rightarrow>
           s t = Answered (of_bool (cell_bit w (key_hash (sb_key cmd)) (position_in cmd))) \<and>
           cell_bit v (key_hash (sb_key cmd)) (position_in cmd) = (sb_value cmd = 1)
       | Get_request cmd \<Rightarrow>
           (\<exists>r\<in>told (set rs) w (key_hash (gb_key cmd)) (nat (gb_offset cmd)). s t = Answered r)
       | Count_request key a e \<Rightarrow> (\<exists>r. s t = Answered r)
       | Op_request cmd srcs \<Rightarrow> (\<exists>r. s t = Answered r)" if ok: "workers_ok rs w (s, v)" "apart rs" and t: "t < length rs" for t
  proof -
    note fin = all_answered [OF ok assms(2) ans]
    show ?thesis using fin(2,3) [OF t] fin(4) nth_mem [OF t] ans t by (cases "rs ! t") simp_all
  qed
  have ok: "workers_ok rs w (s, v)" if "apart rs" using schedule_keeps [OF assms(1) that assms(2), of sched] by (simp add: r)
  show ?thesis
    unfolding r Let_def prod.case using refs ans says [OF ok] all_answered(5) [OF ok _ assms(2) ans] by blast
qed

theorem every_schedule_answers_witness:
  "let rs = [Set_request \<lparr>sb_key = str ''a'', sb_offset = 9, sb_value = 0\<rparr>,
             Set_request \<lparr>sb_key = str ''a'', sb_offset = 17, sb_value = 1\<rparr>,
             Get_request \<lparr>gb_key = str ''b'', gb_offset = 3\<rparr>, demo_bitop];
       (s, v) = run_schedule rs ([0, 1, 3, 2, 1, 0, 0, 2, 3, 2, 1, 1, 2, 0] @ replicate (max_turns demo_bitop) 3)
         (demo_file (str ''a'') [1, 64])
    in same_refs (demo_file (str ''a'') [1, 64]) v \<and> s 0 = Answered 1 \<and> s 1 = Answered 0 \<and> s 2 = Answered 0 \<and>
       (\<exists>r. s 3 = Answered r) \<and>
       \<not> cell_bit v (key_hash (str ''a'')) 9 \<and> cell_bit v (key_hash (str ''a'')) 17"
proof -
  let ?rs = "[Set_request \<lparr>sb_key = str ''a'', sb_offset = 9, sb_value = 0\<rparr>,
             Set_request \<lparr>sb_key = str ''a'', sb_offset = 17, sb_value = 1\<rparr>,
             Get_request \<lparr>gb_key = str ''b'', gb_offset = 3\<rparr>, demo_bitop]"
  let ?w = "demo_file (str ''a'') [1, 64]"
  let ?sched = "[0, 1, 3, 2, 1, 0, 0, 2, 3, 2, 1, 1, 2, 0] @ replicate (max_turns demo_bitop) 3"
  have st: "steady (set ?rs) ?w"
    by (rule demo_steady) (simp_all add: all_hashes_def dest_hashes_def demo_bitop_def key_hash_a key_hash_c)
  have four: "t < length ?rs \<longleftrightarrow> t = 0 \<or> t = 1 \<or> t = 2 \<or> t = 3" for t by auto
  have nth: "?rs ! 3 = demo_bitop" by (simp add: numeral_3_eq_3)
  have ap: "apart ?rs" unfolding apart_def four
    by (auto simp: position_in_def demo_bitop_def key_hash_a key_hash_c numeral_3_eq_3)
  have old: "cell_bit ?w (key_hash (str ''a'')) 9" "\<not> cell_bit ?w (key_hash (str ''a'')) 17"
    "told (set ?rs) ?w (key_hash (str ''b'')) 3 = {0}"
    by (auto simp: cell_bit_def demo_file_ok(3) content_or_empty_def get_bit_def told_def key_hash_a key_hash_c
        dest_hashes_def demo_bitop_def)
  have g: "\<forall>rq\<in>set ?rs. good_request rq" by (simp add: good_set_def FILE_SIZE_LIMIT_def demo_bitop_def)
  have enough: "\<forall>t<length ?rs. max_turns (?rs ! t) \<le> count_list ?sched t" unfolding four using nth by auto
  obtain s v where r: "run_schedule ?rs ?sched ?w = (s, v)" by fastforce
  note e = every_schedule_answers [OF st g enough, unfolded r Let_def prod.case]
  have all: "P 0 \<and> P 1 \<and> P 2 \<and> P 3" if "\<forall>t<length ?rs. P t" for P :: "nat \<Rightarrow> bool" using that by simp
  have "same_refs ?w v \<and> s 0 = Answered 1 \<and> s 1 = Answered 0 \<and> s 2 = Answered 0 \<and> (\<exists>r. s 3 = Answered r) \<and>
      \<not> cell_bit v (key_hash (str ''a'')) 9 \<and> cell_bit v (key_hash (str ''a'')) 17"
    using conjunct1 [OF e] all [OF conjunct1 [OF mp [OF conjunct2 [OF conjunct2 [OF e]] ap]]] old nth
    by (simp add: position_in_def demo_bitop_def)
  then show ?thesis unfolding Let_def r prod.case .
qed

text \<open>C34: The turns of a thread are what the handler of its line does: for every accepted line, the turns of a thread alone leave the state that \<open>parse_and_execute\<close> leaves and answer what it replies; and a client that sends the line to an idle server is sent this reply.\<close>

theorem lines_run_as_threads:
  assumes "steady {rq} v" and "request_of line = Some rq" and "can_open_set v (request_hashes rq) (load rq)"
    and "10 \<notin> set line" and "length line < RBUF_INIT_CAP"
  shows "let (w, v') = parse_and_execute (new_work line) v in
    (\<exists>r. w_resp w = answer_text r \<and>
      run_schedule [rq] (replicate (max_turns rq) 0) v = ((\<lambda>_. Queued)(0 := Answered r), v')) \<and>
    (\<exists>p. pooled v p \<and> p_world p = v' \<and> n_replies (p_nets p 0) = [(line, w_resp w)])"
proof -
  note as = line_as_thread [OF assms(1-3)]
  then obtain r where "w_resp (fst (parse_and_execute (new_work line) v)) = answer_text r"
    "leads rq (Queued, v) (Answered r, snd (parse_and_execute (new_work line) v))" by (auto simp: as_thread_def)
  then show ?thesis
    using leads_answer [OF _ assms(1) request_of_good [OF assms(2)] order.refl] alone_is_answered [OF as assms(2,4,5)]
    unfolding split_def Let_def by blast
qed

theorem lines_run_as_threads_witness:
  "let (w, v') = parse_and_execute (new_work (str ''BITOP or c a b'')) (demo_file (str ''a'') [1, 64]) in
    (\<exists>r. w_resp w = answer_text r \<and>
      run_schedule [demo_bitop] (replicate (max_turns demo_bitop) 0) (demo_file (str ''a'') [1, 64]) =
        ((\<lambda>_. Queued)(0 := Answered r), v')) \<and>
    (\<exists>p. pooled (demo_file (str ''a'') [1, 64]) p \<and> p_world p = v' \<and>
      n_replies (p_nets p 0) = [(str ''BITOP or c a b'', w_resp w)])"
  by (rule lines_run_as_threads [OF demo_bitop_steady demo_bitop_line demo_bitop_open])
    (simp_all add: str_def RBUF_INIT_CAP_def)

text \<open>C35: A thread whose files no other thread writes does not notice the others: whatever they do in between, and even when they read its files at the same time, it is answered what the handler of its line replies on a server of its own, and leaves in its files what the handler leaves.\<close>

theorem isolated_commands:
  assumes "steady (set rs) w" and "\<forall>rq\<in>set rs. good_request rq" and "t < length rs" and "undisturbed rs t"
    and "request_of line = Some (rs ! t)" and "can_open_set w (request_hashes (rs ! t)) (load (rs ! t))"
    and "max_turns (rs ! t) \<le> count_list sched t"
  shows "let (s, v) = run_schedule rs sched w; (x, v') = parse_and_execute (new_work line) w in
    (\<exists>r. s t = Answered r \<and> w_resp x = answer_text r) \<and> (\<forall>h\<in>request_hashes (rs ! t). db v h = db v' h)"
proof -
  have one: "steady {rs ! t} w" by (rule steady_subset [OF assms(1)]) (use assms(3) in simp)
  obtain r where r: "w_resp (fst (parse_and_execute (new_work line) w)) = answer_text r"
    and lead: "leads (rs ! t) (Queued, w) (Answered r, snd (parse_and_execute (new_work line) w))"
    using line_as_thread [OF one assms(5,6)] by (auto simp: as_thread_def)
  then show ?thesis
    using isolated_answer [OF assms(1) one assms(2,3,4,7) lead] by (auto simp: split_def Let_def agree_def)
qed

theorem isolated_commands_witness:
  "let rs = [demo_request, Set_request \<lparr>sb_key = str ''b'', sb_offset = 17, sb_value = 1\<rparr>, demo_bitop];
       (s, v) = run_schedule rs [2, 0, 2, 1, 2, 0, 1, 2, 0, 1, 2, 0, 2] (demo_file (str ''a'') [1, 64]);
       (x, v') = parse_and_execute (new_work (str ''SETBIT a 9 0'')) (demo_file (str ''a'') [1, 64])
    in (\<exists>r. s 0 = Answered r \<and> w_resp x = answer_text r) \<and> db v (key_hash (str ''a'')) = db v' (key_hash (str ''a''))"
proof -
  let ?rs = "[demo_request, Set_request \<lparr>sb_key = str ''b'', sb_offset = 17, sb_value = 1\<rparr>, demo_bitop]"
  let ?sched = "[2, 0, 2, 1, 2, 0, 1, 2, 0, 1, 2, 0, 2] :: nat list"
  have st: "steady (set ?rs) (demo_file (str ''a'') [1, 64])"
    by (rule demo_steady)
      (simp_all add: all_hashes_def dest_hashes_def demo_request_def demo_bitop_def key_hash_a key_hash_c)
  have g: "\<forall>rq\<in>set ?rs. good_request rq"
    by (simp add: good_set_def FILE_SIZE_LIMIT_def demo_request_def demo_bitop_def)
  have three: "u < length ?rs \<longleftrightarrow> u = 0 \<or> u = 1 \<or> u = 2" for u by auto
  have nth: "?rs ! 2 = demo_bitop" by (simp add: numeral_2_eq_2)
  have un: "undisturbed ?rs 0"
    unfolding undisturbed_def three
    by (intro allI impI, elim disjE)
      (simp_all add: nth, simp_all add: demo_request_def demo_bitop_def key_hash_a key_hash_c)
  have turns: "max_turns (?rs ! 0) \<le> count_list ?sched 0" by (simp add: demo_request_def)
  have "request_of (str ''SETBIT a 9 0'') = Some (?rs ! 0)"
    "can_open_set (demo_file (str ''a'') [1, 64]) (request_hashes (?rs ! 0)) (load (?rs ! 0))"
    by (simp_all add: demo_request_line demo_request_open)
  then show ?thesis
    using isolated_commands [OF st g _ un _ _ turns] by (simp add: Let_def split_def demo_request_def)
qed

text \<open>C36: Two SETBIT commands on two bits of the same byte can lose one of them: both clients are told that the old bit was 0, and one bit is not set at the end.\<close>

theorem concurrent_sets_can_lose_a_bit:
  assumes "live w i" and "lengths w i = length (view w i)"
    and "p div 8 = q div 8" and "p \<noteq> q" and "p div 8 < length (view w i)" and "length (view w i) < 2 ^ 60"
    and "\<not> get_bit (view w i) p" and "\<not> get_bit (view w i) q"
  shows "\<exists>v. runs (both_set p q) i w (\<lambda>_. Finished 0) v \<and> \<not> get_bit (view v i) p \<and> get_bit (view v i) q"
  by (rule lost_update [OF assms])

theorem concurrent_sets_can_lose_a_bit_witness:
  "\<exists>v. runs (both_set 1 2) (demo_slot [1, 64]) (demo_opened [1, 64]) (\<lambda>_. Finished 0) v \<and>
    \<not> get_bit (view v (demo_slot [1, 64])) 1 \<and> get_bit (view v (demo_slot [1, 64])) 2"
  by (rule concurrent_sets_can_lose_a_bit [OF demo_opened_ok(1)])
    (simp_all add: demo_opened_ok(2,3) get_bit_def bit_1_iff)

section \<open>Paths and settings\<close>

text \<open>C37: Every key hash has its own data file: \<open>gen_path\<close> succeeds on a usable directory, creates the two levels, and different hashes never share a path.\<close>

theorem data_file_of_hash:
  assumes "dirs_ready s" and "faults s = []"
  shows "gen_path path_buffer h s =
      (0, path_of (srv_dir s) h @ replicate (237 - length (srv_dir s)) 0, mkdirs h s) \<and>
    (path_of (srv_dir s) h = path_of (srv_dir s) h' \<longleftrightarrow> h = h')"
  using gen_path_ready [OF assms] path_of_inject by blast

theorem data_file_of_hash_witness:
  "gen_path path_buffer 255 demo_world =
      (0, path_of (srv_dir demo_world) 255 @ replicate (237 - length (srv_dir demo_world)) 0, mkdirs 255 demo_world) \<and>
    (path_of (srv_dir demo_world) 255 = path_of (srv_dir demo_world) 256 \<longleftrightarrow> (255 :: u64) = 256)"
  by (rule data_file_of_hash [OF dirs_ready_demo]) (simp add: demo_fields)

text \<open>C38: For every directory that the options accept nothing is written past the 256 bytes of \<open>filename\<close>, whatever the calls return; but the path has its terminating NUL only up to 236 bytes, and 237 are accepted.\<close>

theorem path_buffer_bounds:
  assumes "configure inet nprocs io0 opts = Some sv" and "sv_dir sv = Some (srv_dir s)"
  shows "length (fst (snd (gen_path path_buffer h s))) = 256 \<and>
    (fst (gen_path path_buffer h s) = 0 \<longrightarrow>
      (0 \<in> set (fst (snd (gen_path path_buffer h s))) \<longleftrightarrow> length (srv_dir s) \<noteq> 237))"
proof -
  have d: "0 \<notin> set (srv_dir s)" "length (srv_dir s) \<le> 237"
    using configure_ok(1) [OF assms(1)] assms(2) by (simp_all add: settings_ok_def)
  then have "length (srv_dir s) \<le> 236 \<longleftrightarrow> length (srv_dir s) \<noteq> 237" by linarith
  then show ?thesis using gen_path_length [OF d] gen_path_terminated [OF d(1)] by simp
qed

theorem path_buffer_bounds_witness:
  "length (fst (snd (gen_path path_buffer 255 demo_world))) = 256 \<and>
    0 \<in> set (fst (snd (gen_path path_buffer 255 demo_world)))"
proof -
  have "configure (\<lambda>_. 0) 4 demo_world [(100, str ''d'')] =
      Some ((default_server (\<lambda>_. 0) 4)\<lparr>sv_dir := Some (str ''d'')\<rparr>)"
    by (simp add: configure_def apply_option_def check_dir_ok cstr_id demo_world_def default_server_def)
      (simp add: str_def)
  note p = path_buffer_bounds [OF this, of demo_world 255]
  have "fst (gen_path path_buffer 255 demo_world) = 0"
    by (subst gen_path_ready [OF dirs_ready_demo]) (simp_all add: demo_fields)
  then show ?thesis using p by (simp add: demo_fields)
qed

section \<open>Starting\<close>

text \<open>C39: A server that reaches its event loop is the child of its \<open>fork\<close>, has a data directory of at most 237 bytes, a port from 1 to 65534, a number of workers in range or the default, and a file for its process id; its file table satisfies the invariant that every command keeps, with the files on disk as the data base.\<close>

theorem server_reaches_loop:
  assumes "start_main sys opts pr w = Goes_on (sv, pr', v)"
    and "faults w = []" and "idx w = 0" and "\<not> crashed w"
    and "\<forall>d. sv_dir sv = Some d \<longrightarrow> fs_ready (w\<lparr>srv_dir := d\<rparr>)"
    and "\<forall>d p. sv_dir sv = Some d \<and> sv_pid sv = Some p \<longrightarrow> outside d p"
  shows "\<exists>d p. sv_dir sv = Some d \<and> sv_pid sv = Some p \<and> length d \<le> 237 \<and> sys_fork sys = 0 \<and>
    0 < sin_port (sv_socket sv) \<and> sin_port (sv_socket sv) < 65535 \<and>
    (sv_worker sv = 2 * int (sys_nprocs sys) \<or> WORKER_MINIMUM \<le> sv_worker sv \<and> sv_worker sv \<le> WORKER_MAXIMUM) \<and>
    server_ok v \<and> srv_dir v = d \<and> db v = disk (w\<lparr>srv_dir := d\<rparr>)"
proof -
  note r = start_main_runs [OF assms(1-4)]
  have out: "\<And>d. sv_dir sv = Some d \<Longrightarrow> fs_ready (w\<lparr>srv_dir := d\<rparr>)"
    "\<And>d p. sv_dir sv = Some d \<Longrightarrow> sv_pid sv = Some p \<Longrightarrow> outside d p" using assms(5,6) by blast+
  have "settings_ok (sys_nprocs sys) w sv" by (rule configure_ok(1) [OF r(3)]) (use out in blast)+
  then show ?thesis using r(1) [OF out] r(2) [OF out] r(4) [OF out] by (auto simp: settings_ok_def)
qed

theorem server_reaches_loop_witness:
  "let sys = \<lparr>sys_inet_addr = (\<lambda>_. 0), sys_nprocs = 4, sys_fork = 0, sys_null = 5, sys_pid = 77, sys_bind = 0,
              sys_listen = 0\<rparr>;
       pr = \<lparr>p_fds = (\<lambda>_. None), p_umask = 18\<rparr>;
       w = demo_world\<lparr>fs := (fs demo_world)(str ''x'' \<mapsto> Reg True [])\<rparr>
    in \<exists>sv pr' v. start_main sys [(100, str ''d''), (112, str ''x'')] pr w = Goes_on (sv, pr', v) \<and>
         server_ok v \<and> srv_dir v = str ''d'' \<and> db v = disk w"
proof -
  let ?sys = "\<lparr>sys_inet_addr = (\<lambda>_. 0), sys_nprocs = 4, sys_fork = 0, sys_null = 5, sys_pid = 77, sys_bind = 0,
              sys_listen = 0\<rparr>"
  let ?pr = "\<lparr>p_fds = (\<lambda>_ :: int. None :: byte list option), p_umask = 18\<rparr>"
  let ?w = "demo_world\<lparr>fs := (fs demo_world)(str ''x'' \<mapsto> Reg True [])\<rparr>"
  let ?sv = "(default_server (\<lambda>_. 0) 4)\<lparr>sv_pid := Some (str ''x''), sv_dir := Some (str ''d'')\<rparr>"
  have xd: "str ''x'' \<noteq> str ''d''" by (simp add: str_def)
  have here: "fs ?w (str ''d'') = Some (Dir True)" "fs ?w (str ''x'') = Some (Reg True [])"
    using xd by (simp_all add: demo_world_def)
  have "apply_option (\<lambda>_. 0) ?w (100, str ''d'') sv = Some (sv\<lparr>sv_dir := Some (str ''d'')\<rparr>)" for sv
    by (rule demo_options(1) [OF here(1)])
  moreover have "apply_option (\<lambda>_. 0) ?w (112, str ''x'') sv = Some (sv\<lparr>sv_pid := Some (str ''x'')\<rparr>)" for sv
    by (rule demo_options(2) [OF here(2)])
  ultimately have c: "configure (\<lambda>_. 0) 4 ?w [(100, str ''d''), (112, str ''x'')] = Some ?sv"
    by (simp add: configure_def)
  have out: "outside (str ''d'') (str ''x'')" by (simp add: outside_def str_def)
  have rdy: "fs_ready ?w" using outside_file(1) [OF _ out [folded demo_fields(1)]] demo_ok(1)
    by (simp add: server_ok_def table_wf_def)
  have sd: "?w\<lparr>srv_dir := str ''d''\<rparr> = ?w" by (simp add: demo_world_def)
  obtain pr' v where run: "start_main ?sys [(100, str ''d''), (112, str ''x'')] ?pr ?w = Goes_on (?sv, pr', v)"
    using daemonize_pid_file [of ?w ?sv "str ''x''" 77 5 ?pr]
    by (auto simp: start_main_def c sd run_server_def demo_fields)
  note q = server_reaches_loop [OF run, simplified sd]
  have "server_ok v \<and> srv_dir v = str ''d'' \<and> db v = disk ?w"
    using q rdy out sd by (auto simp: demo_fields)
  then show ?thesis unfolding Let_def using run by blast
qed

text \<open>C40: A child that is started without \<open>-p\<close> opens a null pointer as the file for its process id, which the C standard leaves undefined.\<close>

theorem missing_pid_option:
  assumes "configure (sys_inet_addr sys) (sys_nprocs sys) w opts = Some sv"
    and "\<forall>x\<in>set opts. [fst x] \<noteq> str ''p''" and "sys_fork sys = 0"
  shows "start_main sys opts pr w = Undefined"
  by (rule start_without_pid [OF assms])

theorem missing_pid_option_witness:
  "start_main \<lparr>sys_inet_addr = (\<lambda>_. 0), sys_nprocs = 4, sys_fork = 0, sys_null = 5, sys_pid = 77, sys_bind = 0,
      sys_listen = 0\<rparr> [(100, str ''d'')] \<lparr>p_fds = (\<lambda>_. None), p_umask = 18\<rparr> demo_world = Undefined"
proof -
  let ?sys = "\<lparr>sys_inet_addr = (\<lambda>_. 0), sys_nprocs = 4, sys_fork = 0, sys_null = 5, sys_pid = 77, sys_bind = 0,
      sys_listen = 0\<rparr>"
  have "configure (\<lambda>_. 0) 4 demo_world [(100, str ''d'')] =
      Some ((default_server (\<lambda>_. 0) 4)\<lparr>sv_dir := Some (str ''d'')\<rparr>)"
    by (simp add: configure_def apply_option_def check_dir_ok cstr_id demo_world_def default_server_def)
      (simp add: str_def)
  then show ?thesis by (intro missing_pid_option [of ?sys]) (simp_all add: str_def)
qed

section \<open>Further facts\<close>

text \<open>The bits of a BITOP result are the operator on the bits of the sources, missing bytes reading as 0.\<close>

theorem bitop_result_bits:
  assumes "srcs \<noteq> []" and "i < 8 * length (bitop_result op v srcs)"
  shows "get_bit (bitop_result op v srcs) i =
    op_bit op (map (\<lambda>k. get_bit (content_or_empty (db v (key_hash k))) i) srcs)"
  using assms get_bit_op_result [of "map (\<lambda>k. content_or_empty (db v (key_hash k))) srcs" i op]
  by (simp add: bitop_result_def comp_def)

theorem bitop_result_bits_witness:
  "get_bit (bitop_result OP_OR (demo_file (str ''a'') [1, 64]) [str ''a'', str ''b'']) 9 =
    op_bit OP_OR (map (\<lambda>k. get_bit (content_or_empty (db (demo_file (str ''a'') [1, 64]) (key_hash k))) 9)
      [str ''a'', str ''b''])"
  by (rule bitop_result_bits)
    (simp_all add: bitop_result_def result_length_def demo_states content_or_empty_def key_hash_a)

text \<open>Reading back what was printed: \<open>atol\<close> of the decimal output of any \<open>long\<close> is that number, and the reply of a command is that output with a newline, untruncated.\<close>

theorem number_round_trip:
  assumes "0 \<le> r" and "r < 10 ^ 14" and "faults v = []" and "0 < w_cap w" and "w_resp w = []"
  shows "w_resp (fst (reply_num r (w, v))) = dec_int r @ [10] \<and> atol (dec_int r) = r"
proof -
  have "w_resp (fst (reply (dec_int r @ [10]) (length (dec_int r) + 1) (w, v))) = dec_int r @ [10]"
    using reply_ok [OF assms(3,4), of "length (dec_int r) + 1" "dec_int r @ [10]"] assms(5) by auto
  then show ?thesis
    using dec_int_small [OF assms(1,2)] atol_dec_int [of r] assms(1,2) by (simp add: LONG_MIN_def LONG_MAX_def)
qed

theorem number_round_trip_witness:
  "w_resp (fst (reply_num 1024 (new_work [], demo_world))) = dec_int 1024 @ [10] \<and> atol (dec_int 1024) = 1024"
  by (rule number_round_trip) (simp_all add: demo_fields)

text \<open>SETBIT commands that run at the same time on different bytes of one file do not disturb each other: in every interleaving that finishes, each is told the old bit, each bit has its new value, and every other bit is unchanged.\<close>

theorem interleaved_sets_on_different_bytes:
  assumes "runs cmds dt w s v" and "live w dt" and "lengths w dt = length (view w dt)"
    and "\<forall>t. within (cmds t) (view w dt)" and "inj (\<lambda>t. position_in (cmds t) div 8)"
    and "\<forall>t. \<exists>r. s t = Finished r"
  shows "(\<forall>t. s t = Finished (of_bool (get_bit (view w dt) (position_in (cmds t)))) \<and>
      get_bit (view v dt) (position_in (cmds t)) = (sb_value (cmds t) = 1)) \<and>
    (\<forall>j. (\<forall>t. position_in (cmds t) \<noteq> j) \<longrightarrow> get_bit (view v dt) j = get_bit (view w dt) j)"
proof -
  have inv: "no_interference cmds dt (view w dt) s v"
    by (rule runs_no_interference) (use assms in blast)+
  show ?thesis using all_finished [OF inv _ assms(5)] assms(6) by blast
qed

theorem interleaved_sets_on_different_bytes_witness:
  "\<exists>v. let cmds = (\<lambda>_ :: unit. \<lparr>sb_key = str ''a'', sb_offset = 9, sb_value = 0\<rparr>); dt = demo_slot [1, 64];
      w = demo_opened [1, 64]; s = (\<lambda>_. Finished 1) in
    runs cmds dt w s v \<and>
    (\<forall>t. s t = Finished (of_bool (get_bit (view w dt) (position_in (cmds t)))) \<and>
      get_bit (view v dt) (position_in (cmds t)) = (sb_value (cmds t) = 1)) \<and>
    (\<forall>j. (\<forall>t. position_in (cmds t) \<noteq> j) \<longrightarrow> get_bit (view v dt) j = get_bit (view w dt) j)"
proof -
  let ?cmd = "\<lparr>sb_key = str ''a'', sb_offset = 9, sb_value = 0\<rparr>"
  note d = demo_opened_ok(1-3) [of "[1, 64]"]
  have w: "within ?cmd (view (demo_opened [1, 64]) (demo_slot [1, 64]))"
    by (simp add: within_def position_in_def d(2))
  have b: "get_bit (view (demo_opened [1, 64]) (demo_slot [1, 64])) (position_in ?cmd)"
    unfolding d(2) position_in_def by (simp add: get_bit_def)
  obtain v where r: "runs (\<lambda>_ :: unit. ?cmd) (demo_slot [1, 64]) (demo_opened [1, 64]) (\<lambda>_. Finished 1) v"
    using single_run [OF d(1) _ w] d(2,3) b by auto
  show ?thesis
    using interleaved_sets_on_different_bytes [OF r d(1)] r w d(2,3) unfolding Let_def by (auto simp: inj_on_def)
qed

text \<open>A line that is too short, or whose first five bytes hash to none of the six commands, is answered with an error and touches nothing.\<close>

theorem unknown_line:
  assumes "faults v = []"
    and "length line < 10 \<or> dispatch_hash line \<notin> (\<lambda>s. xxh64_bytes 0 (str s)) `
      {''SETBI'', ''GETBI'', ''BITOP'', ''BITCO'', ''BITPO'', ''BITFI''}"
  shows "w_resp (fst (parse_and_execute (new_work line) v)) =
      str (if length line < 10 then ''ERR:CMD TOO SHORT'' else ''ERR:UNKNOW CMD'') @ [10] \<and>
    snd (parse_and_execute (new_work line) v) = v"
  using assms short_rejects [OF assms(1), of line] unknown_rejects [OF assms(1), of line]
  by (cases "length line < 10") (auto simp: rejects_def)

theorem unknown_line_witness:
  "w_resp (fst (parse_and_execute (new_work (str ''FLUSHALL now'')) demo_world)) =
      str (if length (str ''FLUSHALL now'') < 10 then ''ERR:CMD TOO SHORT'' else ''ERR:UNKNOW CMD'') @ [10] \<and>
    snd (parse_and_execute (new_work (str ''FLUSHALL now'')) demo_world) = demo_world"
proof (rule unknown_line)
  have "dispatch_hash (str ''FLUSHALL now'') = xxh64_bytes 0 (str ''FLUSH'')"
    by (subst dispatch_hash_ref) (simp_all add: str_def)
  also have "\<dots> = 1778503479059904729" by (simp add: str_def xxh64_eval)
  finally show "length (str ''FLUSHALL now'') < 10 \<or> dispatch_hash (str ''FLUSHALL now'') \<notin>
      (\<lambda>s. xxh64_bytes 0 (str s)) ` {''SETBI'', ''GETBI'', ''BITOP'', ''BITCO'', ''BITPO'', ''BITFI''}"
    by (simp add: hash_literals)
qed (simp add: demo_fields)

text \<open>Opening a key that has a free slot and no other key on its chain leaves every open file, its content and its holders as they were, in every mode.\<close>

theorem opening_keeps_open_files:
  assumes "server_ok v" and "can_open v (key_hash key)" and "mode \<le> 2" and "live v j"
  shows "let v' = snd (snd (prepare_file key mode v))
    in live v' j \<and> view v' j = view v j \<and> d_hash (descs v' j) = d_hash (descs v j) \<and>
       lengths v' j = lengths v j"
  using prepare_keeps_holders [OF assms(1-3)] assms(4) by (simp add: holders_kept_def)

theorem opening_keeps_open_files_witness:
  "let v' = snd (snd (prepare_file (str ''a'') 2 (demo_opened [1, 64])))
    in live v' (demo_slot [1, 64]) \<and> view v' (demo_slot [1, 64]) = view (demo_opened [1, 64]) (demo_slot [1, 64]) \<and>
       d_hash (descs v' (demo_slot [1, 64])) = d_hash (descs (demo_opened [1, 64]) (demo_slot [1, 64])) \<and>
       lengths v' (demo_slot [1, 64]) = lengths (demo_opened [1, 64]) (demo_slot [1, 64])"
proof (rule opening_keeps_open_files [OF demo_opened_ok(4) _ _ demo_opened_ok(1)])
  have "XXTABLE (demo_opened [1, 64]) (chain_id (key_hash (str ''a''))) = Some (demo_slot [1, 64])"
    using demo_opened_ok(1,5) by (metis liveE)
  then show "can_open (demo_opened [1, 64]) (key_hash (str ''a''))"
    using demo_opened_ok(5) by (simp add: can_open_def key_hash_a)
qed simp

text \<open>A server that gets past its options has a data directory that exists, is accessible and at most 237 bytes long, a port from 1 to 65534, and a number of workers that is in range or the default.\<close>

theorem settings_of_started_server:
  assumes "configure inet nprocs io opts = Some sv"
  shows "(\<exists>d. sv_dir sv = Some d \<and> length d \<le> 237 \<and> fs io d = Some (Dir True)) \<and>
    0 < sin_port (sv_socket sv) \<and> sin_port (sv_socket sv) < 65535 \<and>
    (sv_worker sv = 2 * int nprocs \<or> WORKER_MINIMUM \<le> sv_worker sv \<and> sv_worker sv \<le> WORKER_MAXIMUM)"
  using configure_ok [OF assms] by (auto simp: settings_ok_def)

theorem settings_of_started_server_witness:
  "let sv = (default_server (\<lambda>_. 0) 4)\<lparr>sv_worker := 8, sv_dir := Some (str ''d'')\<rparr> in
    (\<exists>d. sv_dir sv = Some d \<and> length d \<le> 237 \<and> fs demo_world d = Some (Dir True)) \<and>
    0 < sin_port (sv_socket sv) \<and> sin_port (sv_socket sv) < 65535 \<and>
    (sv_worker sv = 2 * int 4 \<or> WORKER_MINIMUM \<le> sv_worker sv \<and> sv_worker sv \<le> WORKER_MAXIMUM)"
proof -
  let ?sv = "default_server (\<lambda>_. 0) 4"
  have "apply_option (\<lambda>_. 0) demo_world (119, str ''8'') ?sv = Some (?sv\<lparr>sv_worker := 8\<rparr>)"
  proof -
    have "atoi (str ''8'') = 8" by code_simp
    moreover have "[119] \<noteq> str ''l''" "[119] \<noteq> str ''D''" "[119] \<noteq> str ''p''" "[119] = str ''w''"
      by (simp_all add: str_def)
    ultimately show ?thesis by (simp add: apply_option_def WORKER_MINIMUM_def WORKER_MAXIMUM_def)
  qed
  moreover have "apply_option (\<lambda>_. 0) demo_world (100, str ''d'') (?sv\<lparr>sv_worker := 8\<rparr>)
      = Some (?sv\<lparr>sv_worker := 8, sv_dir := Some (str ''d'')\<rparr>)"
    by (simp add: apply_option_def check_dir_ok cstr_id demo_world_def) (simp add: str_def)
  ultimately have "configure (\<lambda>_. 0) 4 demo_world [(119, str ''8''), (100, str ''d'')] =
      Some (?sv\<lparr>sv_worker := 8, sv_dir := Some (str ''d'')\<rparr>)"
    by (simp add: configure_def)
  from settings_of_started_server [OF this] show ?thesis unfolding Let_def .
qed

text \<open>The initialisation of the file module establishes the invariant that every command keeps, with the files on disk as the data base.\<close>

theorem started_server_is_ok:
  assumes "faults w = []" and "fs_ready w" and "idx w = 0" and "\<not> crashed w"
  shows "server_ok (start_files w) \<and> db (start_files w) = disk w"
  using start_files_ok [OF assms] by (auto simp: fun_eq_iff)

theorem started_server_is_ok_witness:
  "server_ok (start_files demo_world) \<and> db (start_files demo_world) = disk demo_world"
  by (rule started_server_is_ok) (simp_all add: demo_fields fs_ready_def dirs_ready_demo)

text \<open>The option \<open>-l :port\<close> accepts exactly the ports from 1 to 65534.\<close>

theorem listen_port_option:
  assumes "n < 2 ^ 31"
  shows "set_addr_port inet (58 # dec_nat n) sa =
    (if 0 < n \<and> n < 65535 then (0, sa\<lparr>sin_port := n\<rparr>) else (-1, sa))"
  by (rule set_port [OF assms])

theorem listen_port_option_witness:
  "set_addr_port (\<lambda>_. 0) (58 # dec_nat 65535) \<lparr>sin_port = 6379, s_addr = 7\<rparr> =
    (if 0 < (65535 :: nat) \<and> (65535 :: nat) < 65535 then (0, \<lparr>sin_port = 6379, s_addr = 7\<rparr>\<lparr>sin_port := 65535\<rparr>)
     else (-1, \<lparr>sin_port = 6379, s_addr = 7\<rparr>))"
  by (rule listen_port_option) simp

text \<open>No accepted SETBIT makes a content longer than 2 GiB, so that every later offset computation stays in range.\<close>

theorem contents_stay_bounded:
  assumes "server_ok v" and "10 \<le> length line" and "take 5 line = str ''SETBI''"
    and "line_words line = [name, key, off, val]"
    and "0 \<le> atol off" and "atol off div 8 \<le> FILE_SIZE_LIMIT"
    and "atol val = 0 \<or> atol val = 1" and "length (cstr key) \<le> 64" and "can_open v (key_hash key)"
    and "\<forall>h c. db v h = Some c \<longrightarrow> int (length c) \<le> FILE_SIZE_LIMIT + 1"
  shows "\<forall>h c. db (snd (parse_and_execute (new_work line) v)) h = Some c \<longrightarrow> int (length c) \<le> FILE_SIZE_LIMIT + 1"
proof -
  have old: "int (length (content_or_empty (db v (key_hash key)))) \<le> FILE_SIZE_LIMIT + 1"
    using assms(10) by (auto simp: content_or_empty_def FILE_SIZE_LIMIT_def split: option.split)
  have "int (nat (atol off) div 8) = atol off div 8" using assms(5) by (simp add: zdiv_int)
  then have "int (length (setbit_content (content_or_empty (db v (key_hash key))) (nat (atol off)) (atol val = 1)))
      \<le> FILE_SIZE_LIMIT + 1"
    using old assms(6) by (auto simp: length_setbit_content max_def)
  then show ?thesis using assms(10) by (auto simp: setbit_line(4) [OF assms(1-9)])
qed

theorem contents_stay_bounded_witness:
  "case db (snd (parse_and_execute (new_work (str ''SETBIT a 9 1'')) demo_world)) (key_hash (str ''a'')) of
     None \<Rightarrow> True
   | Some c \<Rightarrow> int (length c) \<le> FILE_SIZE_LIMIT + 1"
proof -
  have "\<forall>h c. db demo_world h = Some c \<longrightarrow> int (length c) \<le> FILE_SIZE_LIMIT + 1" by (simp add: demo_ok)
  then have "\<forall>h c. db (snd (parse_and_execute (new_work (str ''SETBIT a 9 1'')) demo_world)) h = Some c \<longrightarrow>
      int (length c) \<le> FILE_SIZE_LIMIT + 1"
    by (rule contents_stay_bounded [where key = "str ''a''" and off = "str ''9''" and val = "str ''1''", rotated 9])
      (simp_all add: demo_states FILE_SIZE_LIMIT_def, simp_all add: str_def)
  then show ?thesis by (auto split: option.split)
qed

text \<open>A write to an open file stays in the buffer of its stream: until the stream is used again or closed, the file on disk has the content before the write.\<close>

theorem write_not_yet_on_disk:
  assumes "live w i" and "bs \<noteq> []" and "write_to i bs (int off) w = (r, w')"
  shows "disk w' (d_hash (descs w i)) = Some (view w i) \<and> view w' i = write_at (view w i) off bs"
  using write_stays_in_stream [OF assms] files.wr_law [OF assms(1,2), of off] assms(3) by auto

theorem write_not_yet_on_disk_witness:
  "\<exists>r w'. write_to (demo_slot [1, 64]) [7] (int 0) (demo_opened [1, 64]) = (r, w') \<and>
    disk w' (key_hash (str ''a'')) = Some [1, 64] \<and> view w' (demo_slot [1, 64]) = [7, 64]"
proof -
  obtain r w' where w: "write_to (demo_slot [1, 64]) [7] (int 0) (demo_opened [1, 64]) = (r, w')" by fastforce
  from write_not_yet_on_disk [OF demo_opened_ok(1) _ w] show ?thesis
    using w by (auto simp: demo_opened_ok(2,5) write_at_def)
qed

text \<open>Combining a block in groups of four words and then byte by byte is the operator applied to each byte position on its own.\<close>

theorem combine_bytewise:
  assumes "bufs \<noteq> []" and "\<forall>q\<in>set bufs. sz \<le> length q" and "j < sz"
  shows "combine op bufs sz ! j = op_column op (map (\<lambda>q. q ! j) bufs)"
  using combine_pointwise [of bufs sz op] assms by blast

theorem combine_bytewise_witness:
  "combine OP_XOR [replicate 40 5, replicate 40 3] 35 ! 33 = op_column OP_XOR (map (\<lambda>q. q ! 33) [replicate 40 5, replicate 40 3])"
  by (rule combine_bytewise) simp_all

text \<open>Threads that run any commands, in any interleaving: at every moment the reference count of each descriptor is its old value plus the number of references the threads have taken, and what a thread holds is open, has the hash of one of its keys, and cannot be evicted.\<close>

theorem held_files_stay_open:
  assumes "steady (set rs) w" and "\<forall>rq\<in>set rs. good_request rq" and "17 * length rs < 2 ^ 32"
  shows "let (s, v) = run_schedule rs sched w in server_ok v \<and> hung v = hung w \<and>
    (\<forall>i. d_refs (descs v i) = d_refs (descs w i) + of_nat (holders (length rs) s i)) \<and>
    (\<forall>t<length rs. \<forall>i\<in>set (held (s t)). live v i \<and> d_hash (descs v i) \<in> request_hashes (rs ! t) \<and>
      (d_refs (descs w i) = 0 \<longrightarrow> d_refs (descs v i) \<noteq> 0))"
proof -
  obtain s v where r: "run_schedule rs sched w = (s, v)" by fastforce
  have ok: "refs_ok rs w (s, v)" using schedule_keeps_refs [OF assms(1,2), of sched] by (simp add: r)
  show ?thesis using ok refs_ok_held [OF ok assms(2,3)] steadyD(1)
    unfolding r Let_def prod.case by (auto simp: refs_ok_def holds_ok_def)
qed

theorem held_files_stay_open_witness:
  "let rs = [Set_request \<lparr>sb_key = str ''a'', sb_offset = 9, sb_value = 1\<rparr>,
             Set_request \<lparr>sb_key = str ''a'', sb_offset = 10, sb_value = 1\<rparr>,
             Get_request \<lparr>gb_key = str ''b'', gb_offset = 3\<rparr>, demo_bitop];
       (s, v) = run_schedule rs [0, 3, 1, 2, 3, 1, 0, 3, 0, 1] (demo_file (str ''a'') [1, 64])
    in server_ok v \<and> d_refs (descs v 0) = of_nat (holders 4 s 0)"
proof -
  let ?rs = "[Set_request \<lparr>sb_key = str ''a'', sb_offset = 9, sb_value = 1\<rparr>,
             Set_request \<lparr>sb_key = str ''a'', sb_offset = 10, sb_value = 1\<rparr>,
             Get_request \<lparr>gb_key = str ''b'', gb_offset = 3\<rparr>, demo_bitop]"
  let ?w = "demo_file (str ''a'') [1, 64]"
  have st: "steady (set ?rs) ?w"
    by (rule demo_steady) (simp_all add: all_hashes_def dest_hashes_def demo_bitop_def key_hash_a key_hash_c)
  have g: "\<forall>rq\<in>set ?rs. good_request rq" by (simp add: good_set_def FILE_SIZE_LIMIT_def demo_bitop_def)
  have n: "length ?rs = 4" "17 * length ?rs < 2 ^ 32" by simp_all
  obtain s v where r: "run_schedule ?rs [0, 3, 1, 2, 3, 1, 0, 3, 0, 1] ?w = (s, v)" by fastforce
  note h = held_files_stay_open [OF st g n(2), of "[0, 3, 1, 2, 3, 1, 0, 3, 0, 1]", unfolded r n(1) Let_def prod.case]
  have "d_refs (descs ?w 0) = 0" by (simp add: demo_file_fields zero_desc_def)
  then have "server_ok v \<and> d_refs (descs v 0) = of_nat (holders 4 s 0)" using h by simp
  then show ?thesis unfolding Let_def r prod.case .
qed

end
